(* ===== verification/Prelude.thy ===== *)
theory Prelude
  imports Main "HOL-Library.Word"
begin

text \<open>
  What every component of the model shares: the machine types, the results of operations
  that may fault, slices of byte memory and the fixed-width codec interface with its
  little-endian instances.

  \<^item> \<open>byte\<close>, \<open>u16\<close>, \<open>u32\<close>, \<open>u64\<close> are the C types \<open>uint8_t\<close> to \<open>uint64_t\<close>;
    a C \<open>int\<close> that is only computed with is an \<open>int\<close>, one that lies in memory is a
    \<open>u32\<close> read with \<open>sint\<close>.
  \<^item> \<open>'a res\<close> is what running a piece of C gives: \<open>Inr\<close> of a value, or \<open>Inl\<close> of the
    fault it runs into (an access outside an object, a failed \<open>assert\<close>, a division by zero,
    a signed overflow, the use of a freed socket).
  \<^item> \<open>fixed_codec\<close> is the interface of everything that has a byte image of a fixed width;
    its laws and their consequences are proved once and reused for integers, for the
    packet buffer and for the hexadecimal time step.
\<close>

unbundle bit_operations_syntax

named_theorems res_simps \<open>running operations that may fault\<close>
named_theorems slice_simps \<open>lengths and contents of slices of byte memory\<close>

type_synonym byte = "8 word"
type_synonym u16 = "16 word"
type_synonym u32 = "32 word"
type_synonym u64 = "64 word"

section \<open>Faults\<close>

datatype fault =
    OutOfBounds    \<comment> \<open>a read or write outside the object\<close>
  | AssertFailed   \<comment> \<open>\<open>assert\<close> aborts the process\<close>
  | DivByZero
  | IntOverflow    \<comment> \<open>signed overflow\<close>
  | UseAfterFree   \<comment> \<open>a closed socket is used\<close>

type_synonym 'a res = "fault + 'a"

definition bind_res :: "'a res \<Rightarrow> ('a \<Rightarrow> 'b res) \<Rightarrow> 'b res" where
  "bind_res m f = (case m of Inl e \<Rightarrow> Inl e | Inr x \<Rightarrow> f x)"

lemma bind_res_Inl [simp, res_simps]: "bind_res (Inl e) f = Inl e"
  by (simp add: bind_res_def)

lemma bind_res_Inr [simp, res_simps]: "bind_res (Inr x) f = f x"
  by (simp add: bind_res_def)

lemma bind_res_eq_Inr [res_simps]:
  "bind_res m f = Inr y \<longleftrightarrow> (\<exists>x. m = Inr x \<and> f x = Inr y)"
  by (cases m) auto

lemma bind_res_eq_Inl [res_simps]:
  "bind_res m f = Inl e \<longleftrightarrow> m = Inl e \<or> (\<exists>x. m = Inr x \<and> f x = Inl e)"
  by (cases m) auto

definition assert_res :: "bool \<Rightarrow> unit res" where
  "assert_res b = (if b then Inr () else Inl AssertFailed)"

lemma assert_res_simps [simp, res_simps]:
  "assert_res True = Inr ()" "assert_res False = Inl AssertFailed"
  by (simp_all add: assert_res_def)

lemma assert_res_eq_Inr [simp, res_simps]: "assert_res b = Inr u \<longleftrightarrow> b"
  by (simp add: assert_res_def)

text \<open>The range of a C \<^verbatim>\<open>int\<close>.\<close>

definition is_int32 :: "int \<Rightarrow> bool" where
  "is_int32 x \<longleftrightarrow> - (2 ^ 31) \<le> x \<and> x < 2 ^ 31"

section \<open>Slices of memory\<close>

definition slice_at :: "nat \<Rightarrow> nat \<Rightarrow> 'a list \<Rightarrow> 'a list" where
  "slice_at off n bs = take n (drop off bs)"

definition write_at :: "nat \<Rightarrow> 'a list \<Rightarrow> 'a list \<Rightarrow> 'a list" where
  "write_at off ds bs = take off bs @ ds @ drop (off + length ds) bs"

lemma length_slice [simp, slice_simps]: "length (slice_at off n bs) = min n (length bs - off)"
  by (simp add: slice_at_def)

lemma length_write [simp, slice_simps]:
  "off + length ds \<le> length bs \<Longrightarrow> length (write_at off ds bs) = length bs"
  by (simp add: write_at_def)

lemma slice_write_same [simp, slice_simps]:
  "off \<le> length bs \<Longrightarrow> slice_at off (length ds) (write_at off ds bs) = ds"
  by (simp add: slice_at_def write_at_def)

lemma slice_write_before [slice_simps]:
  assumes "a + n \<le> off" and "off \<le> length bs"
  shows "slice_at a n (write_at off ds bs) = slice_at a n bs"
proof -
  have "slice_at a n (write_at off ds bs) = take n (drop a (take off bs))"
    using assms by (simp add: slice_at_def write_at_def)
  also have "\<dots> = take n (drop a bs)"
    using assms by (simp add: drop_take min_absorb1)
  finally show ?thesis by (simp add: slice_at_def)
qed

lemma slice_write_after [slice_simps]:
  assumes "off + length ds \<le> a" and "off \<le> length bs"
  shows "slice_at a n (write_at off ds bs) = slice_at a n bs"
proof -
  have "drop a (write_at off ds bs) = drop a bs"
    using assms by (simp add: write_at_def add.commute)
  then show ?thesis by (simp add: slice_at_def)
qed

lemma write_slice_id [simp]: "write_at off (slice_at off n bs) bs = bs"
proof -
  have "drop (off + length (slice_at off n bs)) bs = drop n (drop off bs)"
    by (cases "n \<le> length bs - off") (simp_all add: add.commute)
  then have "write_at off (slice_at off n bs) bs = take off bs @ take n (drop off bs) @ drop n (drop off bs)"
    by (simp add: write_at_def, simp add: slice_at_def)
  also have "\<dots> = take off bs @ drop off bs"
    by (simp only: append_take_drop_id)
  finally show ?thesis by simp
qed

lemma slice_append_left [simp]: "off + n \<le> length xs \<Longrightarrow> slice_at off n (xs @ ys) = slice_at off n xs"
  by (simp add: slice_at_def)

lemma slice_append_right [simp]:
  "length xs \<le> off \<Longrightarrow> slice_at off n (xs @ ys) = slice_at (off - length xs) n ys"
  by (simp add: slice_at_def)

lemma slice_0 [simp]: "slice_at 0 n xs = take n xs"
  by (simp add: slice_at_def)

lemma slice_take: "off + n \<le> m \<Longrightarrow> slice_at off n (take m bs) = slice_at off n bs"
  by (simp add: slice_at_def drop_take min_def)

lemma slice_slice: "b + n \<le> m \<Longrightarrow> slice_at b n (slice_at a m bs) = slice_at (a + b) n bs"
  by (simp add: slice_at_def drop_take min_def add.commute)

lemma write_append_right:
  "length xs \<le> off \<Longrightarrow> write_at off ds (xs @ ys) = xs @ write_at (off - length xs) ds ys"
  by (simp add: write_at_def)

lemma write_append_left:
  "off + length ds \<le> length xs \<Longrightarrow> write_at off ds (xs @ ys) = write_at off ds xs @ ys"
  by (simp add: write_at_def)

lemma take_write_before: "n \<le> off \<Longrightarrow> off \<le> length bs \<Longrightarrow> take n (write_at off ds bs) = take n bs"
  by (simp add: write_at_def min_def)

lemma nth_slice: "off + n \<le> length bs \<Longrightarrow> i < n \<Longrightarrow> slice_at off n bs ! i = bs ! (off + i)"
  by (simp add: slice_at_def)

lemma nth_write:
  "off + length ds \<le> length bs \<Longrightarrow> i < length bs \<Longrightarrow> write_at off ds bs ! i =
     (if off \<le> i \<and> i < off + length ds then ds ! (i - off) else bs ! i)"
  by (auto simp: write_at_def nth_append)

section \<open>Fixed-width codecs\<close>

text \<open>
  \<open>put\<close> lays a value out in \<open>width\<close> cells and \<open>get\<close> reads it back; \<open>valid\<close> singles out
  the values that have an image of the right width.
\<close>

locale fixed_codec =
  fixes put :: "'a \<Rightarrow> 'b list"
    and get :: "'b list \<Rightarrow> 'a"
    and width :: nat
    and valid :: "'a \<Rightarrow> bool"
  assumes length_put: "valid x \<Longrightarrow> length (put x) = width"
    and get_put: "valid x \<Longrightarrow> get (put x) = x"
begin

lemma put_inj: "valid x \<Longrightarrow> valid y \<Longrightarrow> put x = put y \<longleftrightarrow> x = y"
  using get_put by metis

lemma get_prefix: "valid x \<Longrightarrow> get (take width (put x @ rest)) = x"
  by (simp add: length_put get_put)

end

text \<open>A codec whose images are all the lists of the right width: the memory view of a type.\<close>

locale memory_codec = fixed_codec +
  assumes put_get: "length bs = width \<Longrightarrow> put (get bs) = bs"
    and valid_get: "length bs = width \<Longrightarrow> valid (get bs)"
begin

lemma get_inj: "length bs = width \<Longrightarrow> length cs = width \<Longrightarrow> get bs = get cs \<longleftrightarrow> bs = cs"
  using put_get by metis

text \<open>Storing into the image of a valid value gives a valid value again.\<close>

definition store :: "nat \<Rightarrow> 'b list \<Rightarrow> 'a \<Rightarrow> 'a" where
  "store off ds x = get (write_at off ds (put x))"

lemma valid_store:
  "valid x \<Longrightarrow> off + length ds \<le> width \<Longrightarrow> valid (store off ds x)"
  by (simp add: store_def valid_get length_put)

lemma put_store:
  "valid x \<Longrightarrow> off + length ds \<le> width \<Longrightarrow> put (store off ds x) = write_at off ds (put x)"
  by (simp add: store_def put_get length_put)

lemma store_slice: "valid x \<Longrightarrow> store off (slice_at off n (put x)) x = x"
  by (simp add: store_def get_put)

end

subsection \<open>Little-endian integers\<close>

definition le16 :: "u16 \<Rightarrow> byte list" where
  "le16 w = [ucast w, ucast (drop_bit 8 w)]"

definition get_le16 :: "byte list \<Rightarrow> u16" where
  "get_le16 bs = ucast (bs ! 0) OR push_bit 8 (ucast (bs ! 1))"

definition le32 :: "u32 \<Rightarrow> byte list" where
  "le32 w = [ucast w, ucast (drop_bit 8 w), ucast (drop_bit 16 w), ucast (drop_bit 24 w)]"

definition get_le32 :: "byte list \<Rightarrow> u32" where
  "get_le32 bs = ucast (bs ! 0) OR push_bit 8 (ucast (bs ! 1)) OR
     push_bit 16 (ucast (bs ! 2)) OR push_bit 24 (ucast (bs ! 3))"

lemma length_le [simp, slice_simps]: "length (le16 w) = 2" "length (le32 v) = 4"
  by (simp_all add: le16_def le32_def)

lemma get_le16_le16 [simp]: "get_le16 (le16 w) = w"
  unfolding get_le16_def le16_def by (rule bit_word_eqI) (auto simp: bit_simps)

lemma get_le32_le32 [simp]: "get_le32 (le32 w) = w"
  unfolding get_le32_def le32_def
  apply (rule bit_word_eqI)
  subgoal for n
    by (cases "n < 8"; cases "n < 16"; cases "n < 24") (auto simp: bit_simps)
  done

lemma byte_bit_high [simp]: "8 \<le> n \<Longrightarrow> \<not> bit (b :: byte) n"
  using bit_imp_le_length [of b n] by auto

lemma length_2_cases: "length bs = 2 \<Longrightarrow> \<exists>a b. bs = [a, b]"
  by (auto simp: length_Suc_conv numeral_eq_Suc)

lemma length_4_cases: "length bs = 4 \<Longrightarrow> \<exists>a b c d. bs = [a, b, c, d]"
  by (auto simp: length_Suc_conv numeral_eq_Suc)

lemma le16_get_le16 [simp]: "length bs = 2 \<Longrightarrow> le16 (get_le16 bs) = bs"
  by (drule length_2_cases) (auto simp: le16_def get_le16_def bit_simps intro!: bit_word_eqI)

lemma le32_get_le32 [simp]: "length bs = 4 \<Longrightarrow> le32 (get_le32 bs) = bs"
  by (drule length_4_cases) (auto simp: le32_def get_le32_def bit_simps intro!: bit_word_eqI)

interpretation le16: memory_codec le16 get_le16 2 "\<lambda>_. True"
  by unfold_locales simp_all

interpretation le32: memory_codec le32 get_le32 4 "\<lambda>_. True"
  by unfold_locales simp_all

end
