(* ===== verification/Cstring.thy ===== *)
theory Cstring
  imports Prelude
begin

text \<open>
  Character buffers and the C library functions on them that the program uses: the string
  in a buffer, \<^verbatim>\<open>isspace\<close>, \<^verbatim>\<open>strchr\<close>, \<^verbatim>\<open>atoi\<close>, \<^verbatim>\<open>fgets\<close> and the number formats
  of \<^verbatim>\<open>sprintf\<close>. A buffer is a list of exactly as many characters as the array has.
\<close>

definition NUL :: char where "NUL = CHR 0x00"

definition cstr :: "char list \<Rightarrow> string" where
  "cstr buf = takeWhile (\<lambda>c. c \<noteq> NUL) buf"

text \<open>The buffer holds a terminated string.\<close>

definition terminated :: "nat \<Rightarrow> char list \<Rightarrow> bool" where
  "terminated n buf \<longleftrightarrow> length buf = n \<and> NUL \<in> set buf"

lemma NUL_notin_cstr [simp]: "NUL \<notin> set (cstr buf)"
  by (auto simp: cstr_def dest: set_takeWhileD)

lemma cstr_idem [simp]: "NUL \<notin> set s \<Longrightarrow> cstr s = s"
  by (induction s) (auto simp: cstr_def)

lemma cstr_append_NUL [simp]: "NUL \<notin> set s \<Longrightarrow> cstr (s @ NUL # t) = s"
  by (induction s) (auto simp: cstr_def)

lemma length_cstr_le: "length (cstr buf) \<le> length buf"
  by (simp add: cstr_def length_takeWhile_le)

lemma length_cstr_less: "NUL \<in> set buf \<Longrightarrow> length (cstr buf) < length buf"
  by (induction buf) (auto simp: cstr_def)

lemma length_cstr: "terminated n buf \<Longrightarrow> length (cstr buf) < n"
  using length_cstr_less by (auto simp: terminated_def)

lemma cstr_eq_Nil_iff: "terminated n buf \<Longrightarrow> cstr buf = [] \<longleftrightarrow> buf ! 0 = NUL"
  by (cases buf) (auto simp: terminated_def cstr_def)

section \<open>Numbers in text\<close>

definition digit :: "nat \<Rightarrow> char" where
  "digit n = ''0123456789abcdef'' ! n"

definition digit_value :: "char \<Rightarrow> nat" where
  "digit_value c = (let k = of_char c :: nat in if k < 58 then k - 48 else k - 87)"

definition is_digit :: "char \<Rightarrow> bool" where
  "is_digit c \<longleftrightarrow> 48 \<le> (of_char c :: nat) \<and> (of_char c :: nat) < 58"

text \<open>A statement about the hexadecimal digits is checked digit by digit.\<close>

lemma below_16: "(\<And>k. k \<in> set [0..<16] \<Longrightarrow> P k) \<Longrightarrow> n < 16 \<Longrightarrow> P n"
  by simp

lemma digit_facts:
  assumes "n < 16"
  shows "digit_value (digit n) = n \<and> digit n \<noteq> NUL \<and> (n < 10 \<longrightarrow> is_digit (digit n))"
  using assms
  by (rule below_16 [rotated])
    (auto simp: upt_rec digit_def digit_value_def is_digit_def NUL_def)

text \<open>\<^verbatim>\<open>%u\<close>, \<^verbatim>\<open>%d\<close> for a non-negative number, and \<^verbatim>\<open>%0<n>llx\<close>.\<close>

fun dec :: "nat \<Rightarrow> string" where
  "dec k = (if k < 10 then [digit k] else dec (k div 10) @ [digit (k mod 10)])"

declare dec.simps [simp del]

fun hex :: "nat \<Rightarrow> nat \<Rightarrow> string" where
  "hex 0 k = []"
| "hex (Suc n) k = hex n (k div 16) @ [digit (k mod 16)]"

text \<open>\<^verbatim>\<open>%d\<close> for any \<^verbatim>\<open>int\<close>.\<close>

definition show_int :: "int \<Rightarrow> string" where
  "show_int i = (if i < 0 then ''-'' @ dec (nat (- i)) else dec (nat i))"

definition from_digits :: "nat \<Rightarrow> string \<Rightarrow> nat" where
  "from_digits b s = foldl (\<lambda>a c. a * b + digit_value c) 0 s"

lemma from_digits_append: "from_digits b (s @ [c]) = from_digits b s * b + digit_value c"
  by (simp add: from_digits_def)

lemma length_hex [simp]: "length (hex n k) = n"
  by (induction n arbitrary: k) simp_all

lemma from_hex: "from_digits 16 (hex n k) = k mod 16 ^ n"
proof (induction n arbitrary: k)
  case 0
  then show ?case by (simp add: from_digits_def)
next
  case (Suc n)
  have "digit_value (digit (k mod 16)) = k mod 16"
    by (simp add: digit_facts)
  then show ?case
    by (simp add: from_digits_append Suc mod_mult2_eq)
qed

lemma from_dec: "from_digits 10 (dec k) = k"
proof (induction k rule: dec.induct)
  case (1 k)
  have "digit_value (digit (k mod 10)) = k mod 10"
    by (simp add: digit_facts)
  with 1 show ?case
    by (cases "k < 10") (simp_all add: dec.simps [of k] from_digits_append digit_facts,
        simp add: from_digits_def digit_facts)
qed

lemma dec_digits: "c \<in> set (dec k) \<Longrightarrow> is_digit c"
proof (induction k rule: dec.induct)
  case (1 k)
  have "is_digit (digit (k mod 10))"
    by (simp add: digit_facts)
  with 1 show ?case
    by (cases "k < 10") (auto simp: dec.simps [of k] digit_facts)
qed

lemma dec_nonempty: "dec k \<noteq> []"
  by (simp add: dec.simps [of k])

lemma length_dec: "k < 10 ^ n \<Longrightarrow> 0 < n \<Longrightarrow> length (dec k) \<le> n"
proof (induction n arbitrary: k)
  case 0
  then show ?case by simp
next
  case (Suc n)
  show ?case
  proof (cases "k < 10")
    case True
    then show ?thesis by (simp add: dec.simps [of k])
  next
    case False
    with Suc.prems have "k div 10 < 10 ^ n" "0 < n"
      by (cases n; simp add: less_mult_imp_div_less mult.commute)+
    with Suc.IH have "length (dec (k div 10)) \<le> n" by simp
    with False show ?thesis by (simp add: dec.simps [of k])
  qed
qed

lemma length_show_int: "\<bar>i\<bar> \<le> 2 ^ 31 \<Longrightarrow> length (show_int i) \<le> 11"
proof -
  assume "\<bar>i\<bar> \<le> 2 ^ 31"
  then have "length (dec (nat \<bar>i\<bar>)) \<le> 10"
    by (intro length_dec) (simp_all add: nat_less_iff)
  then show ?thesis
    by (cases "i < 0") (simp_all add: show_int_def)
qed

section \<open>Character classes, searching and reading numbers\<close>

text \<open>\<^verbatim>\<open>isspace\<close> in the C locale.\<close>

definition isspace :: "char \<Rightarrow> bool" where
  "isspace c \<longleftrightarrow> c \<in> set [CHR 0x20, CHR 0x09, CHR 0x0A, CHR 0x0B, CHR 0x0C, CHR 0x0D]"

text \<open>\<^verbatim>\<open>strchr\<close> as a split: the text before and after the first \<open>c\<close>.\<close>

fun split_at :: "char \<Rightarrow> string \<Rightarrow> (string \<times> string) option" where
  "split_at c [] = None"
| "split_at c (x # xs) =
     (if x = c then Some ([], xs)
      else map_option (\<lambda>(l, r). (x # l, r)) (split_at c xs))"

lemma split_at_append [simp]: "c \<notin> set l \<Longrightarrow> split_at c (l @ c # r) = Some (l, r)"
  by (induction l) auto

lemma split_at_None [simp]: "split_at c s = None \<longleftrightarrow> c \<notin> set s"
  by (induction s) auto

lemma split_at_Some: "split_at c s = Some (l, r) \<Longrightarrow> s = l @ c # r \<and> c \<notin> set l"
  by (induction s arbitrary: l r) (auto split: if_splits)

text \<open>
  \<^verbatim>\<open>atoi\<close> as the C library computes it: \<^verbatim>\<open>strtol\<close> (white space, a sign, digits, clamped to a
  64-bit \<^verbatim>\<open>long\<close>) converted to a 32-bit \<^verbatim>\<open>int\<close>.
\<close>

definition strtol :: "string \<Rightarrow> int" where
  "strtol s =
     (let s1 = dropWhile isspace s;
          neg = (s1 \<noteq> [] \<and> hd s1 = CHR ''-'');
          s2 = (if s1 \<noteq> [] \<and> (hd s1 = CHR ''-'' \<or> hd s1 = CHR ''+'') then tl s1 else s1);
          v = int (from_digits 10 (takeWhile is_digit s2))
      in max (- (2 ^ 63)) (min (2 ^ 63 - 1) (if neg then - v else v)))"

definition atoi :: "string \<Rightarrow> int" where
  "atoi s = signed_take_bit 31 (strtol s)"

lemma digit_not_special:
  "is_digit c \<Longrightarrow> \<not> isspace c \<and> c \<noteq> CHR ''-'' \<and> c \<noteq> CHR ''+'' \<and> c \<noteq> CHR ''='' \<and> c \<noteq> CHR ''#'' \<and> c \<noteq> NUL"
  by (auto simp: is_digit_def isspace_def NUL_def)

lemma dec_special:
  "CHR ''-'' \<notin> set (dec k)" "CHR ''='' \<notin> set (dec k)" "NUL \<notin> set (dec k)"
  "c \<in> set (dec k) \<Longrightarrow> \<not> isspace c"
  using dec_digits digit_not_special by blast+

lemma dropWhile_none: "(\<And>c. c \<in> set s \<Longrightarrow> \<not> P c) \<Longrightarrow> dropWhile P s = s"
  by (cases s) auto

lemma strtol_dec:
  assumes "int k < 2 ^ 63" and "rest = [] \<or> \<not> is_digit (hd rest)"
  shows "strtol (dec k @ rest) = int k"
proof -
  obtain c cs where k: "dec k = c # cs"
    using dec_nonempty [of k] by (cases "dec k") auto
  have c: "is_digit c"
    using dec_digits [of c k] k by simp
  have "takeWhile is_digit (dec k @ rest) = dec k"
    using assms(2) dec_digits [of _ k] by (cases rest) (auto simp: takeWhile_append1 takeWhile_append2)
  then show ?thesis
    using assms(1) digit_not_special [OF c] from_dec [of k] by (simp add: strtol_def k Let_def)
qed

lemma atoi_dec: "k < 2 ^ 31 \<Longrightarrow> atoi (dec k) = int k"
  using strtol_dec [of k "[]"] by (simp add: atoi_def signed_take_bit_int_eq_self_iff)

lemma atoi_range: "- (2 ^ 31) \<le> atoi s \<and> atoi s < 2 ^ 31"
  using signed_take_bit_int_greater_eq_minus_exp [of 31 "strtol s"]
    signed_take_bit_int_less_exp [of 31 "strtol s"] by (simp add: atoi_def)

section \<open>Reading lines\<close>

text \<open>\<^verbatim>\<open>fgets\<close> with room for \<open>n\<close> characters: the characters read and the rest of the file.\<close>

fun fgets :: "nat \<Rightarrow> string \<Rightarrow> string \<times> string" where
  "fgets 0 s = ([], s)"
| "fgets (Suc n) [] = ([], [])"
| "fgets (Suc n) (c # cs) =
     (if c = CHR 0x0A then ([c], cs)
      else case fgets n cs of (l, r) \<Rightarrow> (c # l, r))"

lemma fgets_append: "fgets n s = (l, r) \<Longrightarrow> s = l @ r \<and> length l \<le> n"
  by (induction n s arbitrary: l r rule: fgets.induct) (auto split: if_splits prod.splits)

lemma fgets_progress: "0 < n \<Longrightarrow> s \<noteq> [] \<Longrightarrow> fgets n s = (l, r) \<Longrightarrow> length r < length s"
  by (cases n; cases s) (auto split: if_splits prod.splits dest: fgets_append)

lemma fgets_line:
  "length l < n \<Longrightarrow> CHR 0x0A \<notin> set l \<Longrightarrow> fgets n (l @ CHR 0x0A # r) = (l @ [CHR 0x0A], r)"
proof (induction l arbitrary: n)
  case Nil
  then show ?case by (cases n) auto
next
  case (Cons c l)
  then show ?case by (cases n) auto
qed

end
