(* ===== verification/Packet.thy ===== *)
theory Packet
  imports Prelude
begin

text \<open>
  The packet buffer \<^verbatim>\<open>pbuf_t\<close> of src/encapsulate.h: the struct as a record, its object
  representation as 2072 bytes (little-endian host, natural alignment) and accesses to it at
  byte offsets, which is what \<^verbatim>\<open>memcpy\<close>, \<^verbatim>\<open>randombytes_buf\<close>, the stream cipher and the
  socket calls do through casts. An access outside the struct is the fault \<open>OutOfBounds\<close>;
  one that runs past \<^verbatim>\<open>payload\<close> inside the struct hits \<^verbatim>\<open>padding\<close>, as it does in C.
\<close>

section \<open>The struct and its layout\<close>

record pbuf =
  nonce :: "byte list"
  chksum :: u32
  ack :: u32
  flag :: u16
  len :: u16
  payload :: "byte list"
  padding :: u32

definition sizeof_pbuf :: nat where "sizeof_pbuf = 2072"
definition sizeof_payload :: nat where "sizeof_payload = 2048"

definition PAYLOAD_OFFSET :: nat where "PAYLOAD_OFFSET = 20"
definition PAYLOAD_MAX :: nat where "PAYLOAD_MAX = sizeof_pbuf - PAYLOAD_OFFSET"
definition CRYPTO_START :: nat where "CRYPTO_START = 8"
definition CRYPTO_NONCE_LEN :: nat where "CRYPTO_NONCE_LEN = 8"
definition FLAG_COMPRESS :: u16 where "FLAG_COMPRESS = 1"

lemma FLAG_COMPRESS_nonzero [simp]: "FLAG_COMPRESS \<noteq> 0"
  by (simp add: FLAG_COMPRESS_def)

lemmas layout_defs = sizeof_pbuf_def sizeof_payload_def PAYLOAD_OFFSET_def PAYLOAD_MAX_def
  CRYPTO_START_def CRYPTO_NONCE_LEN_def

text \<open>\<^verbatim>\<open>CRYPTO_LEN\<close> is computed as \<^verbatim>\<open>size_t\<close> (the \<^verbatim>\<open>int\<close> padding is sign-extended) and
  assigned to an \<^verbatim>\<open>int\<close>.\<close>

definition CRYPTO_LEN :: "pbuf \<Rightarrow> int" where
  "CRYPTO_LEN p = signed_take_bit 31
     (int (PAYLOAD_OFFSET - CRYPTO_START) + uint (len p) + sint (padding p))"

definition wf_pbuf :: "pbuf \<Rightarrow> bool" where
  "wf_pbuf p \<longleftrightarrow> length (nonce p) = 8 \<and> length (payload p) = 2048"

lemma wf_pbufD: "wf_pbuf p \<Longrightarrow> length (nonce p) = 8" "wf_pbuf p \<Longrightarrow> length (payload p) = 2048"
  by (simp_all add: wf_pbuf_def)

lemma wf_pbuf_update [simp]:
  "wf_pbuf (p\<lparr>chksum := c\<rparr>) = wf_pbuf p"
  "wf_pbuf (p\<lparr>ack := c\<rparr>) = wf_pbuf p"
  "wf_pbuf (p\<lparr>flag := f\<rparr>) = wf_pbuf p"
  "wf_pbuf (p\<lparr>len := l\<rparr>) = wf_pbuf p"
  "wf_pbuf (p\<lparr>padding := d\<rparr>) = wf_pbuf p"
  by (simp_all add: wf_pbuf_def)

section \<open>The object representation\<close>

definition pbuf_bytes :: "pbuf \<Rightarrow> byte list" where
  "pbuf_bytes p = nonce p @ le32 (chksum p) @ le32 (ack p) @ le16 (flag p) @ le16 (len p)
     @ payload p @ le32 (padding p)"

definition pbuf_of :: "byte list \<Rightarrow> pbuf" where
  "pbuf_of bs = \<lparr>nonce = take 8 bs, chksum = get_le32 (slice_at 8 4 bs),
     ack = get_le32 (slice_at 12 4 bs), flag = get_le16 (slice_at 16 2 bs),
     len = get_le16 (slice_at 18 2 bs), payload = slice_at 20 2048 bs,
     padding = get_le32 (slice_at 2068 4 bs)\<rparr>"

lemma length_pbuf_bytes [simp]: "wf_pbuf p \<Longrightarrow> length (pbuf_bytes p) = 2072"
  by (simp add: pbuf_bytes_def wf_pbuf_def)

lemma slice_exact [simp]: "length xs = n \<Longrightarrow> slice_at 0 n (xs @ ys) = xs"
  by simp

lemma pbuf_of_bytes: "wf_pbuf p \<Longrightarrow> pbuf_of (pbuf_bytes p) = p"
  by (simp add: pbuf_of_def pbuf_bytes_def wf_pbuf_def)

lemma drop_step: "n = k + m \<Longrightarrow> drop k bs = slice_at k m bs @ drop n bs"
  by (metis add.commute append_take_drop_id drop_drop slice_at_def)

lemma pbuf_bytes_of:
  assumes "length bs = 2072"
  shows "pbuf_bytes (pbuf_of bs) = bs"
proof -
  have "bs = take 8 bs @ drop 8 bs"
    by simp
  also have "drop 8 bs = slice_at 8 4 bs @ drop 12 bs"
    by (rule drop_step) simp
  also have "drop 12 bs = slice_at 12 4 bs @ drop 16 bs"
    by (rule drop_step) simp
  also have "drop 16 bs = slice_at 16 2 bs @ drop 18 bs"
    by (rule drop_step) simp
  also have "drop 18 bs = slice_at 18 2 bs @ drop 20 bs"
    by (rule drop_step) simp
  also have "drop 20 bs = slice_at 20 2048 bs @ drop 2068 bs"
    by (rule drop_step) simp
  also have "drop 2068 bs = slice_at 2068 4 bs"
    using assms by (simp add: slice_at_def)
  finally have "bs = take 8 bs @ slice_at 8 4 bs @ slice_at 12 4 bs @ slice_at 16 2 bs
      @ slice_at 18 2 bs @ slice_at 20 2048 bs @ slice_at 2068 4 bs" .
  then show ?thesis
    using assms by (simp add: pbuf_bytes_def pbuf_of_def)
qed

lemma wf_pbuf_of: "length bs = 2072 \<Longrightarrow> wf_pbuf (pbuf_of bs)"
  by (simp add: wf_pbuf_def pbuf_of_def)

text \<open>The struct is its bytes: \<open>pb.store\<close> is a store into the object representation.\<close>

interpretation pb: memory_codec pbuf_bytes pbuf_of 2072 wf_pbuf
  by unfold_locales (simp_all add: pbuf_of_bytes pbuf_bytes_of wf_pbuf_of)

section \<open>Access at byte offsets\<close>

definition mem_read :: "nat \<Rightarrow> nat \<Rightarrow> pbuf \<Rightarrow> byte list res" where
  "mem_read off n p =
     (if off + n \<le> sizeof_pbuf then Inr (slice_at off n (pbuf_bytes p)) else Inl OutOfBounds)"

definition mem_write :: "nat \<Rightarrow> byte list \<Rightarrow> pbuf \<Rightarrow> pbuf res" where
  "mem_write off ds p =
     (if off + length ds \<le> sizeof_pbuf then Inr (pbuf_of (write_at off ds (pbuf_bytes p)))
      else Inl OutOfBounds)"

lemma mem_write_store:
  "off + length ds \<le> 2072 \<Longrightarrow> mem_write off ds p = Inr (pb.store off ds p)"
  by (simp add: mem_write_def pb.store_def layout_defs)

lemma mem_write_wf:
  "wf_pbuf p \<Longrightarrow> mem_write off ds p = Inr p' \<Longrightarrow> wf_pbuf p'"
  by (auto simp: mem_write_def layout_defs wf_pbuf_of split: if_splits)

lemma mem_read_payload:
  assumes "wf_pbuf p" and "off + n \<le> 2048"
  shows "mem_read (20 + off) n p = Inr (slice_at off n (payload p))"
  using assms by (simp add: mem_read_def layout_defs pbuf_bytes_def wf_pbuf_def)

lemma mem_write_payload:
  assumes "wf_pbuf p" and "off + length ds \<le> 2048"
  shows "mem_write (20 + off) ds p = Inr (p\<lparr>payload := write_at off ds (payload p)\<rparr>)"
proof -
  let ?p' = "p\<lparr>payload := write_at off ds (payload p)\<rparr>"
  have wf: "wf_pbuf ?p'"
    using assms by (simp add: wf_pbuf_def)
  have "write_at (20 + off) ds (pbuf_bytes p) = pbuf_bytes ?p'"
    using assms by (simp add: pbuf_bytes_def wf_pbuf_def write_append_right write_append_left)
  then have "pbuf_of (write_at (20 + off) ds (pbuf_bytes p)) = ?p'"
    using wf by (simp add: pbuf_of_bytes)
  then show ?thesis
    using assms by (simp add: mem_write_def layout_defs)
qed

section \<open>Receiving into the buffer\<close>

text \<open>A datagram overwrites the front of the buffer; what lay behind it stays.\<close>

definition recv_into :: "byte list \<Rightarrow> pbuf \<Rightarrow> pbuf res" where
  "recv_into w q = mem_write 0 w q"

lemma recv_into_eq:
  "length w \<le> 2072 \<Longrightarrow> recv_into w q = Inr (pbuf_of (w @ drop (length w) (pbuf_bytes q)))"
  by (simp add: recv_into_def mem_write_def layout_defs write_at_def)

text \<open>The header and the first \<open>m - 20\<close> payload bytes of \<open>p\<close>, laid over \<open>q\<close>.\<close>

definition overlay :: "nat \<Rightarrow> pbuf \<Rightarrow> pbuf \<Rightarrow> pbuf" where
  "overlay m p q = p\<lparr>payload := take (m - 20) (payload p) @ drop (m - 20) (payload q),
     padding := padding q\<rparr>"

lemma wf_overlay: "wf_pbuf p \<Longrightarrow> wf_pbuf q \<Longrightarrow> wf_pbuf (overlay m p q)"
  by (simp add: wf_pbuf_def overlay_def)

lemma pbuf_of_overlay:
  assumes p: "wf_pbuf p" and q: "wf_pbuf q" and m: "20 \<le> m" "m \<le> 2068"
  shows "pbuf_of (take m (pbuf_bytes p) @ drop m (pbuf_bytes q)) = overlay m p q"
proof -
  have "take m (pbuf_bytes p) = nonce p @ le32 (chksum p) @ le32 (ack p) @ le16 (flag p)
      @ le16 (len p) @ take (m - 20) (payload p)"
    using p m by (simp add: pbuf_bytes_def wf_pbuf_def)
  moreover have "drop m (pbuf_bytes q) = drop (m - 20) (payload q) @ le32 (padding q)"
    using q m by (simp add: pbuf_bytes_def wf_pbuf_def)
  ultimately have "take m (pbuf_bytes p) @ drop m (pbuf_bytes q) = pbuf_bytes (overlay m p q)"
    by (simp add: overlay_def pbuf_bytes_def)
  then show ?thesis
    using wf_overlay [OF p q] by (simp add: pbuf_of_bytes)
qed

section \<open>Network byte order\<close>

definition htons :: "u16 \<Rightarrow> u16" where
  "htons x = push_bit 8 x OR drop_bit 8 x"

definition ntohs :: "u16 \<Rightarrow> u16" where
  "ntohs x = push_bit 8 x OR drop_bit 8 x"

lemma ntohs_htons [simp]: "ntohs (htons x) = x"
  unfolding htons_def ntohs_def by (rule bit_word_eqI) (auto simp: bit_simps)

lemma le16_htons: "le16 (htons x) = [ucast (drop_bit 8 x), ucast x]"
  unfolding htons_def le16_def by (auto simp: bit_simps intro!: bit_word_eqI)

section \<open>A buffer with given data\<close>

text \<open>What \<^verbatim>\<open>tun_worker\<close> and \<^verbatim>\<open>heartbeat\<close> set up before they send.\<close>

definition packet_of :: "byte list \<Rightarrow> pbuf" where
  "packet_of ds = \<lparr>nonce = replicate 8 0, chksum = 0, ack = 0, flag = 0,
     len = word_of_nat (length ds), payload = ds @ replicate (2048 - length ds) 0, padding = 0\<rparr>"

lemma packet_of_fields:
  "flag (packet_of ds) = 0"
  "length ds \<le> 2048 \<Longrightarrow> wf_pbuf (packet_of ds)"
  "length ds \<le> 2048 \<Longrightarrow> unat (len (packet_of ds)) = length ds"
  by (simp_all add: packet_of_def wf_pbuf_def unat_of_nat)

end
