(* ===== verification/Conf.thy ===== *)
theory Conf
  imports Cstring Packet
begin

text \<open>
  src/conf.c and src/conf.h: the command line, the configuration file and the checks after it.
  Character arrays are lists of exactly their size. The build target is an argument
  (\<open>Darwin\<close> adds the key \<^verbatim>\<open>peer\<close>); a file is its characters. Each message the code prints
  before it gives up is a constructor of \<open>conf_error\<close>, with the line number where it has one.
\<close>

section \<open>The configuration\<close>

datatype target = Linux | Darwin

definition MODE_SERVER :: int where "MODE_SERVER = 1"
definition MODE_CLIENT :: int where "MODE_CLIENT = 2"
definition PATH_MAX_COUNT :: nat where "PATH_MAX_COUNT = 8"
definition LINE_MAX :: nat where "LINE_MAX = 1024"

record path_conf =
  server :: "char list"
  port :: "int \<times> int"

record conf =
  cf_mode :: int
  cf_daemon :: int
  cf_mtu :: int
  cf_route :: int
  cf_nat :: int
  cf_pidfile :: "char list"
  cf_logfile :: "char list"
  cf_user :: "char list"
  cf_paths :: "path_conf list"
  cf_path_count :: int
  cf_key :: "char list"
  cf_klen :: int
  cf_tunif :: "char list"
  cf_address :: "char list"
  cf_address6 :: "char list"
  cf_peer :: "char list"

text \<open>\<^verbatim>\<open>memset(conf, 0, sizeof(conf_t))\<close>\<close>

definition zero_path :: path_conf where
  "zero_path = \<lparr>server = replicate 64 NUL, port = (0, 0)\<rparr>"

definition zero_conf :: conf where
  "zero_conf = \<lparr>cf_mode = 0, cf_daemon = 0, cf_mtu = 0, cf_route = 0, cf_nat = 0,
     cf_pidfile = replicate 64 NUL, cf_logfile = replicate 64 NUL, cf_user = replicate 16 NUL,
     cf_paths = replicate PATH_MAX_COUNT zero_path, cf_path_count = 0,
     cf_key = replicate 128 NUL, cf_klen = 0, cf_tunif = replicate 16 NUL,
     cf_address = replicate 20 NUL, cf_address6 = replicate 64 NUL, cf_peer = replicate 20 NUL\<rparr>"

datatype conf_error =
    Fault fault
  | OpenFailed
  | NoEquals nat
  | SpaceAroundEquals nat
  | BadMode nat
  | TooManyServers nat
  | MissingPort nat
  | BadPortRange nat
  | MtuTooSmall nat
  | MtuTooLarge nat
  | BadRoute nat
  | BadNat nat
  | HelpShown
  | VersionShown
  | MissingFilename string
  | InvalidOption string
  | NoConfigFile
  | NoPidfile
  | NoLogfile
  | NoMode
  | NoServer
  | NoKey
  | NoMtu
  | NoAddress
  | NoPeer

section \<open>Copying strings\<close>

text \<open>The loop of \<^verbatim>\<open>_strncpy\<close> over the rest of the destination and of the source.\<close>

fun strncpy_loop :: "char list \<Rightarrow> string \<Rightarrow> char list" where
  "strncpy_loop [] src = []"
| "strncpy_loop (d # ds) [] = NUL # ds"
| "strncpy_loop (d # ds) (c # cs) =
     (if c = NUL then NUL # ds else c # strncpy_loop ds cs)"

definition my_strncpy :: "char list \<Rightarrow> string \<Rightarrow> char list" where
  "my_strncpy dest src = (strncpy_loop dest src)[length dest - 1 := NUL]"

section \<open>The keys of the file\<close>

definition set_mode :: "nat \<Rightarrow> string \<Rightarrow> conf \<Rightarrow> conf_error + conf" where
  "set_mode ln v c =
     (if v = ''server'' then Inr (c\<lparr>cf_mode := MODE_SERVER\<rparr>)
      else if v = ''client'' then Inr (c\<lparr>cf_mode := MODE_CLIENT\<rparr>)
      else Inl (BadMode ln))"

definition add_server :: "nat \<Rightarrow> string \<Rightarrow> conf \<Rightarrow> conf_error + conf" where
  "add_server ln v c =
     (let count = cf_path_count c in
      if count \<ge> int PATH_MAX_COUNT then Inl (TooManyServers ln)
      else if count \<noteq> 0 \<and> fst (port (cf_paths c ! nat (count - 1))) = 0 then Inl (MissingPort ln)
      else Inr (c\<lparr>cf_paths := (cf_paths c)[nat count := (cf_paths c ! nat count)
                    \<lparr>server := my_strncpy (server (cf_paths c ! nat count)) v\<rparr>],
                  cf_path_count := count + 1\<rparr>))"

definition port_of :: "string \<Rightarrow> int \<times> int" where
  "port_of v = (case split_at (CHR ''-'') v of
     None \<Rightarrow> (atoi v, atoi v)
   | Some (l, r) \<Rightarrow> (atoi l, atoi r))"

text \<open>With no server yet, the write goes to \<^verbatim>\<open>paths[-1]\<close>, outside the array.\<close>

definition set_port :: "nat \<Rightarrow> string \<Rightarrow> conf \<Rightarrow> conf_error + conf" where
  "set_port ln v c =
     (case port_of v of (p0, p1) \<Rightarrow>
        if p0 > p1 then Inl (BadPortRange ln)
        else let i = cf_path_count c - 1 in
          if i < 0 then Inl (Fault OutOfBounds)
          else Inr (c\<lparr>cf_paths := (cf_paths c)[nat i := (cf_paths c ! nat i)\<lparr>port := (p0, p1)\<rparr>]\<rparr>))"

definition set_key :: "string \<Rightarrow> conf \<Rightarrow> conf" where
  "set_key v c =
     (let klen = (if length v > 127 then 127 else length v)
      in c\<lparr>cf_klen := int klen,
           cf_key := write_at klen [NUL] (write_at 0 (take klen v) (cf_key c))\<rparr>)"

definition set_mtu :: "nat \<Rightarrow> string \<Rightarrow> conf \<Rightarrow> conf_error + conf" where
  "set_mtu ln v c =
     (let m = atoi v in
      if m < 1024 then Inl (MtuTooSmall ln)
      else if m > int PAYLOAD_MAX then Inl (MtuTooLarge ln)
      else Inr (c\<lparr>cf_mtu := m\<rparr>))"

definition set_route :: "nat \<Rightarrow> string \<Rightarrow> conf \<Rightarrow> conf_error + conf" where
  "set_route ln v c =
     (if v = ''yes'' then Inr (c\<lparr>cf_route := 1\<rparr>)
      else if v = ''no'' then Inr (c\<lparr>cf_route := 0\<rparr>)
      else Inl (BadRoute ln))"

definition set_nat :: "nat \<Rightarrow> string \<Rightarrow> conf \<Rightarrow> conf_error + conf" where
  "set_nat ln v c =
     (if v = ''yes'' then Inr (c\<lparr>cf_nat := 1\<rparr>)
      else if v = ''no'' then Inr (c\<lparr>cf_nat := 0\<rparr>)
      else Inl (BadNat ln))"

text \<open>The chain of \<^verbatim>\<open>strcmp\<close>s; an unknown key is ignored.\<close>

definition apply_key :: "target \<Rightarrow> nat \<Rightarrow> string \<Rightarrow> string \<Rightarrow> conf \<Rightarrow> conf_error + conf" where
  "apply_key tgt ln k v c =
     (if k = ''user'' then Inr (c\<lparr>cf_user := my_strncpy (cf_user c) v\<rparr>)
      else if k = ''mode'' then set_mode ln v c
      else if k = ''server'' then add_server ln v c
      else if k = ''port'' then set_port ln v c
      else if k = ''key'' then Inr (set_key v c)
      else if k = ''tunif'' then Inr (c\<lparr>cf_tunif := my_strncpy (cf_tunif c) v\<rparr>)
      else if k = ''mtu'' then set_mtu ln v c
      else if k = ''address'' then Inr (c\<lparr>cf_address := my_strncpy (cf_address c) v\<rparr>)
      else if k = ''address6'' then Inr (c\<lparr>cf_address6 := my_strncpy (cf_address6 c) v\<rparr>)
      else if tgt = Darwin \<and> k = ''peer'' then Inr (c\<lparr>cf_peer := my_strncpy (cf_peer c) v\<rparr>)
      else if k = ''route'' then set_route ln v c
      else if k = ''nat'' then set_nat ln v c
      else Inr c)"

section \<open>Lines and the file\<close>

text \<open>
  One line as \<^verbatim>\<open>fgets\<close> delivered it. The test of the character before \<^verbatim>\<open>=\<close> reads \<^verbatim>\<open>p[-1]\<close>:
  where the line starts with \<^verbatim>\<open>=\<close>, that is white space skipped before, or a read in front of
  the buffer.
\<close>

definition parse_line :: "target \<Rightarrow> nat \<Rightarrow> string \<Rightarrow> conf \<Rightarrow> conf_error + conf" where
  "parse_line tgt ln buf c =
     (let s0 = cstr buf;
          s1 = dropWhile isspace s0;
          s2 = rev (dropWhile isspace (rev s1))
      in if s2 = [] \<or> hd s2 = CHR ''#'' then Inr c
         else case split_at (CHR ''='') s2 of
           None \<Rightarrow> Inl (NoEquals ln)
         | Some (k, v) \<Rightarrow>
             if k = [] \<and> s1 = s0 then Inl (Fault OutOfBounds)
             else if (k = [] \<or> isspace (last k)) \<or> (v \<noteq> [] \<and> isspace (hd v))
             then Inl (SpaceAroundEquals ln)
             else apply_key tgt ln k v c)"

function read_lines :: "target \<Rightarrow> nat \<Rightarrow> string \<Rightarrow> conf \<Rightarrow> conf_error + conf" where
  "read_lines tgt ln s c =
     (if s = [] then Inr c
      else case parse_line tgt (ln + 1) (fst (fgets (LINE_MAX - 1) s)) c of
        Inl e \<Rightarrow> Inl e
      | Inr c' \<Rightarrow> read_lines tgt (ln + 1) (snd (fgets (LINE_MAX - 1) s)) c')"
  by pat_completeness auto
termination
  by (relation "measure (\<lambda>(tgt, ln, s, c). length s)")
    (auto simp: LINE_MAX_def intro: fgets_progress [of 1023, OF _ _ prod.collapse [symmetric]])

declare read_lines.simps [simp del]

definition read_conf :: "target \<Rightarrow> string option \<Rightarrow> conf \<Rightarrow> conf_error + conf" where
  "read_conf tgt file c =
     (case file of None \<Rightarrow> Inl OpenFailed | Some s \<Rightarrow> read_lines tgt 0 s c)"

section \<open>The command line\<close>

datatype opt = OptHelp | OptConfig | OptDaemon | OptPidfile | OptLogfile | OptVersion | OptInvalid

definition opt_of :: "string \<Rightarrow> opt" where
  "opt_of a =
     (if a = ''-h'' \<or> a = ''--help'' then OptHelp
      else if a = ''-c'' \<or> a = ''--config'' then OptConfig
      else if a = ''-d'' \<or> a = ''--daemon'' then OptDaemon
      else if a = ''--pidfile'' then OptPidfile
      else if a = ''--logfile'' then OptLogfile
      else if a = ''-V'' \<or> a = ''--version'' then OptVersion
      else OptInvalid)"

text \<open>The loop over \<^verbatim>\<open>argv\<close>; the second equation is an option with nothing after it.\<close>

fun parse_opts :: "string list \<Rightarrow> conf \<Rightarrow> string option \<Rightarrow> conf_error + conf \<times> string option" where
  "parse_opts [] c f = Inr (c, f)"
| "parse_opts [a] c f =
     (case opt_of a of
        OptHelp \<Rightarrow> Inl HelpShown
      | OptDaemon \<Rightarrow> Inr (c\<lparr>cf_daemon := 1\<rparr>, f)
      | OptVersion \<Rightarrow> Inl VersionShown
      | OptInvalid \<Rightarrow> Inl (InvalidOption a)
      | _ \<Rightarrow> Inl (MissingFilename a))"
| "parse_opts (a # x # rest) c f =
     (case opt_of a of
        OptHelp \<Rightarrow> Inl HelpShown
      | OptConfig \<Rightarrow> parse_opts rest c (Some x)
      | OptDaemon \<Rightarrow> parse_opts (x # rest) (c\<lparr>cf_daemon := 1\<rparr>) f
      | OptPidfile \<Rightarrow> parse_opts rest (c\<lparr>cf_pidfile := my_strncpy (cf_pidfile c) x\<rparr>) f
      | OptLogfile \<Rightarrow> parse_opts rest (c\<lparr>cf_logfile := my_strncpy (cf_logfile c) x\<rparr>) f
      | OptVersion \<Rightarrow> Inl VersionShown
      | OptInvalid \<Rightarrow> Inl (InvalidOption a))"

section \<open>Checks and defaults\<close>

definition default_port :: "path_conf \<Rightarrow> path_conf" where
  "default_port p = (if fst (port p) = 0 then p\<lparr>port := (1205, 1205)\<rparr> else p)"

definition default_ports :: "conf \<Rightarrow> conf" where
  "default_ports c = c\<lparr>cf_paths :=
     map default_port (take (nat (cf_path_count c)) (cf_paths c))
       @ drop (nat (cf_path_count c)) (cf_paths c)\<rparr>"

definition default_tunif :: "target \<Rightarrow> conf \<Rightarrow> conf" where
  "default_tunif tgt c =
     (if cf_tunif c ! 0 = NUL
      then c\<lparr>cf_tunif := write_at 0 ((case tgt of Linux \<Rightarrow> ''vpn0'' | Darwin \<Rightarrow> ''utun0'') @ [NUL])
             (cf_tunif c)\<rparr>
      else c)"

definition check_conf :: "target \<Rightarrow> conf \<Rightarrow> conf_error + conf" where
  "check_conf tgt c =
     (if cf_daemon c \<noteq> 0 \<and> cf_pidfile c ! 0 = NUL then Inl NoPidfile
      else if cf_daemon c \<noteq> 0 \<and> cf_logfile c ! 0 = NUL then Inl NoLogfile
      else if cf_mode c = 0 then Inl NoMode
      else if cf_path_count c = 0 then Inl NoServer
      else let c1 = default_ports c in
        if cf_key c1 ! 0 = NUL then Inl NoKey
        else let c2 = default_tunif tgt c1 in
          if cf_mtu c2 = 0 then Inl NoMtu
          else if cf_address c2 ! 0 = NUL \<and> cf_address6 c2 ! 0 = NUL then Inl NoAddress
          else if tgt = Darwin \<and> cf_address c2 ! 0 \<noteq> NUL \<and> cf_peer c2 ! 0 = NUL then Inl NoPeer
          else Inr c2)"

text \<open>\<open>fs\<close> opens a file; \<open>args\<close> is \<^verbatim>\<open>argv\<close> without the program name.\<close>

definition parse_args :: "target \<Rightarrow> (string \<Rightarrow> string option) \<Rightarrow> string list \<Rightarrow> conf_error + conf" where
  "parse_args tgt fs args =
     (case parse_opts args zero_conf None of
        Inl e \<Rightarrow> Inl e
      | Inr (c, None) \<Rightarrow> Inl NoConfigFile
      | Inr (c, Some f) \<Rightarrow>
          (case read_conf tgt (fs f) c of Inl e \<Rightarrow> Inl e | Inr c' \<Rightarrow> check_conf tgt c'))"

text \<open>The value \<^verbatim>\<open>parse_args\<close> returns (0 is success); a fault returns nothing.\<close>

definition parse_status :: "conf_error + conf \<Rightarrow> int option" where
  "parse_status r = (case r of
     Inr _ \<Rightarrow> Some 0
   | Inl (Fault _) \<Rightarrow> None
   | Inl (MissingFilename _) \<Rightarrow> Some 1
   | Inl _ \<Rightarrow> Some (-1))"

section \<open>Copying keeps arrays terminated\<close>

lemma length_strncpy_loop [simp]: "length (strncpy_loop dest src) = length dest"
  by (induction dest src rule: strncpy_loop.induct) auto

lemma strncpy_loop_eq:
  "NUL \<notin> set src \<Longrightarrow> strncpy_loop dest src =
     (if length src < length dest then src @ NUL # drop (length src + 1) dest
      else take (length dest) src)"
  by (induction dest src rule: strncpy_loop.induct) auto

lemma my_strncpy_terminated: "length dest = n \<Longrightarrow> 0 < n \<Longrightarrow> terminated n (my_strncpy dest src)"
  by (auto simp: terminated_def my_strncpy_def set_update_memI)

lemma cstr_my_strncpy:
  assumes "NUL \<notin> set src" and "0 < length dest"
  shows "cstr (my_strncpy dest src) = take (length dest - 1) src"
proof (cases "length src < length dest")
  case True
  have "my_strncpy dest src = src @ (NUL # drop (length src + 1) dest)[length dest - 1 - length src := NUL]"
  proof -
    have "\<not> length dest - 1 < length src"
      using True by linarith
    then show ?thesis
      using True assms by (simp add: my_strncpy_def strncpy_loop_eq list_update_append)
  qed
  moreover have "\<exists>t. (NUL # xs)[j := NUL] = NUL # t" for xs j
    by (cases j) simp_all
  ultimately obtain t where "my_strncpy dest src = src @ NUL # t"
    by metis
  moreover have "take (length dest - 1) src = src"
    using True by simp
  ultimately show ?thesis
    using assms by simp
next
  case False
  have "my_strncpy dest src = take (length dest - 1) src @ [NUL]"
  proof (cases "length dest")
    case 0
    then show ?thesis using assms by simp
  next
    case (Suc m)
    then show ?thesis
      using False assms
      by (simp add: my_strncpy_def strncpy_loop_eq take_Suc_conv_app_nth list_update_append)
  qed
  moreover have "NUL \<notin> set (take (length dest - 1) src)"
    using assms(1) by (auto dest: in_set_takeD)
  ultimately show ?thesis
    by simp
qed

section \<open>The invariant of a configuration\<close>

definition path_wf :: "path_conf \<Rightarrow> bool" where
  "path_wf p \<longleftrightarrow> terminated 64 (server p) \<and> fst (port p) \<le> snd (port p)
     \<and> is_int32 (fst (port p)) \<and> is_int32 (snd (port p))"

text \<open>Every array has its size and a terminator, every port range is ordered, counts are in range.\<close>

definition conf_wf :: "conf \<Rightarrow> bool" where
  "conf_wf c \<longleftrightarrow>
     terminated 64 (cf_pidfile c) \<and> terminated 64 (cf_logfile c) \<and> terminated 16 (cf_user c)
     \<and> terminated 128 (cf_key c) \<and> terminated 16 (cf_tunif c) \<and> terminated 20 (cf_address c)
     \<and> terminated 64 (cf_address6 c) \<and> terminated 20 (cf_peer c)
     \<and> length (cf_paths c) = 8 \<and> (\<forall>p \<in> set (cf_paths c). path_wf p)
     \<and> 0 \<le> cf_path_count c \<and> cf_path_count c \<le> 8
     \<and> (cf_mtu c = 0 \<or> 1024 \<le> cf_mtu c \<and> cf_mtu c \<le> 2052)
     \<and> cf_mode c \<in> {0, MODE_SERVER, MODE_CLIENT}
     \<and> cf_route c \<in> {0, 1} \<and> cf_nat c \<in> {0, 1}"

lemma terminated_replicate: "0 < n \<Longrightarrow> terminated n (replicate n NUL)"
  by (simp add: terminated_def)

lemma conf_wf_zero: "conf_wf zero_conf"
  by (simp add: conf_wf_def zero_conf_def zero_path_def path_wf_def terminated_replicate
      PATH_MAX_COUNT_def is_int32_def)

lemma terminated_strncpy:
  "terminated n dest \<Longrightarrow> 0 < n \<Longrightarrow> terminated n (my_strncpy dest src)"
  by (rule my_strncpy_terminated) (simp_all add: terminated_def)

lemma path_wf_nth: "conf_wf c \<Longrightarrow> i < 8 \<Longrightarrow> path_wf (cf_paths c ! i)"
  by (simp add: conf_wf_def)

lemma path_wf_update:
  assumes "conf_wf c" and "path_wf q" and "0 \<le> n" and "n \<le> 8"
  shows "conf_wf (c\<lparr>cf_paths := (cf_paths c)[i := q], cf_path_count := n\<rparr>)"
proof -
  have "\<forall>p \<in> set ((cf_paths c)[i := q]). path_wf p"
    using assms(1,2) set_update_subset_insert [of "cf_paths c" i q] by (auto simp: conf_wf_def)
  then show ?thesis
    using assms by (simp add: conf_wf_def)
qed

lemma port_of_int32: "port_of v = (a, b) \<Longrightarrow> is_int32 a \<and> is_int32 b"
  using atoi_range by (auto simp: port_of_def is_int32_def split: option.splits)

lemma conf_wf_add_server:
  assumes "conf_wf c" and "add_server ln v c = Inr c'"
  shows "conf_wf c'"
proof -
  have i: "nat (cf_path_count c) < 8" and c': "c' = c\<lparr>cf_paths := (cf_paths c)[nat (cf_path_count c) :=
      (cf_paths c ! nat (cf_path_count c))\<lparr>server := my_strncpy (server (cf_paths c ! nat (cf_path_count c))) v\<rparr>],
      cf_path_count := cf_path_count c + 1\<rparr>" and le: "cf_path_count c + 1 \<le> 8"
    using assms by (auto simp: add_server_def Let_def PATH_MAX_COUNT_def conf_wf_def split: if_splits)
  have "path_wf ((cf_paths c ! nat (cf_path_count c))\<lparr>server := my_strncpy (server (cf_paths c ! nat (cf_path_count c))) v\<rparr>)"
    using path_wf_nth [OF assms(1) i] by (auto simp: path_wf_def terminated_strncpy)
  then show ?thesis
    unfolding c' using assms(1) le by (intro path_wf_update) (simp_all add: conf_wf_def)
qed

lemma conf_wf_set_port:
  assumes "conf_wf c" and "set_port ln v c = Inr c'"
  shows "conf_wf c'"
proof -
  obtain p0 p1 where pv: "port_of v = (p0, p1)"
    by fastforce
  let ?i = "nat (cf_path_count c - 1)"
  have le: "p0 \<le> p1" "0 \<le> cf_path_count c - 1"
    and c': "c' = c\<lparr>cf_paths := (cf_paths c)[?i := (cf_paths c ! ?i)\<lparr>port := (p0, p1)\<rparr>]\<rparr>"
    using assms(2) by (auto simp: set_port_def pv Let_def split: if_splits)
  have "?i < 8"
    using assms(1) le(2) by (auto simp: conf_wf_def)
  then have "path_wf ((cf_paths c ! ?i)\<lparr>port := (p0, p1)\<rparr>)"
    using path_wf_nth [OF assms(1)] le(1) port_of_int32 [OF pv] by (auto simp: path_wf_def)
  then show ?thesis
    using path_wf_update [OF assms(1), of _ "cf_path_count c"] assms(1) unfolding c' by (simp add: conf_wf_def)
qed

lemma conf_wf_set_key: "conf_wf c \<Longrightarrow> conf_wf (set_key v c)"
proof -
  assume "conf_wf c"
  then have "length (cf_key c) = 128"
    by (simp add: conf_wf_def terminated_def)
  then have "terminated 128 (cf_key (set_key v c))"
    by (auto simp: set_key_def Let_def terminated_def write_at_def)
  then show ?thesis
    using \<open>conf_wf c\<close> by (simp add: conf_wf_def) (simp add: set_key_def Let_def)
qed

lemma conf_wf_fields:
  assumes "conf_wf c"
  shows "m \<in> {MODE_SERVER, MODE_CLIENT} \<Longrightarrow> conf_wf (c\<lparr>cf_mode := m\<rparr>)"
    and "1024 \<le> n \<Longrightarrow> n \<le> 2052 \<Longrightarrow> conf_wf (c\<lparr>cf_mtu := n\<rparr>)"
    and "y \<in> {0, 1} \<Longrightarrow> conf_wf (c\<lparr>cf_route := y\<rparr>)"
    and "y \<in> {0, 1} \<Longrightarrow> conf_wf (c\<lparr>cf_nat := y\<rparr>)"
    and "conf_wf (c\<lparr>cf_daemon := d\<rparr>)"
  using assms by (simp_all add: conf_wf_def)

lemma conf_wf_strings:
  assumes "conf_wf c"
  shows "conf_wf (c\<lparr>cf_user := my_strncpy (cf_user c) v\<rparr>)"
    and "conf_wf (c\<lparr>cf_tunif := my_strncpy (cf_tunif c) v\<rparr>)"
    and "conf_wf (c\<lparr>cf_address := my_strncpy (cf_address c) v\<rparr>)"
    and "conf_wf (c\<lparr>cf_address6 := my_strncpy (cf_address6 c) v\<rparr>)"
    and "conf_wf (c\<lparr>cf_peer := my_strncpy (cf_peer c) v\<rparr>)"
    and "conf_wf (c\<lparr>cf_pidfile := my_strncpy (cf_pidfile c) v\<rparr>)"
    and "conf_wf (c\<lparr>cf_logfile := my_strncpy (cf_logfile c) v\<rparr>)"
  using assms by (simp_all add: conf_wf_def terminated_strncpy)

lemma conf_wf_small:
  assumes "conf_wf c"
  shows "set_mode ln v c = Inr c' \<Longrightarrow> conf_wf c'"
    and "set_mtu ln v c = Inr c' \<Longrightarrow> conf_wf c'"
    and "set_route ln v c = Inr c' \<Longrightarrow> conf_wf c'"
    and "set_nat ln v c = Inr c' \<Longrightarrow> conf_wf c'"
  using conf_wf_fields [OF assms]
  by (auto simp: set_mode_def set_mtu_def set_route_def set_nat_def Let_def layout_defs
      split: if_splits)

text \<open>The outcomes of the chain of keys, without the keys.\<close>

lemma apply_key_cases:
  assumes "apply_key tgt ln k v c = r"
  obtains "r = set_mode ln v c" | "r = add_server ln v c" | "k = ''port''" "r = set_port ln v c"
    | "r = Inr (set_key v c)" | "r = set_mtu ln v c" | "r = set_route ln v c" | "r = set_nat ln v c"
    | "r = Inr (c\<lparr>cf_user := my_strncpy (cf_user c) v\<rparr>)"
    | "r = Inr (c\<lparr>cf_tunif := my_strncpy (cf_tunif c) v\<rparr>)"
    | "r = Inr (c\<lparr>cf_address := my_strncpy (cf_address c) v\<rparr>)"
    | "r = Inr (c\<lparr>cf_address6 := my_strncpy (cf_address6 c) v\<rparr>)"
    | "r = Inr (c\<lparr>cf_peer := my_strncpy (cf_peer c) v\<rparr>)" | "r = Inr c"
  using assms unfolding apply_key_def by presburger

lemma conf_wf_apply_key:
  assumes "conf_wf c" and "apply_key tgt ln k v c = Inr c'"
  shows "conf_wf c'"
proof -
  show ?thesis
    by (rule apply_key_cases [OF assms(2)])
      (use assms(1) conf_wf_strings [OF assms(1)] conf_wf_small [OF assms(1)]
        conf_wf_add_server [OF assms(1)] conf_wf_set_port [OF assms(1)]
        conf_wf_set_key [OF assms(1)] in \<open>metis sum.inject(2)\<close>)+
qed

lemma conf_wf_parse_line:
  "conf_wf c \<Longrightarrow> parse_line tgt ln buf c = Inr c' \<Longrightarrow> conf_wf c'"
  by (auto simp: parse_line_def Let_def split: if_splits option.splits intro: conf_wf_apply_key)

lemma conf_wf_read_lines:
  "conf_wf c \<Longrightarrow> read_lines tgt ln s c = Inr c' \<Longrightarrow> conf_wf c'"
proof (induction tgt ln s c rule: read_lines.induct)
  case (1 tgt ln s c)
  show ?case
  proof (cases "s = []")
    case True
    with "1.prems" show ?thesis by (simp add: read_lines.simps)
  next
    case False
    with "1.prems"(2) obtain c1 where c1: "parse_line tgt (ln + 1) (fst (fgets (LINE_MAX - 1) s)) c = Inr c1"
      and rest: "read_lines tgt (ln + 1) (snd (fgets (LINE_MAX - 1) s)) c1 = Inr c'"
      by (subst (asm) read_lines.simps) (auto split: sum.splits)
    show ?thesis
      by (rule "1.IH" [OF False c1 conf_wf_parse_line [OF "1.prems"(1) c1] rest])
  qed
qed

lemma conf_wf_parse_opts:
  "conf_wf c \<Longrightarrow> parse_opts args c f = Inr (c', f') \<Longrightarrow> conf_wf c'"
  by (induction args c f rule: parse_opts.induct)
    (auto split: opt.splits simp: conf_wf_fields conf_wf_strings)

section \<open>What a parsed configuration guarantees\<close>

definition conf_ready :: "target \<Rightarrow> conf \<Rightarrow> bool" where
  "conf_ready tgt c \<longleftrightarrow> conf_wf c \<and> cf_mode c \<in> {MODE_SERVER, MODE_CLIENT} \<and> 1 \<le> cf_path_count c
     \<and> (\<forall>i < nat (cf_path_count c). fst (port (cf_paths c ! i)) \<noteq> 0)
     \<and> cstr (cf_key c) \<noteq> [] \<and> cstr (cf_tunif c) \<noteq> [] \<and> 1024 \<le> cf_mtu c \<and> cf_mtu c \<le> 2052
     \<and> (cstr (cf_address c) \<noteq> [] \<or> cstr (cf_address6 c) \<noteq> [])
     \<and> (tgt = Darwin \<and> cstr (cf_address c) \<noteq> [] \<longrightarrow> cstr (cf_peer c) \<noteq> [])
     \<and> (cf_daemon c \<noteq> 0 \<longrightarrow> cstr (cf_pidfile c) \<noteq> [] \<and> cstr (cf_logfile c) \<noteq> [])"

lemma conf_wf_default_ports:
  assumes "conf_wf c"
  shows "conf_wf (default_ports c)"
proof -
  have "path_wf (default_port p)" if "path_wf p" for p
    using that by (simp add: default_port_def path_wf_def is_int32_def)
  moreover have "path_wf p" if "p \<in> set (take n (cf_paths c)) \<or> p \<in> set (drop n (cf_paths c))" for p n
    using that assms by (auto simp: conf_wf_def dest: in_set_takeD in_set_dropD)
  ultimately show ?thesis
    using assms by (auto simp: conf_wf_def default_ports_def)
qed

lemma default_ports_nonzero:
  assumes "conf_wf c" and "i < nat (cf_path_count c)"
  shows "fst (port (cf_paths (default_ports c) ! i)) \<noteq> 0"
proof -
  have "cf_path_count c \<le> 8" and "length (cf_paths c) = 8"
    using assms(1) by (simp_all add: conf_wf_def PATH_MAX_COUNT_def)
  then have "i < length (take (nat (cf_path_count c)) (cf_paths c))"
    using assms(2) by simp
  then show ?thesis
    by (simp add: default_ports_def nth_append default_port_def)
qed

lemma default_tunif_wf:
  assumes "conf_wf c"
  shows "conf_wf (default_tunif tgt c)" and "cstr (cf_tunif (default_tunif tgt c)) \<noteq> []"
proof -
  have len: "length (cf_tunif c) = 16" and t: "terminated 16 (cf_tunif c)"
    using assms by (simp_all add: conf_wf_def terminated_def)
  have "terminated 16 (write_at 0 ((case tgt of Linux \<Rightarrow> ''vpn0'' | Darwin \<Rightarrow> ''utun0'') @ [NUL]) (cf_tunif c))"
    using len by (cases tgt) (auto simp: terminated_def write_at_def)
  then show "conf_wf (default_tunif tgt c)"
    using assms by (simp add: conf_wf_def default_tunif_def)
  show "cstr (cf_tunif (default_tunif tgt c)) \<noteq> []"
    using len cstr_eq_Nil_iff [OF t]
    by (cases tgt) (auto simp: default_tunif_def write_at_def cstr_def NUL_def)
qed

lemma default_fields:
  "cf_mode (default_tunif tgt (default_ports c)) = cf_mode c"
  "cf_path_count (default_tunif tgt (default_ports c)) = cf_path_count c"
  "cf_paths (default_tunif tgt (default_ports c)) = cf_paths (default_ports c)"
  "cf_key (default_tunif tgt (default_ports c)) = cf_key c"
  "cf_mtu (default_tunif tgt (default_ports c)) = cf_mtu c"
  "cf_address (default_tunif tgt (default_ports c)) = cf_address c"
  "cf_address6 (default_tunif tgt (default_ports c)) = cf_address6 c"
  "cf_peer (default_tunif tgt (default_ports c)) = cf_peer c"
  "cf_daemon (default_tunif tgt (default_ports c)) = cf_daemon c"
  "cf_pidfile (default_tunif tgt (default_ports c)) = cf_pidfile c"
  "cf_logfile (default_tunif tgt (default_ports c)) = cf_logfile c"
  "cf_user (default_tunif tgt (default_ports c)) = cf_user c"
  by (simp_all add: default_tunif_def default_ports_def)

lemma check_conf_ready:
  assumes wf: "conf_wf c" and ok: "check_conf tgt c = Inr c'"
  shows "conf_ready tgt c'"
proof -
  have c': "c' = default_tunif tgt (default_ports c)"
    using ok by (auto simp: check_conf_def Let_def split: if_splits)
  have wf': "conf_wf c'"
    unfolding c' by (intro default_tunif_wf conf_wf_default_ports wf)
  have ne: "cstr (cf_key c) = [] \<longleftrightarrow> cf_key c ! 0 = NUL"
    "cstr (cf_address c) = [] \<longleftrightarrow> cf_address c ! 0 = NUL"
    "cstr (cf_address6 c) = [] \<longleftrightarrow> cf_address6 c ! 0 = NUL"
    "cstr (cf_peer c) = [] \<longleftrightarrow> cf_peer c ! 0 = NUL"
    "cstr (cf_pidfile c) = [] \<longleftrightarrow> cf_pidfile c ! 0 = NUL"
    "cstr (cf_logfile c) = [] \<longleftrightarrow> cf_logfile c ! 0 = NUL"
    using wf by (auto simp: conf_wf_def intro!: cstr_eq_Nil_iff)
  have ck: "cf_key (default_ports c) = cf_key c"
    by (simp add: default_ports_def)
  have guards: "\<not> (cf_daemon c \<noteq> 0 \<and> cf_pidfile c ! 0 = NUL)" "\<not> (cf_daemon c \<noteq> 0 \<and> cf_logfile c ! 0 = NUL)"
    "cf_mode c \<noteq> 0" "cf_path_count c \<noteq> 0" "cf_key c ! 0 \<noteq> NUL" "cf_mtu c \<noteq> 0"
    "\<not> (cf_address c ! 0 = NUL \<and> cf_address6 c ! 0 = NUL)"
    "\<not> (tgt = Darwin \<and> cf_address c ! 0 \<noteq> NUL \<and> cf_peer c ! 0 = NUL)"
    using ok by (auto simp: check_conf_def Let_def default_fields ck split: if_splits)
  have "\<forall>i < nat (cf_path_count c). fst (port (cf_paths (default_ports c) ! i)) \<noteq> 0"
    using default_ports_nonzero [OF wf] by blast
  moreover have "1 \<le> cf_path_count c" "cf_mode c \<in> {MODE_SERVER, MODE_CLIENT}"
    "1024 \<le> cf_mtu c" "cf_mtu c \<le> 2052"
    using wf guards by (auto simp: conf_wf_def)
  ultimately show ?thesis
    using guards wf' ne default_tunif_wf(2) [OF conf_wf_default_ports [OF wf], of tgt]
    unfolding conf_ready_def c' default_fields by auto
qed

lemma args_ready:
  assumes "parse_args tgt fs args = Inr c"
  shows "conf_ready tgt c"
proof -
  obtain c0 f c1 where opts: "parse_opts args zero_conf None = Inr (c0, Some f)"
    and rd: "read_conf tgt (fs f) c0 = Inr c1" and check: "check_conf tgt c1 = Inr c"
    using assms by (auto simp: parse_args_def split: sum.splits option.splits)
  have wf0: "conf_wf c0"
    by (rule conf_wf_parse_opts [OF conf_wf_zero opts])
  obtain s where "read_lines tgt 0 s c0 = Inr c1"
    using rd by (auto simp: read_conf_def split: option.splits)
  from conf_wf_read_lines [OF wf0 this] show ?thesis
    using check by (rule check_conf_ready)
qed

text \<open>
  C24. A configuration that \<^verbatim>\<open>parse_args\<close> accepts is complete and consistent: every character
  array is terminated within its size, the mode is server or client, there are one to eight
  servers, each with a non-zero first port and an ordered port range, key, interface name and an
  address are there, and the MTU is between 1024 and 2052.
\<close>

theorem parse_args_ready:
  assumes "parse_args tgt fs args = Inr c"
  shows "conf_ready tgt c"
  by (rule args_ready [OF assms])

definition demo_file :: string where
  "demo_file = ''mode=client'' @ [CHR 0x0A] @ ''server=::1'' @ [CHR 0x0A] @ ''key=k'' @ [CHR 0x0A]
     @ ''mtu=1400'' @ [CHR 0x0A] @ ''address=10.0.0.2'' @ [CHR 0x0A]"

lemma demo_file_accepted: "\<not> isl (parse_args Linux (\<lambda>_. Some demo_file) [''-c'', ''f''])"
  by code_simp

theorem parse_args_ready_witness:
  "\<exists>c. parse_args Linux (\<lambda>_. Some demo_file) [''-c'', ''f''] = Inr c \<and> conf_ready Linux c"
proof -
  obtain c where "parse_args Linux (\<lambda>_. Some demo_file) [''-c'', ''f''] = Inr c"
    using demo_file_accepted by (cases "parse_args Linux (\<lambda>_. Some demo_file) [''-c'', ''f'']") auto
  with parse_args_ready [OF this] show ?thesis
    by blast
qed

end
