(* ===== verification/Settings.thy ===== *)
theory Settings
  imports Conf
begin

text \<open>
  What a configuration file means, independently of how it is read: the settings it holds, how
  they are written as lines \<^verbatim>\<open>key=value\<close>, and the proof that \<^verbatim>\<open>parse_args\<close> gives them back. Also
  the two lines on which \<^verbatim>\<open>read_conf\<close> leaves its arrays.
\<close>

section \<open>Lines of a key and a value\<close>

definition trimmed :: "string \<Rightarrow> bool" where
  "trimmed s \<longleftrightarrow> s = [] \<or> \<not> isspace (hd s) \<and> \<not> isspace (last s)"

definition value_ok :: "string \<Rightarrow> bool" where
  "value_ok v \<longleftrightarrow> trimmed v \<and> CHR 0x0A \<notin> set v \<and> NUL \<notin> set v"

definition key_ok :: "string \<Rightarrow> bool" where
  "key_ok k \<longleftrightarrow> value_ok k \<and> k \<noteq> [] \<and> CHR ''='' \<notin> set k \<and> hd k \<noteq> CHR ''#''"

definition line_of :: "string \<times> string \<Rightarrow> string" where
  "line_of kv = fst kv @ CHR ''='' # snd kv"

definition entry_ok :: "string \<times> string \<Rightarrow> bool" where
  "entry_ok kv \<longleftrightarrow> key_ok (fst kv) \<and> value_ok (snd kv) \<and> length (line_of kv) < LINE_MAX - 1"

definition text_of :: "(string \<times> string) list \<Rightarrow> string" where
  "text_of kvs = concat (map (\<lambda>kv. line_of kv @ [CHR 0x0A]) kvs)"

fun apply_all :: "target \<Rightarrow> nat \<Rightarrow> (string \<times> string) list \<Rightarrow> conf \<Rightarrow> conf_error + conf" where
  "apply_all tgt ln [] c = Inr c"
| "apply_all tgt ln (kv # kvs) c =
     (case apply_key tgt (ln + 1) (fst kv) (snd kv) c of
        Inl e \<Rightarrow> Inl e
      | Inr c' \<Rightarrow> apply_all tgt (ln + 1) kvs c')"

lemma trimmed_line: "trimmed k \<Longrightarrow> k \<noteq> [] \<Longrightarrow> trimmed v \<Longrightarrow> trimmed (k @ CHR ''='' # v)"
  by (auto simp: trimmed_def isspace_def)

lemma strip_trimmed:
  assumes "trimmed s" and "s \<noteq> []"
  shows "dropWhile isspace (s @ [CHR 0x0A]) = s @ [CHR 0x0A]"
    and "rev (dropWhile isspace (rev (s @ [CHR 0x0A]))) = s"
proof -
  show "dropWhile isspace (s @ [CHR 0x0A]) = s @ [CHR 0x0A]"
    using assms by (cases s) (auto simp: trimmed_def)
  have "dropWhile isspace (rev s) = rev s"
    using assms by (cases s rule: rev_cases) (auto simp: trimmed_def)
  then show "rev (dropWhile isspace (rev (s @ [CHR 0x0A]))) = s"
    by (simp add: isspace_def)
qed

lemma parse_line_entry:
  assumes "entry_ok (k, v)"
  shows "parse_line tgt ln (line_of (k, v) @ [CHR 0x0A]) c = apply_key tgt ln k v c"
proof -
  let ?s = "line_of (k, v)"
  have k: "trimmed k" "k \<noteq> []" "CHR ''='' \<notin> set k" "hd k \<noteq> CHR ''#''" "trimmed v"
    using assms by (auto simp: entry_ok_def key_ok_def value_ok_def)
  have "NUL \<notin> set (?s @ [CHR 0x0A])"
    using assms by (auto simp: entry_ok_def key_ok_def value_ok_def line_of_def NUL_def)
  then have s0: "cstr (?s @ [CHR 0x0A]) = ?s @ [CHR 0x0A]"
    by (rule cstr_idem)
  have t: "trimmed ?s" "?s \<noteq> []"
    using k trimmed_line [of k v] by (simp_all add: line_of_def)
  have h: "hd ?s = hd k"
    using k by (simp add: line_of_def)
  have sp: "split_at (CHR ''='') ?s = Some (k, v)"
    using k by (simp add: line_of_def)
  have "\<not> isspace (last k)" "v = [] \<or> \<not> isspace (hd v)"
    using k by (auto simp: trimmed_def)
  then show ?thesis
    unfolding parse_line_def Let_def s0 strip_trimmed [OF t] using k t h sp by auto
qed

lemma read_lines_text:
  "\<forall>kv \<in> set kvs. entry_ok kv \<Longrightarrow> read_lines tgt ln (text_of kvs) c = apply_all tgt ln kvs c"
proof (induction kvs arbitrary: ln c)
  case Nil
  then show ?case by (simp add: text_of_def read_lines.simps)
next
  case (Cons kv kvs)
  obtain k v where kv: "kv = (k, v)"
    by (cases kv)
  have ok: "entry_ok (k, v)"
    using Cons.prems kv by simp
  have "CHR 0x0A \<notin> set (line_of (k, v))" "length (line_of (k, v)) < LINE_MAX - 1"
    using ok by (auto simp: entry_ok_def key_ok_def value_ok_def line_of_def)
  then have fg: "fgets (LINE_MAX - 1) (text_of (kv # kvs)) = (line_of (k, v) @ [CHR 0x0A], text_of kvs)"
    using fgets_line [of "line_of (k, v)" "LINE_MAX - 1" "text_of kvs"] by (simp add: text_of_def kv)
  have ne: "text_of (kv # kvs) \<noteq> []"
    by (simp add: text_of_def)
  show ?case
    using Cons ne unfolding read_lines.simps [of tgt ln "text_of (kv # kvs)"] fg
    by (simp add: kv parse_line_entry split: sum.splits)
qed

lemma apply_all_append:
  "apply_all tgt ln (xs @ ys) c =
     (case apply_all tgt ln xs c of Inl e \<Rightarrow> Inl e | Inr c' \<Rightarrow> apply_all tgt (ln + length xs) ys c')"
  by (induction xs arbitrary: ln c) (simp_all split: sum.splits)


section \<open>Settings\<close>

text \<open>The settings of a file; a server is its address with the first and the last port.\<close>

record settings =
  st_user :: string
  st_mode :: int
  st_servers :: "(string \<times> nat \<times> nat) list"
  st_key :: string
  st_tunif :: string
  st_mtu :: nat
  st_address :: string
  st_address6 :: string
  st_peer :: string
  st_route :: bool
  st_nat :: bool

definition server_entries :: "string \<times> nat \<times> nat \<Rightarrow> (string \<times> string) list" where
  "server_entries s = (case s of (h, a, b) \<Rightarrow>
     [(''server'', h), (''port'', dec a @ CHR ''-'' # dec b)])"

definition yes_no :: "bool \<Rightarrow> string" where
  "yes_no b = (if b then ''yes'' else ''no'')"

definition entries :: "settings \<Rightarrow> (string \<times> string) list" where
  "entries s =
     [(''user'', st_user s), (''mode'', if st_mode s = MODE_SERVER then ''server'' else ''client'')]
     @ concat (map server_entries (st_servers s))
     @ [(''key'', st_key s), (''tunif'', st_tunif s), (''mtu'', dec (st_mtu s)),
        (''address'', st_address s), (''address6'', st_address6 s), (''peer'', st_peer s),
        (''route'', yes_no (st_route s)), (''nat'', yes_no (st_nat s))]"

definition print_settings :: "settings \<Rightarrow> string" where
  "print_settings s = text_of (entries s)"

text \<open>What a parsed configuration says.\<close>

definition server_of :: "path_conf \<Rightarrow> string \<times> nat \<times> nat" where
  "server_of p = (cstr (server p), nat (fst (port p)), nat (snd (port p)))"

definition settings_of :: "conf \<Rightarrow> settings" where
  "settings_of c = \<lparr>st_user = cstr (cf_user c), st_mode = cf_mode c,
     st_servers = map server_of (take (nat (cf_path_count c)) (cf_paths c)),
     st_key = cstr (cf_key c), st_tunif = cstr (cf_tunif c), st_mtu = nat (cf_mtu c),
     st_address = cstr (cf_address c), st_address6 = cstr (cf_address6 c), st_peer = cstr (cf_peer c),
     st_route = (cf_route c \<noteq> 0), st_nat = (cf_nat c \<noteq> 0)\<rparr>"

definition value_fits :: "nat \<Rightarrow> string \<Rightarrow> bool" where
  "value_fits n v \<longleftrightarrow> value_ok v \<and> length v < n"

definition server_ok :: "string \<times> nat \<times> nat \<Rightarrow> bool" where
  "server_ok s = (case s of (h, a, b) \<Rightarrow> value_fits 64 h \<and> 0 < a \<and> a \<le> b \<and> b < 2 ^ 31)"

definition settings_ok :: "target \<Rightarrow> settings \<Rightarrow> bool" where
  "settings_ok tgt s \<longleftrightarrow> value_fits 16 (st_user s) \<and> st_mode s \<in> {MODE_SERVER, MODE_CLIENT}
     \<and> 1 \<le> length (st_servers s) \<and> length (st_servers s) \<le> PATH_MAX_COUNT \<and> list_all server_ok (st_servers s)
     \<and> value_fits 128 (st_key s) \<and> st_key s \<noteq> [] \<and> value_fits 16 (st_tunif s) \<and> st_tunif s \<noteq> []
     \<and> 1024 \<le> st_mtu s \<and> st_mtu s \<le> PAYLOAD_MAX
     \<and> value_fits 20 (st_address s) \<and> value_fits 64 (st_address6 s) \<and> value_fits 20 (st_peer s)
     \<and> (st_address s \<noteq> [] \<or> st_address6 s \<noteq> [])
     \<and> (case tgt of Linux \<Rightarrow> st_peer s = [] | Darwin \<Rightarrow> st_address s \<noteq> [] \<longrightarrow> st_peer s \<noteq> [])"

subsection \<open>Every entry is a line the parser takes\<close>

lemma value_ok_dec: "value_ok (dec k)"
proof -
  have "\<not> isspace c" if "c \<in> set (dec k)" for c
    using that by (rule dec_special(4))
  moreover have "isspace (CHR 0x0A)"
    by (simp add: isspace_def)
  ultimately show ?thesis
    using dec_special(3) [of k] dec_nonempty [of k] hd_in_set last_in_set
    unfolding value_ok_def trimmed_def by metis
qed

lemma value_ok_ports: "value_ok (dec a @ CHR ''-'' # dec b)"
  using value_ok_dec [of a] value_ok_dec [of b] dec_nonempty
  by (auto simp: value_ok_def trimmed_def NUL_def)

lemma length_dec_31: "k < 2 ^ 31 \<Longrightarrow> length (dec k) \<le> 10"
  by (rule length_dec) simp_all

definition known_keys :: "string list" where
  "known_keys = [''user'', ''mode'', ''server'', ''port'', ''key'', ''tunif'', ''mtu'', ''address'',
     ''address6'', ''peer'', ''route'', ''nat'']"

lemma known_key_ok: "k \<in> set known_keys \<Longrightarrow> key_ok k \<and> length k \<le> 8"
  by (auto simp: known_keys_def key_ok_def value_ok_def trimmed_def isspace_def NUL_def)

lemma entry_ok_known: "k \<in> set known_keys \<Longrightarrow> value_ok v \<Longrightarrow> length v < 128 \<Longrightarrow> entry_ok (k, v)"
  using known_key_ok [of k] by (simp add: entry_ok_def line_of_def LINE_MAX_def)

lemma value_ok_words:
  "value_ok (yes_no b)" "value_ok ''server''" "value_ok ''client''"
  by (simp_all add: yes_no_def value_ok_def trimmed_def isspace_def NUL_def)

lemma entries_ok:
  assumes "settings_ok tgt s"
  shows "\<forall>kv \<in> set (entries s). entry_ok kv"
proof -
  have srv: "entry_ok kv" if "sv \<in> set (st_servers s)" "kv \<in> set (server_entries sv)" for sv kv
  proof -
    obtain h a b where sv: "sv = (h, a, b)"
      by (cases sv)
    have ok: "value_fits 64 h" "a \<le> b" "b < 2 ^ 31"
      using assms that(1) sv by (auto simp: settings_ok_def list_all_iff server_ok_def)
    then have "length (dec a) \<le> 10" "length (dec b) \<le> 10"
      using length_dec_31 by simp_all
    then show ?thesis
      using that(2) ok value_ok_ports [of a b]
      by (auto simp: server_entries_def sv known_keys_def value_fits_def intro!: entry_ok_known)
  qed
  have "length (dec (st_mtu s)) \<le> 10"
    using assms by (intro length_dec_31) (simp add: settings_ok_def layout_defs)
  then have m: "length (dec (st_mtu s)) < 128"
    by simp
  have y: "length (yes_no b) < 128" for b
    by (simp add: yes_no_def)
  have f: "value_ok v \<and> length v < 128" if "value_fits n v" "n \<le> 128" for n v
    using that by (simp add: value_fits_def)
  have ok: "value_fits 16 (st_user s)" "value_fits 128 (st_key s)" "value_fits 16 (st_tunif s)" "value_fits 20 (st_address s)"
    "value_fits 64 (st_address6 s)" "value_fits 20 (st_peer s)"
    using assms by (simp_all add: settings_ok_def)
  have known: "k \<in> set known_keys" if "k \<in> set [''user'', ''mode'', ''key'', ''tunif'', ''mtu'',
      ''address'', ''address6'', ''peer'', ''route'', ''nat'']" for k
    using that unfolding known_keys_def by auto
  have "entry_ok (k, v)" if "(k, v) \<in> set (entries s)"
    "(k, v) \<notin> set (concat (map server_entries (st_servers s)))" for k v
  proof -
    have "k \<in> set [''user'', ''mode'', ''key'', ''tunif'', ''mtu'',
      ''address'', ''address6'', ''peer'', ''route'', ''nat'']"
      using that unfolding entries_def by force
    moreover have "v \<in> {st_user s, st_key s, st_tunif s, st_address s, st_address6 s, st_peer s,
      dec (st_mtu s), yes_no (st_route s), yes_no (st_nat s), ''server'', ''client''}"
      using that unfolding entries_def by (auto split: if_splits)
    ultimately show ?thesis
      using m y ok [THEN f] value_ok_words value_ok_dec by (intro entry_ok_known known) auto
  qed
  then show ?thesis
    using srv by fastforce
qed

subsection \<open>The parser gives the settings back\<close>

lemma port_of_print: "a < 2 ^ 31 \<Longrightarrow> b < 2 ^ 31 \<Longrightarrow> port_of (dec a @ CHR ''-'' # dec b) = (int a, int b)"
  by (simp add: port_of_def dec_special atoi_dec)

definition put_path :: "path_conf \<Rightarrow> conf \<Rightarrow> conf" where
  "put_path p c = c\<lparr>cf_paths := (cf_paths c)[nat (cf_path_count c) := p],
     cf_path_count := cf_path_count c + 1\<rparr>"

text \<open>The last server so far has a port, so the next one is taken.\<close>

definition last_port_set :: "conf \<Rightarrow> bool" where
  "last_port_set c \<longleftrightarrow> (cf_path_count c = 0 \<or> fst (port (cf_paths c ! nat (cf_path_count c - 1))) \<noteq> 0)"

lemma apply_server:
  assumes wf: "conf_wf c" and n: "cf_path_count c < 8" and last: "last_port_set c" and ok: "server_ok sv"
  obtains p where "server_of p = sv" "path_wf p" "fst (port p) \<noteq> 0"
    "apply_all tgt ln (server_entries sv) c = Inr (put_path p c)"
proof -
  obtain h a b where sv: "sv = (h, a, b)"
    by (cases sv)
  let ?n = "nat (cf_path_count c)"
  let ?q = "cf_paths c ! ?n"
  define p where "p = ?q\<lparr>server := my_strncpy (server ?q) h, port := (int a, int b)\<rparr>"
  have ok': "NUL \<notin> set h" "length h < 64" "0 < a" "a \<le> b" "b < 2 ^ 31"
    using ok by (auto simp: sv server_ok_def value_fits_def value_ok_def)
  have c: "0 \<le> cf_path_count c" "length (cf_paths c) = 8"
    using wf by (simp_all add: conf_wf_def)
  have "path_wf ?q"
    using n c by (intro path_wf_nth [OF wf]) simp
  then have q: "length (server ?q) = 64" "terminated 64 (server ?q)"
    by (simp_all add: path_wf_def terminated_def)
  have "server_of p = sv"
    using ok' q by (simp add: p_def sv server_of_def cstr_my_strncpy)
  moreover have "path_wf p"
    using ok' q by (simp add: p_def path_wf_def is_int32_def terminated_strncpy)
  moreover have "fst (port p) \<noteq> 0"
    using ok' by (simp add: p_def)
  moreover have "apply_all tgt ln (server_entries sv) c = Inr (put_path p c)"
    using n c ok' last
    by (simp add: sv server_entries_def apply_key_def add_server_def set_port_def port_of_print
        Let_def PATH_MAX_COUNT_def put_path_def p_def last_port_set_def)
  ultimately show ?thesis
    by (rule that)
qed

lemma put_path_facts:
  assumes "conf_wf c" and "cf_path_count c < 8" and "path_wf p" and "fst (port p) \<noteq> 0"
  shows "conf_wf (put_path p c)" and "last_port_set (put_path p c)"
    and "take (nat (cf_path_count (put_path p c))) (cf_paths (put_path p c))
         = take (nat (cf_path_count c)) (cf_paths c) @ [p]"
proof -
  have c: "0 \<le> cf_path_count c" "length (cf_paths c) = 8"
    using assms(1) by (simp_all add: conf_wf_def)
  show "conf_wf (put_path p c)"
    using assms c by (simp add: put_path_def path_wf_update)
  show "last_port_set (put_path p c)"
    using assms c by (simp add: put_path_def last_port_set_def)
  show "take (nat (cf_path_count (put_path p c))) (cf_paths (put_path p c))
         = take (nat (cf_path_count c)) (cf_paths c) @ [p]"
    using assms c by (simp add: put_path_def nat_add_distrib take_Suc_conv_app_nth)
qed

lemma apply_servers:
  assumes "conf_wf c" and "last_port_set c" and "list_all server_ok svs"
    and "cf_path_count c + int (length svs) \<le> 8"
  shows "\<exists>ps. let c' = c\<lparr>cf_paths := ps, cf_path_count := cf_path_count c + int (length svs)\<rparr> in
      apply_all tgt ln (concat (map server_entries svs)) c = Inr c' \<and> conf_wf c'
      \<and> map server_of (take (nat (cf_path_count c')) ps)
        = map server_of (take (nat (cf_path_count c)) (cf_paths c)) @ svs"
  using assms
proof (induction svs arbitrary: c ln)
  case Nil
  then show ?case by (intro exI [of _ "cf_paths c"]) simp
next
  case (Cons sv svs)
  have n: "cf_path_count c < 8"
    using Cons.prems(4) by simp
  obtain p where p: "server_of p = sv" "path_wf p" "fst (port p) \<noteq> 0"
    and step: "apply_all tgt ln (server_entries sv) c = Inr (put_path p c)"
    using apply_server [OF Cons.prems(1) n Cons.prems(2), of sv tgt ln] Cons.prems(3) by auto
  note f = put_path_facts [OF Cons.prems(1) n p(2,3)]
  obtain ps where "let c' = (put_path p c)\<lparr>cf_paths := ps,
        cf_path_count := cf_path_count (put_path p c) + int (length svs)\<rparr> in
      apply_all tgt (ln + length (server_entries sv)) (concat (map server_entries svs)) (put_path p c) = Inr c'
      \<and> conf_wf c' \<and> map server_of (take (nat (cf_path_count c')) ps)
        = map server_of (take (nat (cf_path_count (put_path p c))) (cf_paths (put_path p c))) @ svs"
    using Cons.IH [OF f(1,2)] Cons.prems(3,4) by (auto simp: put_path_def add.assoc)
  then show ?case
    using f(3) p(1) by (intro exI [of _ ps])
      (simp add: apply_all_append step Let_def, simp add: put_path_def ac_simps)
qed


text \<open>The scalar entries around the servers, as updates of the configuration.\<close>

definition before_servers :: "settings \<Rightarrow> conf" where
  "before_servers s = zero_conf\<lparr>cf_user := my_strncpy (replicate 16 NUL) (st_user s),
     cf_mode := (if st_mode s = MODE_SERVER then MODE_SERVER else MODE_CLIENT)\<rparr>"

definition after_servers :: "target \<Rightarrow> settings \<Rightarrow> conf \<Rightarrow> conf" where
  "after_servers tgt s c = (set_key (st_key s) c)\<lparr>
     cf_tunif := my_strncpy (cf_tunif c) (st_tunif s), cf_mtu := int (st_mtu s),
     cf_address := my_strncpy (cf_address c) (st_address s),
     cf_address6 := my_strncpy (cf_address6 c) (st_address6 s),
     cf_peer := (if tgt = Darwin then my_strncpy (cf_peer c) (st_peer s) else cf_peer c),
     cf_route := (if st_route s then 1 else 0), cf_nat := (if st_nat s then 1 else 0)\<rparr>"

lemma apply_before:
  "apply_all tgt ln [(''user'', st_user s), (''mode'', if st_mode s = MODE_SERVER then ''server'' else ''client'')]
     zero_conf = Inr (before_servers s)"
  by (simp add: apply_key_def set_mode_def before_servers_def zero_conf_def)

lemma apply_after:
  assumes "1024 \<le> st_mtu s" and "st_mtu s \<le> PAYLOAD_MAX"
  shows "apply_all tgt ln [(''key'', st_key s), (''tunif'', st_tunif s), (''mtu'', dec (st_mtu s)),
        (''address'', st_address s), (''address6'', st_address6 s), (''peer'', st_peer s),
        (''route'', yes_no (st_route s)), (''nat'', yes_no (st_nat s))] c
     = Inr (after_servers tgt s c)"
proof -
  have "atoi (dec (st_mtu s)) = int (st_mtu s)"
    using assms by (intro atoi_dec) (simp add: layout_defs)
  then have "set_mtu l (dec (st_mtu s)) d = Inr (d\<lparr>cf_mtu := int (st_mtu s)\<rparr>)" for l d
    using assms by (simp add: set_mtu_def Let_def)
  moreover have "set_route l (yes_no b) d = Inr (d\<lparr>cf_route := (if b then 1 else 0)\<rparr>)"
    "set_nat l (yes_no b) d = Inr (d\<lparr>cf_nat := (if b then 1 else 0)\<rparr>)" for l b d
    by (simp_all add: set_route_def set_nat_def yes_no_def)
  ultimately show ?thesis
    by (simp add: apply_key_def after_servers_def set_key_def Let_def)
qed

lemma settings_of_after:
  assumes ok: "settings_ok tgt s" and c: "c = (before_servers s)\<lparr>cf_paths := ps, cf_path_count := n\<rparr>"
  shows "settings_of (after_servers tgt s c) = s\<lparr>st_servers := map server_of (take (nat n) ps)\<rparr>"
proof -
  have fit: "cstr (my_strncpy (replicate n NUL) v) = v" if "value_fits n v" "0 < n" for n v
    using that by (auto simp: cstr_my_strncpy value_fits_def value_ok_def)
  have key: "NUL \<notin> set (st_key s)" "length (st_key s) < 128"
    using ok by (auto simp: settings_ok_def value_fits_def value_ok_def)
  have "cf_key (set_key (st_key s) c) = st_key s @ NUL # replicate (127 - length (st_key s)) NUL"
    using key by (simp add: c set_key_def before_servers_def zero_conf_def write_at_def Let_def)
  then have "cstr (cf_key (set_key (st_key s) c)) = st_key s"
    using key by simp
  moreover have "tgt = Linux \<longrightarrow> st_peer s = []"
    using ok by (simp add: settings_ok_def split: target.splits)
  moreover have "cstr (replicate 20 NUL) = []"
    by (simp add: cstr_def numeral_eq_Suc)
  moreover have "value_fits 16 (st_user s)" "value_fits 16 (st_tunif s)" "value_fits 20 (st_address s)"
    "value_fits 64 (st_address6 s)" "value_fits 20 (st_peer s)" "st_mode s \<in> {MODE_SERVER, MODE_CLIENT}"
    using ok by (simp_all add: settings_ok_def)
  ultimately show ?thesis
    by (cases tgt) (auto simp: settings_of_def after_servers_def c before_servers_def zero_conf_def
        set_key_def Let_def fit)
qed

lemma cstr_first: "0 < length buf \<Longrightarrow> buf ! 0 = NUL \<longleftrightarrow> cstr buf = []"
  by (cases buf) (auto simp: cstr_def)

text \<open>A file with complete settings passes the checks and needs no default.\<close>

lemma check_conf_settings:
  assumes wf: "conf_wf c" and s: "settings_of c = s" and ok: "settings_ok tgt s" and d: "cf_daemon c = 0"
  shows "check_conf tgt c = Inr c"
proof -
  have n: "0 \<le> cf_path_count c" "cf_path_count c \<le> 8" "length (cf_paths c) = 8"
    using wf by (simp_all add: conf_wf_def)
  have s': "st_servers s = map server_of (take (nat (cf_path_count c)) (cf_paths c))"
    using s by (auto simp: settings_of_def)
  have "fst (port p) \<noteq> 0" if "p \<in> set (take (nat (cf_path_count c)) (cf_paths c))" for p
    using that ok by (auto simp: settings_ok_def s' list_all_iff server_of_def server_ok_def)
  then have "map default_port (take (nat (cf_path_count c)) (cf_paths c)) = take (nat (cf_path_count c)) (cf_paths c)"
    by (intro map_idI) (simp add: default_port_def)
  then have dp: "default_ports c = c"
    by (simp add: default_ports_def)
  have t: "cstr (cf_tunif c) \<noteq> []" "cstr (cf_key c) \<noteq> []" "cf_mode c \<noteq> 0" "cf_mtu c \<noteq> 0"
    "cstr (cf_address c) \<noteq> [] \<or> cstr (cf_address6 c) \<noteq> []"
    "tgt = Darwin \<and> cstr (cf_address c) \<noteq> [] \<longrightarrow> cstr (cf_peer c) \<noteq> []" "cf_path_count c \<noteq> 0"
    using ok n by (auto simp: settings_ok_def s [symmetric] settings_of_def MODE_SERVER_def MODE_CLIENT_def)
  have "0 < length (cf_tunif c)" "0 < length (cf_key c)" "0 < length (cf_address c)"
    "0 < length (cf_address6 c)" "0 < length (cf_peer c)"
    using wf by (simp_all add: conf_wf_def terminated_def)
  then show ?thesis
    using t d by (auto simp: check_conf_def dp default_tunif_def cstr_first simp del: length_greater_0_conv)
qed

text \<open>
  C25. A configuration file is a faithful record of its settings: when the settings fit the
  fields, writing them out as lines and running \<^verbatim>\<open>parse_args -c\<close> on the file succeeds and the
  configuration says exactly those settings (all servers in order with their port ranges, key,
  interface, MTU, addresses, flags).
\<close>

theorem parse_print_settings:
  assumes ok: "settings_ok tgt s" and rd: "fs f = Some (print_settings s)"
  shows "\<exists>c. parse_args tgt fs [''-c'', f] = Inr c \<and> settings_of c = s"
proof -
  let ?b = "before_servers s"
  have b: "conf_wf ?b" "cf_path_count ?b = 0"
    using conf_wf_zero by (simp_all add: before_servers_def conf_wf_def terminated_strncpy
        terminated_replicate zero_conf_def
        PATH_MAX_COUNT_def)
  have srv: "list_all server_ok (st_servers s)" "length (st_servers s) \<le> 8"
    using ok by (simp_all add: settings_ok_def PATH_MAX_COUNT_def)
  obtain ps where c1: "let c1 = ?b\<lparr>cf_paths := ps, cf_path_count := int (length (st_servers s))\<rparr> in
      apply_all tgt 2 (concat (map server_entries (st_servers s))) ?b = Inr c1 \<and> conf_wf c1
      \<and> map server_of (take (nat (cf_path_count c1)) ps) = st_servers s"
    using apply_servers [OF b(1), of "st_servers s" tgt 2] srv b(2) by (auto simp: last_port_set_def)
  define c1 where "c1 = ?b\<lparr>cf_paths := ps, cf_path_count := int (length (st_servers s))\<rparr>"
  define c where "c = after_servers tgt s c1"
  have m: "1024 \<le> st_mtu s" "st_mtu s \<le> PAYLOAD_MAX"
    using ok by (simp_all add: settings_ok_def)
  have all: "apply_all tgt 0 (entries s) zero_conf = Inr c"
    using c1 unfolding entries_def apply_all_append apply_before apply_after [OF m] c_def c1_def
    by (simp add: Let_def numeral_2_eq_2)
  have rc: "read_conf tgt (fs f) zero_conf = Inr c"
    using rd all by (simp add: read_conf_def print_settings_def read_lines_text [OF entries_ok [OF ok]])
  have view: "settings_of c = s"
    using settings_of_after [OF ok c1_def] c1 unfolding c_def by (simp add: Let_def)
  have "conf_wf c"
    using rc rd conf_wf_read_lines [OF conf_wf_zero] by (simp add: read_conf_def)
  moreover have "cf_daemon c = 0"
    by (simp add: c_def c1_def after_servers_def before_servers_def set_key_def zero_conf_def Let_def)
  ultimately have "check_conf tgt c = Inr c"
    using check_conf_settings [OF _ view ok] by simp
  then show ?thesis
    using rc view by (simp add: parse_args_def opt_of_def)
qed

definition demo_settings :: settings where
  "demo_settings = \<lparr>st_user = ''nobody'', st_mode = MODE_CLIENT,
     st_servers = [(''198.51.100.7'', 1205, 1299), (''vpn.example.org'', 443, 443)],
     st_key = ''correct horse'', st_tunif = ''tun1'', st_mtu = 1400, st_address = ''10.0.0.2/24'',
     st_address6 = [], st_peer = [], st_route = True, st_nat = False\<rparr>"

lemma demo_settings_ok: "settings_ok Linux demo_settings"
  by (simp add: settings_ok_def demo_settings_def server_ok_def value_fits_def value_ok_def trimmed_def
      isspace_def NUL_def MODE_SERVER_def MODE_CLIENT_def PATH_MAX_COUNT_def layout_defs)

theorem parse_print_settings_witness:
  "\<exists>c. parse_args Linux (\<lambda>f. Some (print_settings demo_settings)) [''-c'', ''muon.conf''] = Inr c
     \<and> settings_of c = demo_settings"
  by (rule parse_print_settings [OF demo_settings_ok]) simp

section \<open>Lines that leave the arrays\<close>

definition stripped :: "string \<Rightarrow> string" where
  "stripped buf = rev (dropWhile isspace (rev (dropWhile isspace (cstr buf))))"

text \<open>The two kinds of lines on which \<^verbatim>\<open>read_conf\<close> accesses memory outside its arrays.\<close>

definition starts_with_equals :: "string \<Rightarrow> bool" where
  "starts_with_equals buf \<longleftrightarrow> cstr buf \<noteq> [] \<and> hd (cstr buf) = CHR ''=''"

definition port_line :: "string \<Rightarrow> bool" where
  "port_line buf \<longleftrightarrow> take 5 (stripped buf) = ''port=''
     \<and> (let v = drop 5 (stripped buf) in (v = [] \<or> \<not> isspace (hd v)) \<and> fst (port_of v) \<le> snd (port_of v))"

lemma no_fault:
  "set_mode ln v c \<noteq> Inl (Fault e)" "add_server ln v c \<noteq> Inl (Fault e)" "set_mtu ln v c \<noteq> Inl (Fault e)"
  "set_route ln v c \<noteq> Inl (Fault e)" "set_nat ln v c \<noteq> Inl (Fault e)"
  by (simp_all add: set_mode_def add_server_def set_mtu_def set_route_def set_nat_def Let_def)

lemma apply_key_fault:
  assumes "0 \<le> cf_path_count c"
  shows "apply_key tgt ln k v c = Inl (Fault e) \<longleftrightarrow>
    e = OutOfBounds \<and> k = ''port'' \<and> fst (port_of v) \<le> snd (port_of v) \<and> cf_path_count c = 0"
proof (cases "k = ''port''")
  case True
  then have "apply_key tgt ln k v c = set_port ln v c"
    by (simp add: apply_key_def)
  then show ?thesis
    using True assms by (cases "port_of v") (auto simp: set_port_def Let_def)
next
  case False
  have "apply_key tgt ln k v c \<noteq> Inl (Fault e)"
    by (rule apply_key_cases [OF refl, of tgt ln k v c]) (use no_fault False in \<open>metis sum.simps(4)\<close>)+
  then show ?thesis
    using False by simp
qed

lemma strip_end: "\<exists>t. xs = rev (dropWhile P (rev xs)) @ t"
proof -
  have "rev (rev xs) = rev (dropWhile P (rev xs)) @ rev (takeWhile P (rev xs))"
    by (simp only: rev_append [symmetric] takeWhile_dropWhile_id)
  then show ?thesis by simp metis
qed

lemma stripped_equals:
  assumes "starts_with_equals buf"
  obtains r where "dropWhile isspace (cstr buf) = cstr buf" "stripped buf = CHR ''='' # r"
proof -
  obtain r where r: "cstr buf = CHR ''='' # r"
    using assms by (cases "cstr buf") (auto simp: starts_with_equals_def)
  then have s1: "dropWhile isspace (cstr buf) = cstr buf"
    by (simp add: isspace_def)
  have "stripped buf \<noteq> []"
    by (simp add: stripped_def s1) (simp add: r isspace_def)
  moreover obtain t where "cstr buf = stripped buf @ t"
    using strip_end [of "cstr buf" isspace] unfolding stripped_def s1 by metis
  ultimately obtain r' where "stripped buf = CHR ''='' # r'"
    using r by (cases "stripped buf") auto
  then show ?thesis
    using s1 that by blast
qed

lemma port_line_split:
  "take 5 s = ''port='' \<longleftrightarrow> split_at (CHR ''='') s = Some (''port'', drop 5 s)"
proof
  assume "take 5 s = ''port=''"
  then have "s = ''port'' @ CHR ''='' # drop 5 s"
    using append_take_drop_id [of 5 s] by simp
  then show "split_at (CHR ''='') s = Some (''port'', drop 5 s)"
    using split_at_append [of "CHR ''=''" "''port''" "drop 5 s"] by simp
next
  assume "split_at (CHR ''='') s = Some (''port'', drop 5 s)"
  then have "s = ''port'' @ CHR ''='' # drop 5 s"
    by (blast dest: split_at_Some)
  then have "take 5 s = take 5 (''port='' @ drop 5 s)"
    by simp
  then show "take 5 s = ''port=''"
    by simp
qed

text \<open>
  C27. The only memory errors of parsing a line are the two reported ones: for a well-formed
  configuration a line makes \<^verbatim>\<open>read_conf\<close> access memory outside its arrays exactly when it
  starts with \<^verbatim>\<open>=\<close> (the read of \<^verbatim>\<open>p[-1]\<close> is in front of the buffer) or when it is a
  \<^verbatim>\<open>port\<close> line before any \<^verbatim>\<open>server\<close> (the write goes to \<^verbatim>\<open>paths[-1]\<close>).
\<close>

theorem parse_line_faults_iff:
  assumes "conf_wf c"
  shows "parse_line tgt ln buf c = Inl (Fault e) \<longleftrightarrow>
    e = OutOfBounds \<and> (starts_with_equals buf \<or> port_line buf \<and> cf_path_count c = 0)"
proof (cases "starts_with_equals buf")
  case True
  then obtain r where "dropWhile isspace (cstr buf) = cstr buf" "stripped buf = CHR ''='' # r"
    by (rule stripped_equals)
  then show ?thesis
    using True unfolding parse_line_def Let_def stripped_def [symmetric] by auto
next
  case False
  have n: "0 \<le> cf_path_count c"
    using assms by (simp add: conf_wf_def)
  obtain t where t: "dropWhile isspace (cstr buf) = stripped buf @ t"
    using strip_end unfolding stripped_def by metis
  have eq: "\<not> (stripped buf = CHR ''='' # v \<and> dropWhile isspace (cstr buf) = cstr buf)" for v
  proof
    assume *: "stripped buf = CHR ''='' # v \<and> dropWhile isspace (cstr buf) = cstr buf"
    then have "cstr buf = CHR ''='' # v @ t"
      using t by (metis append_Cons)
    then show False
      using False by (simp add: starts_with_equals_def)
  qed
  have pl: "port_line buf \<longleftrightarrow> split_at (CHR ''='') (stripped buf) = Some (''port'', drop 5 (stripped buf))
      \<and> (let v = drop 5 (stripped buf) in (v = [] \<or> \<not> isspace (hd v)) \<and> fst (port_of v) \<le> snd (port_of v))"
    unfolding port_line_def using port_line_split by blast
  have sp: "split_at (CHR ''='') (stripped buf) = Some ([], v) \<Longrightarrow> dropWhile isspace (cstr buf) \<noteq> cstr buf" for v
    using eq [of v] split_at_Some [of "CHR ''=''" "stripped buf" "[]" v] by simp
  have line: "parse_line tgt ln buf c =
      (if stripped buf = [] \<or> hd (stripped buf) = CHR ''#'' then Inr c
       else case split_at (CHR ''='') (stripped buf) of
           None \<Rightarrow> Inl (NoEquals ln)
         | Some (k, v) \<Rightarrow>
             if k = [] \<or> isspace (last k) \<or> (v \<noteq> [] \<and> isspace (hd v)) then Inl (SpaceAroundEquals ln)
             else apply_key tgt ln k v c)"
  proof (cases "split_at (CHR ''='') (stripped buf)")
    case None
    then show ?thesis
      unfolding parse_line_def Let_def stripped_def [symmetric] None by simp
  next
    case (Some kv)
    then show ?thesis
      using sp unfolding parse_line_def Let_def stripped_def [symmetric] Some by (cases kv) auto
  qed
  show ?thesis
  proof (cases "split_at (CHR ''='') (stripped buf)")
    case None
    then show ?thesis
      using False pl unfolding line None by simp
  next
    case (Some kv)
    obtain k v where kv: "kv = (k, v)"
      by (cases kv)
    have s: "stripped buf = k @ CHR ''='' # v"
      using split_at_Some [of _ "stripped buf" k v] Some kv by simp
    have "port_line buf \<longleftrightarrow> k = ''port'' \<and> (v = [] \<or> \<not> isspace (hd v)) \<and> fst (port_of v) \<le> snd (port_of v)"
      using Some kv s unfolding pl by auto
    moreover have "stripped buf \<noteq> []" "k = ''port'' \<longrightarrow> hd (stripped buf) \<noteq> CHR ''#'' \<and> \<not> isspace (last k)"
      using s by (auto simp: isspace_def)
    ultimately show ?thesis
      using False unfolding line Some kv by (cases "k = ''port''") (auto simp: apply_key_fault [OF n])
  qed
qed

theorem parse_line_faults_iff_witness:
  "parse_line Linux 1 ''port=1205'' zero_conf = Inl (Fault OutOfBounds)
   \<and> parse_line Linux 1 ''=1205'' zero_conf = Inl (Fault OutOfBounds)"
proof -
  have "fst (port_of ''1205'') \<le> snd (port_of ''1205'')"
    by (simp add: port_of_def)
  then have "port_line ''port=1205''" "starts_with_equals ''=1205''" "cf_path_count zero_conf = 0"
    by (simp_all add: port_line_def stripped_def starts_with_equals_def cstr_def isspace_def NUL_def
        zero_conf_def)
  then show ?thesis
    using parse_line_faults_iff [OF conf_wf_zero] by blast
qed

end
