(* ===== verification/Reader.thy ===== *)
theory Reader
  imports Conf
begin

text \<open>
  Reading the configuration file with a fixed line buffer is the same as splitting the file at
  its newlines, cutting lines that exceed the buffer, and parsing the pieces one after the other.
\<close>

abbreviation newline :: char where "newline \<equiv> CHR 0x0A"

section \<open>The reference\<close>

lemma rest_shorter: "s \<noteq> [] \<Longrightarrow> length (tl (dropWhile P s)) < length s"
  using length_dropWhile_le [of P s] by (cases s) (auto simp: less_Suc_eq_le)

function split_lines :: "string \<Rightarrow> string list" where
  "split_lines s = (if s = [] then []
     else takeWhile (\<lambda>c. c \<noteq> newline) s # split_lines (tl (dropWhile (\<lambda>c. c \<noteq> newline) s)))"
  by pat_completeness auto
termination
  by (relation "measure length") (auto simp: rest_shorter simp del: length_tl)

declare split_lines.simps [simp del]

fun parse_all :: "target \<Rightarrow> nat \<Rightarrow> string list \<Rightarrow> conf \<Rightarrow> conf_error + conf" where
  "parse_all tgt ln [] c = Inr c"
| "parse_all tgt ln (l # ls) c =
     (case parse_line tgt (ln + 1) l c of Inl e \<Rightarrow> Inl e | Inr c' \<Rightarrow> parse_all tgt (ln + 1) ls c')"

text \<open>The lines with their newlines, and the pieces of a line.\<close>

function whole_lines :: "string \<Rightarrow> string list" where
  "whole_lines s = (if s = [] then []
     else (takeWhile (\<lambda>c. c \<noteq> newline) s @ take 1 (dropWhile (\<lambda>c. c \<noteq> newline) s))
       # whole_lines (tl (dropWhile (\<lambda>c. c \<noteq> newline) s)))"
  by pat_completeness auto
termination
  by (relation "measure length") (auto simp: rest_shorter simp del: length_tl)

declare whole_lines.simps [simp del]

function cut :: "nat \<Rightarrow> string \<Rightarrow> string list" where
  "cut n s = (if length s \<le> n \<or> n = 0 then [s] else take n s # cut n (drop n s))"
  by pat_completeness auto
termination
  by (relation "measure (\<lambda>(n, s). length s)") auto

declare cut.simps [simp del]

lemma whole_lines_Nil [simp]: "whole_lines [] = []"
  by (simp add: whole_lines.simps)

lemma cut_short: "length s \<le> n \<Longrightarrow> cut n s = [s]"
  by (subst cut.simps) simp

lemma cut_long: "n < length s \<Longrightarrow> 0 < n \<Longrightarrow> cut n s = take n s # cut n (drop n s)"
  by (subst cut.simps) simp

section \<open>One line\<close>

lemma isspace_newline: "isspace newline"
  by (simp add: isspace_def)

lemma parse_line_newline: "parse_line tgt ln (l @ [newline]) c = parse_line tgt ln l c"
proof (cases "NUL \<in> set l")
  case True
  then have "cstr (l @ [newline]) = cstr l"
    using takeWhile_append1 [of NUL l "\<lambda>c. c \<noteq> NUL" "[newline]"] by (simp add: cstr_def)
  then show ?thesis
    by (simp add: parse_line_def)
next
  case False
  then have s: "cstr l = l" "cstr (l @ [newline]) = l @ [newline]"
    by (auto simp: cstr_def NUL_def takeWhile_eq_all_conv)
  show ?thesis
  proof (cases "\<forall>x \<in> set l. isspace x")
    case True
    then have d: "dropWhile isspace l = []" "dropWhile isspace (l @ [newline]) = []"
      by (simp_all add: isspace_newline)
    show ?thesis
      unfolding parse_line_def s Let_def d by simp
  next
    case False
    then have d: "dropWhile isspace (l @ [newline]) = dropWhile isspace l @ [newline]"
      by (simp add: dropWhile_append)
    then show ?thesis
      unfolding parse_line_def s Let_def d append_same_eq by (simp add: isspace_newline)
  qed
qed

lemma fgets_end: "length s < n \<Longrightarrow> newline \<notin> set s \<Longrightarrow> fgets n s = (s, [])"
proof (induction s arbitrary: n)
  case Nil
  then show ?case by (cases n) auto
next
  case (Cons c s)
  then show ?case by (cases n) auto
qed

text \<open>The pieces of the file one after the other are what \<^verbatim>\<open>fgets\<close> delivers.\<close>

lemma whole_lines_parts:
  "newline \<notin> set u \<Longrightarrow> whole_lines (u @ newline # r) = (u @ [newline]) # whole_lines r"
  "newline \<notin> set u \<Longrightarrow> u \<noteq> [] \<Longrightarrow> whole_lines u = [u]"
proof -
  assume u: "newline \<notin> set u"
  then have "takeWhile (\<lambda>c. c \<noteq> newline) (u @ newline # r) = u" "dropWhile (\<lambda>c. c \<noteq> newline) (u @ newline # r) = newline # r"
    by (induction u) auto
  then show "whole_lines (u @ newline # r) = (u @ [newline]) # whole_lines r"
    by (subst whole_lines.simps) simp
next
  assume u: "newline \<notin> set u" "u \<noteq> []"
  then have parts: "takeWhile (\<lambda>c. c \<noteq> newline) u = u" "dropWhile (\<lambda>c. c \<noteq> newline) u = []"
    by (induction u) auto
  show "whole_lines u = [u]"
    unfolding whole_lines.simps [of u] parts using u(2) by simp
qed

lemma line_cases:
  assumes "s \<noteq> []"
  obtains "newline \<notin> set s" | u r where "s = u @ newline # r" "newline \<notin> set u"
proof (cases "newline \<in> set s")
  case True
  then show ?thesis
    using that(2) by (metis split_list_first)
qed (rule that(1))

lemma fgets_long: "n \<le> length s \<Longrightarrow> newline \<notin> set (take n s) \<Longrightarrow> fgets n s = (take n s, drop n s)"
  by (induction n s rule: fgets.induct) auto

definition pieces :: "nat \<Rightarrow> string \<Rightarrow> string list" where
  "pieces n s = concat (map (cut n) (whole_lines s))"

lemma pieces_Nil [simp]: "pieces n [] = []"
  by (simp add: pieces_def)

lemma fgets_pieces:
  assumes n: "0 < n" and s: "s \<noteq> []"
  shows "pieces n s = fst (fgets n s) # pieces n (snd (fgets n s))"
  using s
proof (cases rule: line_cases)
  case 1
  show ?thesis
  proof (cases "length s \<le> n")
    case True
    then have "fgets n s = (s, [])"
      using 1 fgets_end [of s n] fgets_long [of n s] by (cases "length s = n") simp_all
    then show ?thesis
      using True 1 s by (simp add: pieces_def whole_lines_parts cut_short)
  next
    case False
    have "newline \<notin> set (take n s)" "newline \<notin> set (drop n s)"
      using 1 by (auto dest: in_set_takeD in_set_dropD)
    then show ?thesis
      using False 1 s n fgets_long [of n s] by (simp add: pieces_def whole_lines_parts cut_long)
  qed
next
  case (2 u r)
  show ?thesis
  proof (cases "length u < n")
    case True
    then show ?thesis
      using 2 fgets_line [of u n r] by (simp add: pieces_def whole_lines_parts cut_short)
  next
    case False
    have "newline \<notin> set (take n u)" "newline \<notin> set (drop n u)"
      using 2(2) by (auto dest: in_set_takeD in_set_dropD)
    then show ?thesis
      using False 2 n fgets_long [of n s] by (simp add: pieces_def whole_lines_parts cut_long)
  qed
qed

lemma read_pieces: "read_lines tgt ln s c = parse_all tgt ln (pieces (LINE_MAX - 1) s) c"
proof (induction s arbitrary: ln c rule: measure_induct_rule [of length])
  case (less s)
  show ?case
  proof (cases "s = []")
    case True
    then show ?thesis
      by (simp add: read_lines.simps)
  next
    case False
    have n: "0 < LINE_MAX - 1"
      by (simp add: LINE_MAX_def)
    have "length (snd (fgets (LINE_MAX - 1) s)) < length s"
      by (rule fgets_progress [OF n False prod.collapse [symmetric]])
    then show ?thesis
      using less.IH False unfolding read_lines.simps [of tgt ln s c] fgets_pieces [OF n False] by (simp split: sum.split)
  qed
qed

lemma read_short_lines:
  assumes "\<forall>l \<in> set (split_lines s). length l < LINE_MAX - 1"
  shows "read_lines tgt ln s c = parse_all tgt ln (split_lines s) c"
  using assms
proof (induction s arbitrary: ln c rule: split_lines.induct)
  case (1 s)
  show ?case
  proof (cases "s = []")
    case True
    then show ?thesis
      by (simp add: read_lines.simps split_lines.simps)
  next
    case False
    let ?l = "takeWhile (\<lambda>c. c \<noteq> newline) s" and ?r = "tl (dropWhile (\<lambda>c. c \<noteq> newline) s)"
    have ls: "split_lines s = ?l # split_lines ?r"
      using False by (subst split_lines.simps) simp
    have short: "length ?l < LINE_MAX - 1" "newline \<notin> set ?l"
      using "1.prems" ls by (auto dest: set_takeWhileD)
    have fg: "\<exists>l. fgets (LINE_MAX - 1) s = (l, ?r) \<and> parse_line tgt (ln + 1) l c = parse_line tgt (ln + 1) ?l c"
    proof (cases "dropWhile (\<lambda>c. c \<noteq> newline) s")
      case Nil
      then have "s = ?l"
        by (metis append_Nil2 takeWhile_dropWhile_id)
      then have "fgets (LINE_MAX - 1) s = (?l, [])"
        using fgets_end [of ?l "LINE_MAX - 1"] short by simp
      then show ?thesis
        unfolding Nil by simp
    next
      case (Cons x r)
      then have "x = newline"
        using hd_dropWhile [of "\<lambda>c. c \<noteq> newline" s] by simp
      then have "s = ?l @ newline # r"
        using Cons takeWhile_dropWhile_id [of "\<lambda>c. c \<noteq> newline" s] by simp
      then have "fgets (LINE_MAX - 1) s = (?l @ [newline], ?r)"
        using fgets_line [of ?l "LINE_MAX - 1" r] short Cons by simp
      then show ?thesis
        using parse_line_newline by blast
    qed
    then obtain l where "fgets (LINE_MAX - 1) s = (l, ?r)" "parse_line tgt (ln + 1) l c = parse_line tgt (ln + 1) ?l c"
      by blast
    moreover have "read_lines tgt (ln + 1) ?r c' = parse_all tgt (ln + 1) (split_lines ?r) c'" for c'
      using "1.IH" [OF False] "1.prems" ls by simp
    ultimately show ?thesis
      using False unfolding read_lines.simps [of tgt ln s c] ls by (simp split: sum.split)
  qed
qed

text \<open>So what follows the 1023rd character of a comment is read as a line of its own.\<close>

lemma parse_comment: "parse_line tgt ln (CHR ''#'' # s) c = Inr c"
proof -
  have s: "cstr (CHR ''#'' # s) = CHR ''#'' # cstr s" "dropWhile isspace (CHR ''#'' # cstr s) = CHR ''#'' # cstr s"
    by (simp_all add: cstr_def NUL_def isspace_def)
  have "dropWhile isspace [CHR ''#''] = [CHR ''#'']"
    by (simp add: isspace_def)
  then have "hd (rev (dropWhile isspace (rev (cstr s) @ [CHR ''#'']))) = CHR ''#''"
    by (simp add: dropWhile_append)
  then show ?thesis
    unfolding parse_line_def Let_def s by simp
qed

lemma long_comment_is_parsed:
  assumes "length s = LINE_MAX - 2" and "newline \<notin> set s" "newline \<notin> set t" and "t \<noteq> []" "length t < LINE_MAX"
  shows "read_lines tgt ln (CHR ''#'' # s @ t) c = parse_all tgt (ln + 1) [t] c"
proof -
  have "whole_lines (CHR ''#'' # s @ t) = [CHR ''#'' # s @ t]"
    using assms(2,3) whole_lines_parts(2) [of "CHR ''#'' # s @ t"] by simp
  then have "pieces (LINE_MAX - 1) (CHR ''#'' # s @ t) = cut (LINE_MAX - 1) (CHR ''#'' # s @ t)"
    by (simp add: pieces_def)
  also have "\<dots> = [CHR ''#'' # s, t]"
    using assms(1,4,5) by (simp add: LINE_MAX_def cut_long cut_short)
  finally show ?thesis
    by (simp add: read_pieces parse_comment)
qed

section \<open>Properties\<close>

text \<open>
  C26. The reader is its specification, for every file: reading through \<^verbatim>\<open>buf\<close> gives the same
  configuration or the same error, with the same line number, as cutting the lines of the file,
  newline included, into pieces of 1023 characters and parsing the pieces in order. When every
  line is shorter than the buffer less newline and terminator, the pieces can be replaced by the
  lines, and a last line without a newline counts as a line.
\<close>

theorem read_lines_is_parse_all:
  "read_lines tgt ln s c = parse_all tgt ln (pieces (LINE_MAX - 1) s) c
   \<and> ((\<forall>l \<in> set (split_lines s). length l < LINE_MAX - 1) \<longrightarrow> read_lines tgt ln s c = parse_all tgt ln (split_lines s) c)"
  using read_pieces read_short_lines by blast

theorem read_lines_is_parse_all_witness:
  "read_lines Linux 0 demo_file zero_conf = parse_all Linux 0 (pieces (LINE_MAX - 1) demo_file) zero_conf
   \<and> read_lines Linux 0 demo_file zero_conf = parse_all Linux 0 (split_lines demo_file) zero_conf"
proof -
  have "\<forall>l \<in> set (split_lines demo_file). length l < LINE_MAX - 1"
    by (simp add: demo_file_def split_lines.simps LINE_MAX_def)
  then show ?thesis
    using read_lines_is_parse_all by blast
qed

end
