(* ===== verification/Thirdparty.thy ===== *)
theory Thirdparty
  imports Prelude
begin

text \<open>
  What the program calls and does not contain: libsodium and lz4. Their functions are the
  fields of a record that every operation using them takes as an argument; nothing is
  defined about them. \<open>lz4_ok\<close> and \<open>rng_ok\<close> state what their documentation promises
  and the program relies on.

  \<^item> \<open>blake2b L n m k i\<close> is byte \<open>i\<close> of \<^verbatim>\<open>crypto_generichash_blake2b\<close> with output
    length \<open>n\<close>, message \<open>m\<close> and key \<open>k\<close>, so an output of \<open>n\<close> bytes is read off by
    \<open>generichash\<close>;
  \<^item> \<open>chacha20 L k v i\<close> is byte \<open>i\<close> of the key stream of \<^verbatim>\<open>crypto_stream_chacha20\<close>
    for key \<open>k\<close> and nonce \<open>v\<close>; \<^verbatim>\<open>crypto_stream_chacha20_xor\<close> adds it bytewise;
  \<^item> \<open>lz4_compress L s c\<close> is what \<^verbatim>\<open>LZ4_compress_default\<close> writes for source \<open>s\<close> and
    capacity \<open>c\<close>; its length is the return value, so \<open>[]\<close> is its failure;
  \<^item> \<open>lz4_decompress L s c\<close> is what \<^verbatim>\<open>LZ4_decompress_safe\<close> writes, or \<open>None\<close> where
    it returns a negative number.
\<close>

record lib =
  blake2b :: "nat \<Rightarrow> byte list \<Rightarrow> byte list \<Rightarrow> nat \<Rightarrow> byte"
  chacha20 :: "byte list \<Rightarrow> byte list \<Rightarrow> nat \<Rightarrow> byte"
  lz4_compress :: "byte list \<Rightarrow> nat \<Rightarrow> byte list"
  lz4_decompress :: "byte list \<Rightarrow> nat \<Rightarrow> byte list option"

definition lz4_ok :: "lib \<Rightarrow> bool" where
  "lz4_ok L \<longleftrightarrow>
     (\<forall>s c. length (lz4_compress L s c) \<le> c) \<and>
     (\<forall>s c d. lz4_decompress L s c = Some d \<longrightarrow> length d \<le> c) \<and>
     (\<forall>s c c'. lz4_compress L s c \<noteq> [] \<longrightarrow> length s \<le> c' \<longrightarrow>
        lz4_decompress L (lz4_compress L s c) c' = Some s)"

lemma lz4_ok_compress: "lz4_ok L \<Longrightarrow> length (lz4_compress L s c) \<le> c"
  by (simp add: lz4_ok_def)

lemma lz4_ok_decompress: "lz4_ok L \<Longrightarrow> lz4_decompress L s c = Some d \<Longrightarrow> length d \<le> c"
  by (simp add: lz4_ok_def)

lemma lz4_ok_roundtrip:
  "lz4_ok L \<Longrightarrow> lz4_compress L s c \<noteq> [] \<Longrightarrow> length s \<le> c' \<Longrightarrow>
     lz4_decompress L (lz4_compress L s c) c' = Some s"
  by (simp add: lz4_ok_def)

text \<open>
  The random values libsodium hands out during one call of \<^verbatim>\<open>encapsulate\<close>:
  \<^verbatim>\<open>randombytes_uniform\<close> as a function of its bound, and the contents of the two
  \<^verbatim>\<open>randombytes_buf\<close> calls.
\<close>

record rng =
  rng_uniform :: "nat \<Rightarrow> nat"
  rng_pad :: "nat \<Rightarrow> byte"
  rng_nonce :: "nat \<Rightarrow> byte"

definition rng_ok :: "rng \<Rightarrow> bool" where
  "rng_ok r \<longleftrightarrow> (\<forall>n > 0. rng_uniform r n < n)"

lemma rng_okD: "rng_ok r \<Longrightarrow> 0 < n \<Longrightarrow> rng_uniform r n < n"
  by (simp add: rng_ok_def)

definition generichash :: "lib \<Rightarrow> nat \<Rightarrow> byte list \<Rightarrow> byte list \<Rightarrow> byte list" where
  "generichash L outlen inp k = map (blake2b L outlen inp k) [0..<outlen]"

lemma length_generichash [simp]: "length (generichash L n m k) = n"
  by (simp add: generichash_def)

section \<open>Adding a key stream\<close>

definition xor_stream :: "(nat \<Rightarrow> byte) \<Rightarrow> byte list \<Rightarrow> byte list" where
  "xor_stream ks bs = map2 (XOR) bs (map ks [0..<length bs])"

lemma length_xor_stream [simp]: "length (xor_stream ks bs) = length bs"
  by (simp add: xor_stream_def)

lemma nth_xor_stream [simp]: "i < length bs \<Longrightarrow> xor_stream ks bs ! i = bs ! i XOR ks i"
  by (simp add: xor_stream_def)

lemma xor_stream_involution [simp]: "xor_stream ks (xor_stream ks bs) = bs"
  by (rule nth_equalityI) (simp_all add: xor.assoc)

lemma take_xor_stream: "take n (xor_stream ks bs) = xor_stream ks (take n bs)"
  by (rule nth_equalityI) simp_all

text \<open>A stream cipher is malleable: adding to the ciphertext adds to the plaintext.\<close>

lemma xor_cancel: "a XOR k XOR d XOR k = a XOR (d :: byte)"
  by (rule bit_word_eqI) (auto simp: bit_simps)

lemma xor_stream_update:
  "i < length bs \<Longrightarrow>
     xor_stream ks ((xor_stream ks bs)[i := xor_stream ks bs ! i XOR d]) = bs[i := bs ! i XOR d]"
  by (rule nth_equalityI) (auto simp: nth_list_update xor.assoc xor_cancel)

section \<open>An instance\<close>

text \<open>
  A concrete library and concrete random values that satisfy the promises, for the closed
  instances of the theorems: the compressor stores a run of one byte as the byte and the
  length of the run.
\<close>

definition run_compress :: "byte list \<Rightarrow> nat \<Rightarrow> byte list" where
  "run_compress s c =
     (if 3 \<le> c \<and> s \<noteq> [] \<and> length s < 65536 \<and> s = replicate (length s) (hd s)
      then hd s # le16 (word_of_nat (length s)) else [])"

definition run_decompress :: "byte list \<Rightarrow> nat \<Rightarrow> byte list option" where
  "run_decompress s c =
     (case s of
        [b, x, y] \<Rightarrow> (let n = unat (get_le16 [x, y]) in if n \<le> c then Some (replicate n b) else None)
      | _ \<Rightarrow> None)"

definition demo_lib :: lib where
  "demo_lib = \<lparr>blake2b = (\<lambda>n m k i. word_of_nat (length m + 3 * length k + i)),
     chacha20 = (\<lambda>k v i. word_of_nat (7 * i + 1)),
     lz4_compress = run_compress, lz4_decompress = run_decompress\<rparr>"

definition demo_rng :: rng where
  "demo_rng = \<lparr>rng_uniform = (\<lambda>n. n - 1), rng_pad = (\<lambda>i. word_of_nat (i + 100)),
     rng_nonce = (\<lambda>i. word_of_nat (i + 1))\<rparr>"

lemma run_roundtrip:
  assumes "run_compress s c \<noteq> []" and "length s \<le> c'"
  shows "run_decompress (run_compress s c) c' = Some s"
proof -
  have s: "s \<noteq> []" "length s < 65536" "s = replicate (length s) (hd s)" "3 \<le> c"
    using assms(1) by (auto simp: run_compress_def split: if_splits)
  then have rc: "run_compress s c = hd s # le16 (word_of_nat (length s))"
    by (simp add: run_compress_def)
  moreover have "unat (word_of_nat (length s) :: u16) = length s"
    using s by (simp add: unat_of_nat)
  moreover have "get_le16 [x, y] = w" if "le16 w = [x, y]" for x y w
    using that by (metis get_le16_le16)
  ultimately show ?thesis
    using s(3) assms(2) by (simp add: run_decompress_def le16_def)
qed

lemma demo_lz4_ok: "lz4_ok demo_lib"
proof -
  have "length (run_compress s c) \<le> c" for s c
    by (simp add: run_compress_def)
  moreover have "length d \<le> c" if "run_decompress s c = Some d" for s c d
    using that by (auto simp: run_decompress_def Let_def split: list.splits if_splits)
  ultimately show ?thesis
    by (simp add: lz4_ok_def demo_lib_def run_roundtrip)
qed

lemma demo_rng_ok: "rng_ok demo_rng"
  by (simp add: rng_ok_def demo_rng_def)

end
