(* ===== verification/Compress.thy ===== *)
theory Compress
  imports Packet Thirdparty
begin

text \<open>
  src/compress.c: compressing and decompressing the payload of a packet in place through a
  2048-byte stack buffer.
\<close>

definition compress :: "lib \<Rightarrow> pbuf \<Rightarrow> pbuf res" where
  "compress L p = bind_res (mem_read PAYLOAD_OFFSET (unat (len p)) p) (\<lambda>src.
     let out = lz4_compress L src 2048;
         outlen = int (length out)
     in if outlen > 0 \<and> outlen < uint (len p)
        then bind_res (mem_write PAYLOAD_OFFSET out p) (\<lambda>p1.
          Inr (p1\<lparr>len := word_of_int outlen, flag := flag p1 OR FLAG_COMPRESS\<rparr>))
        else Inr p)"

text \<open>\<open>None\<close> is a negative \<^verbatim>\<open>outlen\<close>; both it and 0 fail the assertion.\<close>

definition decompress :: "lib \<Rightarrow> pbuf \<Rightarrow> pbuf res" where
  "decompress L p =
     (if flag p AND FLAG_COMPRESS \<noteq> 0
      then bind_res (mem_read PAYLOAD_OFFSET (unat (len p)) p) (\<lambda>src.
        let out = lz4_decompress L src 2048;
            outlen = (case out of None \<Rightarrow> -1 | Some d \<Rightarrow> int (length d))
        in bind_res (assert_res (outlen > 0)) (\<lambda>_.
          bind_res (mem_write PAYLOAD_OFFSET (the out) p) (\<lambda>p1.
            Inr (p1\<lparr>len := word_of_int outlen\<rparr>))))
      else Inr p)"

section \<open>Behaviour\<close>

text \<open>The data a packet carries.\<close>

definition contents :: "pbuf \<Rightarrow> byte list" where
  "contents p = take (unat (len p)) (payload p)"

lemma mem_read_contents:
  "wf_pbuf p \<Longrightarrow> unat (len p) \<le> 2048 \<Longrightarrow>
     mem_read PAYLOAD_OFFSET (unat (len p)) p = Inr (contents p)"
  using mem_read_payload [of p 0 "unat (len p)"]
  by (simp add: contents_def PAYLOAD_OFFSET_def)

lemma mem_write_front:
  "wf_pbuf p \<Longrightarrow> length ds \<le> 2048 \<Longrightarrow>
     mem_write PAYLOAD_OFFSET ds p = Inr (p\<lparr>payload := write_at 0 ds (payload p)\<rparr>)"
  using mem_write_payload [of p 0 ds] by (simp add: PAYLOAD_OFFSET_def)

lemma length_contents:
  "wf_pbuf p \<Longrightarrow> unat (len p) \<le> 2048 \<Longrightarrow> length (contents p) = unat (len p)"
  by (simp add: contents_def wf_pbuf_def)

definition shrinks :: "lib \<Rightarrow> pbuf \<Rightarrow> bool" where
  "shrinks L p \<longleftrightarrow> (let out = lz4_compress L (contents p) 2048
     in out \<noteq> [] \<and> length out < unat (len p))"

definition compressed :: "lib \<Rightarrow> pbuf \<Rightarrow> pbuf" where
  "compressed L p = (let out = lz4_compress L (contents p) 2048
     in p\<lparr>payload := write_at 0 out (payload p), len := word_of_nat (length out),
          flag := flag p OR FLAG_COMPRESS\<rparr>)"

lemma compress_eq:
  assumes "wf_pbuf p" and "unat (len p) \<le> 2048"
  shows "compress L p = Inr (if shrinks L p then compressed L p else p)"
proof -
  let ?out = "lz4_compress L (contents p) 2048"
  have "int (length ?out) < uint (len p) \<longleftrightarrow> length ?out < unat (len p)"
    by (metis of_nat_less_iff of_nat_unat)
  moreover have "length ?out \<le> 2048 \<Longrightarrow>
      mem_write PAYLOAD_OFFSET ?out p = Inr (p\<lparr>payload := write_at 0 ?out (payload p)\<rparr>)"
    using assms by (simp add: mem_write_front)
  ultimately show ?thesis
    using assms by (auto simp: compress_def mem_read_contents shrinks_def compressed_def Let_def)
qed

lemma compressed_fields:
  assumes "wf_pbuf p" and "unat (len p) \<le> 2048" and "shrinks L p"
  shows "wf_pbuf (compressed L p)"
    and "unat (len (compressed L p)) = length (lz4_compress L (contents p) 2048)"
    and "contents (compressed L p) = lz4_compress L (contents p) 2048"
    and "flag (compressed L p) = flag p OR FLAG_COMPRESS"
    and "0 < unat (len (compressed L p))" and "unat (len (compressed L p)) < unat (len p)"
proof -
  let ?out = "lz4_compress L (contents p) 2048"
  have out: "0 < length ?out" "length ?out < unat (len p)" "length ?out < 65536"
    using assms(2,3) by (auto simp: shrinks_def Let_def)
  show "unat (len (compressed L p)) = length ?out"
    using out by (simp add: compressed_def Let_def unat_of_nat)
  then show "0 < unat (len (compressed L p))" and "unat (len (compressed L p)) < unat (len p)"
    and "contents (compressed L p) = ?out"
    using out by (simp_all add: contents_def compressed_def Let_def write_at_def)
  show "wf_pbuf (compressed L p)" and "flag (compressed L p) = flag p OR FLAG_COMPRESS"
    using assms out by (simp_all add: compressed_def Let_def wf_pbuf_def)
qed

lemma flag_compress_set [simp]: "(f OR FLAG_COMPRESS) AND FLAG_COMPRESS \<noteq> 0"
proof -
  have "bit ((f OR FLAG_COMPRESS) AND FLAG_COMPRESS) 0"
    by (simp add: FLAG_COMPRESS_def bit_simps)
  then show ?thesis by auto
qed

lemma decompress_plain: "flag p AND FLAG_COMPRESS = 0 \<Longrightarrow> decompress L p = Inr p"
  by (simp add: decompress_def)

text \<open>A successful decompression puts the data in front of the payload and sets the length.\<close>

lemma decompress_eq:
  assumes "wf_pbuf p" and "unat (len p) \<le> 2048" and "flag p AND FLAG_COMPRESS \<noteq> 0"
    and "lz4_decompress L (contents p) 2048 = Some d" and "0 < length d" and "length d \<le> 2048"
  shows "decompress L p =
    Inr (p\<lparr>payload := write_at 0 d (payload p), len := word_of_nat (length d)\<rparr>)"
  using assms by (auto simp: decompress_def mem_read_contents mem_write_front Let_def)

text \<open>Data that does not decompress aborts the process.\<close>

lemma decompress_aborts:
  assumes "wf_pbuf p" and "unat (len p) \<le> 2048" and "flag p AND FLAG_COMPRESS \<noteq> 0"
    and "lz4_decompress L (contents p) 2048 \<in> {None, Some []}"
  shows "decompress L p = Inl AssertFailed"
  using assms by (auto simp: decompress_def mem_read_contents Let_def)

lemma decompress_result:
  assumes "lz4_ok L" and "wf_pbuf p" and "unat (len p) \<le> 2048"
  shows "(\<exists>p'. decompress L p = Inr p' \<and> wf_pbuf p' \<and> unat (len p') \<le> 2048
            \<and> flag p' = flag p \<and> (len p \<noteq> 0 \<longrightarrow> len p' \<noteq> 0))
       \<or> decompress L p = Inl AssertFailed \<and> flag p AND FLAG_COMPRESS \<noteq> 0
            \<and> lz4_decompress L (contents p) 2048 \<in> {None, Some []}"
proof (cases "flag p AND FLAG_COMPRESS = 0")
  case True
  with assms show ?thesis by (simp add: decompress_plain)
next
  case False
  show ?thesis
  proof (cases "lz4_decompress L (contents p) 2048 \<in> {None, Some []}")
    case True
    with False assms show ?thesis by (simp add: decompress_aborts)
  next
    case nofail: False
    then obtain d where d: "lz4_decompress L (contents p) 2048 = Some d" "0 < length d"
      by (cases "lz4_decompress L (contents p) 2048") auto
    have "length d \<le> 2048"
      by (rule lz4_ok_decompress [OF assms(1) d(1)])
    moreover from this d(2) have "(word_of_nat (length d) :: u16) \<noteq> 0"
      using dvd_imp_le [of 65536 "length d"] by (auto simp: word_of_nat_eq_0_iff)
    ultimately show ?thesis
      using assms False d by (simp add: decompress_eq unat_of_nat wf_pbuf_def)
  qed
qed

end
