(* ===== verification/Crypto.thy ===== *)
theory Crypto
  imports Packet Thirdparty Cstring
begin

text \<open>
  src/crypto.c: the static key, the keyed hash and the encryption and decryption of a packet
  in place. The key is passed as an argument and returned by \<open>crypto_init\<close>.
\<close>

section \<open>Keys and hashes\<close>

definition to_bytes :: "string \<Rightarrow> byte list" where
  "to_bytes s = map of_char s"

text \<open>\<open>sodium\<close> is what \<^verbatim>\<open>sodium_init\<close> returned.\<close>

definition crypto_init :: "lib \<Rightarrow> int \<Rightarrow> char list \<Rightarrow> byte list \<Rightarrow> int \<times> byte list" where
  "crypto_init L sodium k key =
     (if sodium = -1 then (-1, key) else (0, generichash L 32 (to_bytes (cstr k)) []))"

definition hmac :: "lib \<Rightarrow> byte list \<Rightarrow> byte list \<Rightarrow> byte list" where
  "hmac L key inp = generichash L 16 inp key"

definition crypto_hmac :: "lib \<Rightarrow> byte list \<Rightarrow> pbuf \<Rightarrow> pbuf res" where
  "crypto_hmac L key p = bind_res (mem_read PAYLOAD_OFFSET (unat (len p)) p) (\<lambda>inp.
     let mac = generichash L 16 inp key
     in Inr (p\<lparr>chksum := get_le32 (take 4 mac)\<rparr>))"

definition factor :: "int \<Rightarrow> byte list" where
  "factor token = [of_int token, of_int (token div 256)]"

definition onetimekey :: "lib \<Rightarrow> byte list \<Rightarrow> int \<Rightarrow> byte list" where
  "onetimekey L key token = generichash L 32 key (factor token)"

section \<open>The stream cipher over the struct\<close>

text \<open>\<open>l\<close> bytes from \<^verbatim>\<open>CRYPTO_START\<close> on; a negative \<open>l\<close> is a huge \<^verbatim>\<open>unsigned long long\<close>.\<close>

definition stream_xor :: "lib \<Rightarrow> byte list \<Rightarrow> int \<Rightarrow> pbuf \<Rightarrow> pbuf res" where
  "stream_xor L okey l p =
     (if l < 0 then Inl OutOfBounds
      else bind_res (mem_read CRYPTO_START (nat l) p) (\<lambda>bs.
        mem_write CRYPTO_START (xor_stream (chacha20 L okey (nonce p)) bs) p))"

definition crypto_encrypt :: "lib \<Rightarrow> byte list \<Rightarrow> rng \<Rightarrow> int \<Rightarrow> pbuf \<Rightarrow> pbuf res" where
  "crypto_encrypt L key r token p =
     (let p1 = p\<lparr>nonce := map (rng_nonce r) [0..<8]\<rparr>
      in bind_res (crypto_hmac L key p1) (\<lambda>p2.
        let l = CRYPTO_LEN p2;
            p3 = p2\<lparr>flag := htons (flag p2), len := htons (len p2)\<rparr>
        in stream_xor L (onetimekey L key token) l p3))"

definition crypto_decrypt :: "lib \<Rightarrow> byte list \<Rightarrow> int \<Rightarrow> pbuf \<Rightarrow> int \<Rightarrow> (int \<times> pbuf) res" where
  "crypto_decrypt L key token p n =
     bind_res (stream_xor L (onetimekey L key token) (n - int CRYPTO_NONCE_LEN) p) (\<lambda>p1.
       let p2 = p1\<lparr>flag := ntohs (flag p1), len := ntohs (len p1)\<rparr>
       in if unat (len p2) > sizeof_payload then Inr (-1, p2)
          else bind_res (crypto_hmac L key p2) (\<lambda>p3.
            Inr (if chksum p2 = chksum p3 then 0 else -1, p3)))"

section \<open>Behaviour\<close>

definition mac32 :: "lib \<Rightarrow> byte list \<Rightarrow> byte list \<Rightarrow> u32" where
  "mac32 L key m = get_le32 (take 4 (hmac L key m))"

text \<open>On a payload that fits, the checksum is the first four bytes of its keyed hash.\<close>

lemma crypto_hmac_eq:
  "wf_pbuf p \<Longrightarrow> unat (len p) \<le> 2048 \<Longrightarrow>
     crypto_hmac L key p = Inr (p\<lparr>chksum := mac32 L key (take (unat (len p)) (payload p))\<rparr>)"
  using mem_read_payload [of p 0 "unat (len p)"]
  by (simp add: crypto_hmac_def mac32_def hmac_def PAYLOAD_OFFSET_def)

lemma stream_xor_eq:
  "wf_pbuf p \<Longrightarrow> 0 \<le> l \<Longrightarrow> l \<le> 2064 \<Longrightarrow>
     stream_xor L okey l p = Inr (pb.store 8
       (xor_stream (chacha20 L okey (nonce p)) (slice_at 8 (nat l) (pbuf_bytes p))) p)"
  by (simp add: stream_xor_def mem_read_def layout_defs mem_write_store nat_le_iff)

lemma stream_xor_bytes:
  "wf_pbuf p \<Longrightarrow> 8 + m \<le> 2072 \<Longrightarrow> stream_xor L okey (int m) p = Inr e \<Longrightarrow>
     pbuf_bytes e = write_at 8 (xor_stream (chacha20 L okey (nonce p)) (slice_at 8 m (pbuf_bytes p)))
       (pbuf_bytes p)"
  by (auto simp: stream_xor_eq pb.put_store)

lemma stream_xor_fault:
  "wf_pbuf p \<Longrightarrow> l < 0 \<or> 2064 < l \<Longrightarrow> stream_xor L okey l p = Inl OutOfBounds"
  by (auto simp: stream_xor_def mem_read_def layout_defs nat_le_iff)

text \<open>
  The plaintext image \<open>sealed\<close>: nonce and checksum filled in, flag and length in network order.
\<close>

definition plain :: "lib \<Rightarrow> byte list \<Rightarrow> rng \<Rightarrow> pbuf \<Rightarrow> pbuf" where
  "plain L key r p = p\<lparr>nonce := map (rng_nonce r) [0..<8],
     chksum := mac32 L key (take (unat (len p)) (payload p))\<rparr>"

definition sealed :: "lib \<Rightarrow> byte list \<Rightarrow> rng \<Rightarrow> pbuf \<Rightarrow> pbuf" where
  "sealed L key r p = (plain L key r p)\<lparr>flag := htons (flag p), len := htons (len p)\<rparr>"

lemma wf_plain: "wf_pbuf p \<Longrightarrow> wf_pbuf (plain L key r p)"
  by (simp add: wf_pbuf_def plain_def)

lemma wf_sealed: "wf_pbuf p \<Longrightarrow> wf_pbuf (sealed L key r p)"
  by (simp add: sealed_def wf_plain)

text \<open>The padding counts as \<open>d\<close> bytes.\<close>

definition pads :: "nat \<Rightarrow> pbuf \<Rightarrow> bool" where
  "pads d p \<longleftrightarrow> sint (padding p) = int d \<and> unat (len p) + d \<le> 2048"

lemma CRYPTO_LEN_eq:
  assumes "pads d p"
  shows "CRYPTO_LEN p = int (12 + unat (len p) + d)"
proof -
  have d: "sint (padding p) = int d" and "unat (len p) + d \<le> 2048"
    using assms by (simp_all add: pads_def)
  from of_nat_mono [OF this(2), where 'a = int] have "uint (len p) + int d \<le> 2048"
    by simp
  with d show ?thesis
    unfolding CRYPTO_LEN_def layout_defs by (simp add: signed_take_bit_int_eq_self_iff)
qed

lemma crypto_encrypt_eq:
  assumes wf: "wf_pbuf p" and pads: "pads d p"
  shows "crypto_encrypt L key r token p =
    stream_xor L (onetimekey L key token) (int (12 + unat (len p) + d)) (sealed L key r p)"
proof -
  let ?p1 = "p\<lparr>nonce := map (rng_nonce r) [0..<8]\<rparr>"
  have "wf_pbuf ?p1" "unat (len ?p1) \<le> 2048"
    using wf pads by (simp_all add: wf_pbuf_def pads_def)
  then have hm: "crypto_hmac L key ?p1 = Inr (plain L key r p)"
    by (simp add: crypto_hmac_eq plain_def)
  have "pads d (plain L key r p)"
    using pads by (simp add: pads_def plain_def)
  then have "CRYPTO_LEN (plain L key r p) = int (12 + unat (len p) + d)"
    by (simp add: CRYPTO_LEN_eq plain_def)
  then show ?thesis
    unfolding crypto_encrypt_def Let_def hm
    by (simp add: sealed_def, simp add: plain_def)
qed

text \<open>
  The cipher run over a received prefix of its own output restores the plaintext, whatever
  the receiving buffer held.
\<close>

lemma stream_xor_received:
  assumes p: "wf_pbuf p" and q: "wf_pbuf q" and n: "20 \<le> n" "n \<le> 2068"
    and e: "stream_xor L okey (int n - 8) p = Inr e"
  shows "recv_into (take n (pbuf_bytes e)) q = Inr (overlay n e q)"
    and "stream_xor L okey (int n - 8) (overlay n e q) = Inr (overlay n p q)"
    and "wf_pbuf e" and "nonce e = nonce p"
proof -
  let ?B = "pbuf_bytes p" and ?Q = "pbuf_bytes q"
  let ?ks = "chacha20 L okey (nonce p)"
  let ?c = "xor_stream ?ks (slice_at 8 (n - 8) ?B)"
  have nat: "nat (int n - 8) = n - 8"
    by simp
  have len: "length ?B = 2072" "length ?Q = 2072"
    using p q by simp_all
  have e': "e = pb.store 8 ?c p"
    using e n by (simp add: stream_xor_eq [OF p] nat)
  show wf: "wf_pbuf e"
    using p n len by (simp add: e' pb.valid_store)
  have be: "pbuf_bytes e = write_at 8 ?c ?B"
    using p n len by (simp add: e' pb.put_store)
  have "nonce e = take 8 (pbuf_bytes e)"
    using wf by (simp add: pbuf_bytes_def wf_pbuf_def)
  also have "\<dots> = nonce p"
    using p len unfolding be by (simp add: take_write_before) (simp add: pbuf_bytes_def wf_pbuf_def)
  finally show nonce: "nonce e = nonce p" .
  have ov: "overlay n e q = pbuf_of (take n (pbuf_bytes e) @ drop n ?Q)"
    using pbuf_of_overlay [OF wf q n] by simp
  show "recv_into (take n (pbuf_bytes e)) q = Inr (overlay n e q)"
    using n wf by (simp add: recv_into_eq ov)
  have wfo: "wf_pbuf (overlay n e q)"
    by (rule wf_overlay [OF wf q])
  have bo: "pbuf_bytes (overlay n e q) = take 8 ?B @ ?c @ drop n ?Q"
    using n len wf by (simp add: ov pbuf_bytes_of) (simp add: be write_at_def min_def)
  have "nonce (overlay n e q) = nonce p"
    by (simp add: overlay_def nonce)
  then have "stream_xor L okey (int n - 8) (overlay n e q) =
      Inr (pb.store 8 (xor_stream ?ks (slice_at 8 (n - 8) (pbuf_bytes (overlay n e q)))) (overlay n e q))"
    using n by (simp add: stream_xor_eq [OF wfo] nat)
  also have "slice_at 8 (n - 8) (pbuf_bytes (overlay n e q)) = ?c"
    using n len by (simp add: bo)
  also have "pb.store 8 (xor_stream ?ks ?c) (overlay n e q) =
      pbuf_of (take 8 ?B @ slice_at 8 (n - 8) ?B @ drop n ?Q)"
    using n len by (simp add: pb.store_def bo write_at_def)
  also have "take 8 ?B @ slice_at 8 (n - 8) ?B @ drop n ?Q = take n ?B @ drop n ?Q"
    using n take_add [of 8 "n - 8" ?B] by (simp add: slice_at_def)
  also have "pbuf_of \<dots> = overlay n p q"
    by (rule pbuf_of_overlay [OF p q n])
  finally show "stream_xor L okey (int n - 8) (overlay n e q) = Inr (overlay n p q)" .
qed

lemma stream_xor_prefix:
  assumes p: "wf_pbuf p" and mn: "8 \<le> m" "m \<le> n" "n \<le> 2072"
    and e: "stream_xor L okey (int n - 8) p = Inr e" "stream_xor L okey (int m - 8) p = Inr e'"
  shows "take m (pbuf_bytes e) = take m (pbuf_bytes e')"
proof -
  have i: "int n - 8 = int (n - 8)" "int m - 8 = int (m - 8)"
    using mn by simp_all
  have "8 + (n - 8) \<le> 2072" "8 + (m - 8) \<le> 2072"
    using mn by simp_all
  note be = stream_xor_bytes [OF p this(1) e(1) [unfolded i]] stream_xor_bytes [OF p this(2) e(2) [unfolded i]]
  have "take (m - 8) (slice_at 8 (n - 8) (pbuf_bytes p)) = slice_at 8 (m - 8) (pbuf_bytes p)"
    using mn by (simp add: slice_at_def min_def)
  then show ?thesis
    using p mn by (simp add: be write_at_def take_xor_stream)
qed

text \<open>
  The checks of \<open>crypto_decrypt\<close> pass on a plaintext image whose data are complete, be it
  because they were received or because the buffer still held the missing ones.
\<close>

lemma crypto_decrypt_overlay:
  assumes p: "wf_pbuf p" and q: "wf_pbuf q" and len: "unat (len p) \<le> 2048"
    and data: "take (unat (len p)) (payload (overlay m p q)) = take (unat (len p)) (payload p)"
    and sx: "stream_xor L (onetimekey L key token) (int m - 8) q1 = Inr (overlay m (sealed L key r p) q)"
  shows "crypto_decrypt L key token q1 (int m) = Inr (0, overlay m (plain L key r p) q)"
proof -
  let ?s = "sealed L key r p" and ?o = "overlay m (plain L key r p) q"
  have swap: "(overlay m ?s q)\<lparr>flag := ntohs (flag (overlay m ?s q)), len := ntohs (len (overlay m ?s q))\<rparr> = ?o"
    by (simp add: overlay_def sealed_def plain_def)
  have lo: "unat (len ?o) = unat (len p)"
    by (simp add: overlay_def plain_def)
  have "take (unat (len p)) (payload ?o) = take (unat (len p)) (payload p)"
    using data by (simp add: overlay_def plain_def)
  then have hm: "crypto_hmac L key ?o = Inr ?o"
    using lo len by (simp add: crypto_hmac_eq [OF wf_overlay [OF wf_plain [OF p] q]])
      (simp add: overlay_def plain_def)
  have "crypto_decrypt L key token q1 (int m) =
      (if sizeof_payload < unat (len ?o) then Inr (-1, ?o)
       else bind_res (crypto_hmac L key ?o) (\<lambda>p3. Inr (if chksum ?o = chksum p3 then 0 else -1, p3)))"
    unfolding crypto_decrypt_def CRYPTO_NONCE_LEN_def of_nat_numeral sx bind_res_Inr Let_def swap
    by simp
  then show ?thesis
    using lo len by (simp add: hm sizeof_payload_def)
qed

text \<open>
  A datagram received up to byte \<open>m\<close> decrypts to its plaintext up to there, laid over what
  the buffer held; it is accepted if the two together make up the data.
\<close>

lemma crypto_decrypt_encrypt:
  assumes p: "wf_pbuf p" and q: "wf_pbuf q" and pads: "pads d p"
    and m: "20 \<le> m" "m \<le> 20 + unat (len p) + d"
    and data: "take (unat (len p)) (payload (overlay m p q)) = take (unat (len p)) (payload p)"
    and key: "onetimekey L key token' = onetimekey L key token"
    and e: "crypto_encrypt L key r token p = Inr e"
  shows "wf_pbuf e"
    and "\<exists>q1. recv_into (take m (pbuf_bytes e)) q = Inr q1
      \<and> crypto_decrypt L key token' q1 (int m) = Inr (0, overlay m (plain L key r p) q)"
proof -
  let ?okey = "onetimekey L key token" and ?s = "sealed L key r p"
  define n where "n = 20 + unat (len p) + d"
  have mn: "20 \<le> n" "n \<le> 2068" "m \<le> n" "m \<le> 2068" "8 \<le> m" "n \<le> 2072" "unat (len p) \<le> 2048"
    using m pads by (simp_all add: n_def pads_def)
  have "int (12 + unat (len p) + d) = int n - 8"
    by (simp add: n_def)
  then have es: "stream_xor L ?okey (int n - 8) ?s = Inr e"
    using e by (simp only: crypto_encrypt_eq [OF p pads])
  show "wf_pbuf e"
    by (rule stream_xor_received(3) [OF wf_sealed [OF p] q mn(1,2) es])
  have "0 \<le> int m - 8" "int m - 8 \<le> 2064"
    using mn by simp_all
  then obtain e' where es': "stream_xor L ?okey (int m - 8) ?s = Inr e'"
    using stream_xor_eq [OF wf_sealed [OF p]] by blast
  have "take m (pbuf_bytes e) = take m (pbuf_bytes e')"
    by (rule stream_xor_prefix [OF wf_sealed [OF p] mn(5,3,6) es es'])
  moreover note rx = stream_xor_received [OF wf_sealed [OF p] q m(1) mn(4) es']
  moreover have "crypto_decrypt L key token' (overlay m e' q) (int m) = Inr (0, overlay m (plain L key r p) q)"
    by (rule crypto_decrypt_overlay [OF p q mn(7) data]) (simp only: key rx(2))
  ultimately show "\<exists>q1. recv_into (take m (pbuf_bytes e)) q = Inr q1
      \<and> crypto_decrypt L key token' q1 (int m) = Inr (0, overlay m (plain L key r p) q)"
    by metis
qed

lemma payload_overlay_full:
  assumes "wf_pbuf p" and "unat (len p) \<le> 2048" and "20 + unat (len p) \<le> m"
  shows "take (unat (len p)) (payload (overlay m p q)) = take (unat (len p)) (payload p)"
proof -
  have "unat (len p) \<le> m - 20"
    using assms by linarith
  then show ?thesis
    using assms by (simp add: overlay_def wf_pbuf_def min_def)
qed

section \<open>Decrypting arbitrary bytes\<close>

text \<open>
  The plaintext image of \<open>n\<close> received bytes in a buffer: the nonce as it came, what follows under
  the key stream, the rest of the buffer untouched, flag and length in host order. Decryption of
  any 8 to 2072 bytes runs to completion; it accepts exactly when the length of the image fits the
  payload and its checksum, as it was received, is that of its data.
\<close>

definition decrypted :: "lib \<Rightarrow> byte list \<Rightarrow> int \<Rightarrow> pbuf \<Rightarrow> nat \<Rightarrow> pbuf" where
  "decrypted L key token q n =
     (let bs = pbuf_bytes q; v = take 8 bs;
          p = pbuf_of (v @ xor_stream (chacha20 L (onetimekey L key token) v) (slice_at 8 (n - 8) bs) @ drop n bs)
      in p\<lparr>flag := ntohs (flag p), len := ntohs (len p)\<rparr>)"

lemma crypto_decrypt_image:
  assumes q: "wf_pbuf q" and n: "8 \<le> n" "n \<le> 2072"
  shows "wf_pbuf (decrypted L key token q (nat n))"
    and "crypto_decrypt L key token q n =
      (let p = decrypted L key token q (nat n); m = mac32 L key (take (unat (len p)) (payload p))
       in if 2048 < unat (len p) then Inr (-1, p) else Inr (if chksum p = m then 0 else -1, p\<lparr>chksum := m\<rparr>))"
proof -
  let ?k = "chacha20 L (onetimekey L key token)" and ?o = "decrypted L key token q (nat n)"
  define p1 where "p1 = pb.store 8 (xor_stream (?k (nonce q)) (slice_at 8 (nat (n - 8)) (pbuf_bytes q))) q"
  have l: "nat n - 8 = nat (n - 8)" "8 + nat (n - 8) = nat n" "nat n \<le> 2072" "length (pbuf_bytes q) = 2072"
    "take 8 (pbuf_bytes q) = nonce q"
    using n q by (simp_all add: nat_le_iff) (simp_all add: pbuf_bytes_def wf_pbuf_def)
  have "length (slice_at 8 (nat (n - 8)) (pbuf_bytes q)) = nat (n - 8)"
    using l by (simp add: slice_at_def)
  then have "p1 = pbuf_of (nonce q @ xor_stream (?k (nonce q)) (slice_at 8 (nat (n - 8)) (pbuf_bytes q)) @ drop (nat n) (pbuf_bytes q))"
    using l by (simp add: p1_def pb.store_def write_at_def)
  then have o: "?o = p1\<lparr>flag := ntohs (flag p1), len := ntohs (len p1)\<rparr>"
    using l by (simp add: decrypted_def Let_def)
  show wf: "wf_pbuf ?o"
    using q n unfolding o by (simp add: p1_def pb.valid_store min_def nat_le_iff)
  have "stream_xor L (onetimekey L key token) (n - 8) q = Inr p1"
    using n by (simp add: stream_xor_eq [OF q] p1_def)
  then have "crypto_decrypt L key token q n =
      (if unat (len ?o) > 2048 then Inr (-1, ?o)
       else bind_res (crypto_hmac L key ?o) (\<lambda>p3. Inr (if chksum ?o = chksum p3 then 0 else -1, p3)))"
    by (simp add: crypto_decrypt_def CRYPTO_NONCE_LEN_def sizeof_payload_def Let_def o)
  then show "crypto_decrypt L key token q n =
      (let p = ?o; m = mac32 L key (take (unat (len p)) (payload p))
       in if 2048 < unat (len p) then Inr (-1, p) else Inr (if chksum p = m then 0 else -1, p\<lparr>chksum := m\<rparr>))"
    using wf by (cases "unat (len ?o) > 2048") (simp_all add: crypto_hmac_eq Let_def)
qed

lemma crypto_decrypt_short:
  "wf_pbuf q \<Longrightarrow> n < 8 \<Longrightarrow> crypto_decrypt L key token q n = Inl OutOfBounds"
  by (simp add: crypto_decrypt_def stream_xor_fault CRYPTO_NONCE_LEN_def)

section \<open>The header is not authenticated\<close>

text \<open>
  The checksum covers the payload only and the cipher adds a key stream, so flipping bits of
  the encrypted flag flips them in the plaintext: the datagram of \<open>p\<close> with byte 17 changed
  is the datagram of \<open>p\<close> with another flag.
\<close>

lemma pbuf_bytes_flag:
  assumes "wf_pbuf p"
  shows "pbuf_bytes (p\<lparr>flag := htons (f XOR ucast d)\<rparr>) =
    (pbuf_bytes (p\<lparr>flag := htons f\<rparr>))[17 := pbuf_bytes (p\<lparr>flag := htons f\<rparr>) ! 17 XOR d]"
proof -
  have "ucast (drop_bit 8 (f XOR ucast d)) = (ucast (drop_bit 8 f) :: byte)"
    and "ucast (f XOR ucast d) = (ucast f XOR d :: byte)"
    by (auto simp: bit_simps intro!: bit_word_eqI)
  then show ?thesis
    using assms by (simp add: pbuf_bytes_def wf_pbuf_def le16_htons list_update_append nth_append)
qed

lemma crypto_encrypt_flip_flag:
  assumes p: "wf_pbuf p" and pads: "pads d p"
    and e: "crypto_encrypt L key r token p = Inr e"
    and e': "crypto_encrypt L key r token (p\<lparr>flag := flag p XOR ucast x\<rparr>) = Inr e'"
  shows "pbuf_bytes e' = (pbuf_bytes e)[17 := pbuf_bytes e ! 17 XOR x]"
proof -
  let ?p' = "p\<lparr>flag := flag p XOR ucast x\<rparr>"
  define l where "l = 12 + unat (len p) + d"
  let ?B = "pbuf_bytes (sealed L key r p)" and ?B' = "pbuf_bytes (sealed L key r ?p')"
  have p': "wf_pbuf ?p'" "pads d ?p'"
    using p pads by (simp_all add: pads_def)
  have l: "8 + l \<le> 2072" "12 \<le> l"
    using pads by (simp_all add: pads_def l_def)
  have enc: "stream_xor L (onetimekey L key token) (int l) (sealed L key r p) = Inr e"
    using e by (simp only: crypto_encrypt_eq [OF p pads] l_def)
  have "len ?p' = len p"
    by simp
  then have enc': "stream_xor L (onetimekey L key token) (int l) (sealed L key r ?p') = Inr e'"
    using e' by (simp only: crypto_encrypt_eq [OF p'] l_def)
  have nonce: "nonce (sealed L key r p) = map (rng_nonce r) [0..<8]"
    "nonce (sealed L key r ?p') = map (rng_nonce r) [0..<8]"
    by (simp_all add: sealed_def plain_def)
  note be = stream_xor_bytes [OF wf_sealed [OF p] l(1) enc, unfolded nonce]
    and be' = stream_xor_bytes [OF wf_sealed [OF p'(1)] l(1) enc', unfolded nonce]
  have "sealed L key r ?p' = (sealed L key r p)\<lparr>flag := htons (flag p XOR ucast x)\<rparr>"
    and "sealed L key r p = (sealed L key r p)\<lparr>flag := htons (flag p)\<rparr>"
    by (simp_all add: sealed_def plain_def)
  then have B': "?B' = ?B[17 := ?B ! 17 XOR x]"
    using pbuf_bytes_flag [OF wf_sealed [OF p, of L key r], where f = "flag p" and d = x] by simp
  have len: "length ?B = 2072" "length ?B' = 2072"
    using p p' by (simp_all add: wf_sealed)
  show ?thesis
    unfolding be be'
    by (rule nth_equalityI)
      (use l len in \<open>auto simp: nth_write nth_slice nth_list_update B' xor.assoc xor.commute xor.left_commute\<close>)
qed

end
