(* ===== verification/Encapsulate.thy ===== *)
theory Encapsulate
  imports Compress Crypto
begin

text \<open>
  src/encapsulate.c: padding a packet, and the two operations the VPN uses, \<open>encapsulate\<close>
  (compress, pad, encrypt) and \<open>decapsulate\<close> (decrypt, check, decompress). Both return the
  C result and the buffer, or the fault they run into.
\<close>

section \<open>The code\<close>

definition obfuscate :: "rng \<Rightarrow> pbuf \<Rightarrow> int \<Rightarrow> pbuf res" where
  "obfuscate r p mtu =
     (if uint (len p) < mtu then
        let max = mtu - uint (len p);
            pad = (if max > 897 then int (rng_uniform r 554)
                   else if max > 554 then int (rng_uniform r 342)
                   else if max > 342 then int (rng_uniform r 211)
                   else let x = int (rng_uniform r 130) in if x > max then max else x)
        in mem_write (PAYLOAD_OFFSET + unat (len p)) (map (rng_pad r) [0..<nat pad])
             (p\<lparr>padding := word_of_int pad\<rparr>)
      else Inr (p\<lparr>padding := 0\<rparr>))"

definition encapsulate :: "lib \<Rightarrow> byte list \<Rightarrow> rng \<Rightarrow> int \<Rightarrow> pbuf \<Rightarrow> int \<Rightarrow> (int \<times> pbuf) res" where
  "encapsulate L key r token p mtu =
     bind_res (compress L p) (\<lambda>p1.
       let p2 = p1\<lparr>padding := 0\<rparr> in
       bind_res (if flag p2 AND FLAG_COMPRESS = 0 then obfuscate r p2 mtu else Inr p2) (\<lambda>p3.
         let n = int PAYLOAD_OFFSET + uint (len p3) + sint (padding p3) in
         bind_res (crypto_encrypt L key r token p3) (\<lambda>p4. Inr (n, p4))))"

definition decapsulate :: "lib \<Rightarrow> byte list \<Rightarrow> int \<Rightarrow> pbuf \<Rightarrow> int \<Rightarrow> (int \<times> pbuf) res" where
  "decapsulate L key token p n =
     bind_res (crypto_decrypt L key token p n) (\<lambda>(invalid, p1).
       if invalid \<noteq> 0 then Inr (-1, p1)
       else if len p1 = 0 then Inr (0, p1)
       else if unat (len p1) > sizeof_payload then Inr (-1, p1)
       else bind_res (decompress L p1) (\<lambda>p2.
         if flag p2 AND 2 \<noteq> 0 then Inr (0, p2)
         else Inr (uint (len p2), p2)))"

section \<open>Padding\<close>

definition pad_len :: "rng \<Rightarrow> pbuf \<Rightarrow> int \<Rightarrow> nat" where
  "pad_len r p mtu =
     (let max = mtu - uint (len p)
      in if max \<le> 0 then 0
         else if max > 897 then rng_uniform r 554
         else if max > 554 then rng_uniform r 342
         else if max > 342 then rng_uniform r 211
         else min (rng_uniform r 130) (nat max))"

text \<open>Padding stays within the MTU and below 554 bytes.\<close>

lemma pad_len_bounds:
  assumes "rng_ok r"
  shows "int (pad_len r p mtu) \<le> max 0 (mtu - uint (len p))" and "pad_len r p mtu < 554"
proof -
  have "rng_uniform r 554 < 554" "rng_uniform r 342 < 342" "rng_uniform r 211 < 211" "rng_uniform r 130 < 130"
    using assms by (simp_all add: rng_okD)
  then show "int (pad_len r p mtu) \<le> max 0 (mtu - uint (len p))" and "pad_len r p mtu < 554"
    by (auto simp: pad_len_def Let_def min_def)
qed

lemma obfuscate_mem_write:
  assumes "uint (len p) < mtu"
  shows "obfuscate r p mtu = mem_write (20 + unat (len p)) (map (rng_pad r) [0..<pad_len r p mtu])
    (p\<lparr>padding := word_of_nat (pad_len r p mtu)\<rparr>)"
proof -
  let ?m = "mtu - uint (len p)" and ?pad = "pad_len r p mtu"
  have pad: "(if ?m > 897 then int (rng_uniform r 554) else if ?m > 554 then int (rng_uniform r 342)
      else if ?m > 342 then int (rng_uniform r 211)
      else if int (rng_uniform r 130) > ?m then ?m else int (rng_uniform r 130)) = int ?pad"
    using assms by (auto simp: pad_len_def Let_def min_def)
  show ?thesis
    unfolding obfuscate_def Let_def pad using assms by (simp add: PAYLOAD_OFFSET_def)
qed

lemma obfuscate_eq:
  assumes wf: "wf_pbuf p" and fits: "unat (len p) + pad_len r p mtu \<le> 2048"
  shows "obfuscate r p mtu = Inr (p\<lparr>padding := word_of_nat (pad_len r p mtu),
    payload := write_at (unat (len p)) (map (rng_pad r) [0..<pad_len r p mtu]) (payload p)\<rparr>)"
proof (cases "uint (len p) < mtu")
  case True
  then show ?thesis
    using wf fits by (simp add: obfuscate_mem_write mem_write_payload)
next
  case False
  then show ?thesis
    by (simp add: obfuscate_def pad_len_def write_at_def)
qed

section \<open>Encapsulation\<close>

text \<open>The packet that is encrypted: compressed where that helps, padded where it does not.\<close>

definition padded :: "lib \<Rightarrow> rng \<Rightarrow> pbuf \<Rightarrow> int \<Rightarrow> pbuf" where
  "padded L r p mtu =
     (if shrinks L p then (compressed L p)\<lparr>padding := 0\<rparr>
      else if flag p AND FLAG_COMPRESS = 0 then
        p\<lparr>padding := word_of_nat (pad_len r p mtu),
          payload := write_at (unat (len p)) (map (rng_pad r) [0..<pad_len r p mtu]) (payload p)\<rparr>
      else p\<lparr>padding := 0\<rparr>)"

definition pad_count :: "lib \<Rightarrow> rng \<Rightarrow> pbuf \<Rightarrow> int \<Rightarrow> nat" where
  "pad_count L r p mtu =
     (if shrinks L p \<or> flag p AND FLAG_COMPRESS \<noteq> 0 then 0 else pad_len r p mtu)"

lemma sint_small:
  assumes "d < 2048"
  shows "sint (word_of_nat d :: u32) = int d"
proof -
  have "take_bit 32 d = d"
    using assms by (simp add: take_bit_nat_eq_self_iff)
  then show ?thesis
    using assms by (simp add: sint_uint unsigned_of_nat signed_take_bit_int_eq_self_iff)
qed

text \<open>The buffer sizes that make encapsulation safe.\<close>

definition fits :: "pbuf \<Rightarrow> int \<Rightarrow> bool" where
  "fits p mtu \<longleftrightarrow> wf_pbuf p \<and> unat (len p) \<le> 2048 \<and> mtu \<le> 2048"

lemma pad_count_fits:
  assumes "rng_ok r" and "fits p mtu"
  shows "unat (len p) + pad_count L r p mtu \<le> 2048" and "pad_count L r p mtu < 554"
    and "int (unat (len p) + pad_count L r p mtu) \<le> max (uint (len p)) mtu"
proof -
  have le: "int (pad_count L r p mtu) \<le> max 0 (mtu - uint (len p))"
    using pad_len_bounds(1) [OF assms(1)] by (simp add: pad_count_def)
  then show "int (unat (len p) + pad_count L r p mtu) \<le> max (uint (len p)) mtu"
    by simp
  moreover have "uint (len p) \<le> 2048"
    using assms(2) of_nat_mono [of "unat (len p)" 2048, where 'a = int] by (simp add: fits_def)
  ultimately have "int (unat (len p) + pad_count L r p mtu) \<le> int 2048"
    using assms(2) by (auto simp: fits_def max_def split: if_splits)
  then show "unat (len p) + pad_count L r p mtu \<le> 2048"
    by (simp only: of_nat_le_iff)
  show "pad_count L r p mtu < 554"
    using pad_len_bounds(2) [OF assms(1)] by (simp add: pad_count_def)
qed

lemma padded_fields:
  assumes r: "rng_ok r" and f: "fits p mtu"
  shows "wf_pbuf (padded L r p mtu)"
    and "pads (pad_count L r p mtu) (padded L r p mtu)"
    and "contents (padded L r p mtu) =
      (if shrinks L p then lz4_compress L (contents p) 2048 else contents p)"
    and "flag (padded L r p mtu) = (if shrinks L p then flag p OR FLAG_COMPRESS else flag p)"
    and "unat (len (padded L r p mtu)) \<le> unat (len p)"
    and "len (padded L r p mtu) = 0 \<longleftrightarrow> len p = 0"
proof -
  have p: "wf_pbuf p" "unat (len p) \<le> 2048"
    using f by (simp_all add: fits_def)
  have c: "shrinks L p \<Longrightarrow> wf_pbuf (compressed L p)"
    "shrinks L p \<Longrightarrow> 0 < unat (len (compressed L p))"
    "shrinks L p \<Longrightarrow> unat (len (compressed L p)) < unat (len p)"
    "shrinks L p \<Longrightarrow> contents (compressed L p) = lz4_compress L (contents p) 2048"
    "shrinks L p \<Longrightarrow> flag (compressed L p) = flag p OR FLAG_COMPRESS"
    using compressed_fields [OF p] by blast+
  note k = pad_count_fits [OF r f, of L]
  show "wf_pbuf (padded L r p mtu)"
    using c p k by (auto simp: padded_def pad_count_def wf_pbuf_def)
  show "pads (pad_count L r p mtu) (padded L r p mtu)"
    using c p k by (auto simp: padded_def pads_def pad_count_def sint_small)
  show "contents (padded L r p mtu) =
      (if shrinks L p then lz4_compress L (contents p) 2048 else contents p)"
    using c p by (auto simp: padded_def contents_def take_write_before wf_pbuf_def)
  show "flag (padded L r p mtu) = (if shrinks L p then flag p OR FLAG_COMPRESS else flag p)"
    using c by (simp add: padded_def)
  show "unat (len (padded L r p mtu)) \<le> unat (len p)"
    using c by (auto simp: padded_def)
  show "len (padded L r p mtu) = 0 \<longleftrightarrow> len p = 0"
    using c by (auto simp: padded_def)
qed

lemma encapsulate_eq:
  assumes r: "rng_ok r" and f: "fits p mtu"
  shows "encapsulate L key r token p mtu =
    bind_res (crypto_encrypt L key r token (padded L r p mtu)) (\<lambda>e.
      Inr (int (20 + unat (len (padded L r p mtu)) + pad_count L r p mtu), e))"
proof -
  let ?p = "padded L r p mtu"
  have p: "wf_pbuf p" "unat (len p) \<le> 2048"
    using f by (simp_all add: fits_def)
  let ?p2 = "(if shrinks L p then compressed L p else p)\<lparr>padding := 0\<rparr>"
  have obf: "(if flag ?p2 AND FLAG_COMPRESS = 0 then obfuscate r ?p2 mtu else Inr ?p2) = Inr ?p"
  proof (cases "shrinks L p \<or> flag p AND FLAG_COMPRESS \<noteq> 0")
    case True
    then show ?thesis
      using compressed_fields(4) [OF p] by (auto simp: padded_def)
  next
    case False
    moreover have "pad_len r (p\<lparr>padding := 0\<rparr>) mtu = pad_len r p mtu"
      by (simp add: pad_len_def)
    ultimately show ?thesis
      using p pad_count_fits(1) [OF r f, of L]
      by (simp add: padded_def pad_count_def obfuscate_eq)
  qed
  have "uint (len ?p) + sint (padding ?p) = int (unat (len ?p) + pad_count L r p mtu)"
    using padded_fields(2) [OF r f, of L] by (simp add: pads_def)
  then show ?thesis
    unfolding encapsulate_def compress_eq [OF p] bind_res_Inr Let_def obf
    by (simp add: PAYLOAD_OFFSET_def)
qed

lemma crypto_encrypt_total:
  assumes "wf_pbuf p" and "pads d p"
  obtains e where "crypto_encrypt L key r token p = Inr e" and "wf_pbuf e"
proof -
  have "int (12 + unat (len p) + d) \<le> 2064"
    using assms(2) of_nat_mono [of "unat (len p) + d" 2048, where 'a = int] by (simp add: pads_def)
  then obtain e where e: "crypto_encrypt L key r token p = Inr e"
    using assms by (simp add: crypto_encrypt_eq stream_xor_eq wf_sealed)
  show thesis
    by (rule that [OF e], rule crypto_decrypt_encrypt(1) [OF assms(1,1,2) _ _ _ refl e, of "20 + unat (len p)"])
      (use assms(2) in \<open>simp_all add: payload_overlay_full [OF assms(1)] pads_def\<close>)
qed

lemma overlay_fields:
  assumes p: "wf_pbuf p" and q: "wf_pbuf q"
    and data: "take (unat (len p)) (payload (overlay m p q)) = take (unat (len p)) (payload p)"
  shows "contents (overlay m p q) = contents p" and "len (overlay m p q) = len p"
    and "flag (overlay m p q) = flag p" and "wf_pbuf (overlay m p q)"
proof -
  show "wf_pbuf (overlay m p q)"
    by (rule wf_overlay [OF p q])
  show "contents (overlay m p q) = contents p"
    using data by (simp add: contents_def overlay_def)
qed (simp_all add: overlay_def)

lemma plain_fields:
  "contents (plain L key r p) = contents p" "len (plain L key r p) = len p"
  "flag (plain L key r p) = flag p"
  by (simp_all add: plain_def contents_def)

section \<open>What reaches the other side\<close>

text \<open>
  Decapsulation after decryption: the checks and the decompression on a buffer whose
  checksum is right.
\<close>

lemma decapsulate_after_decrypt:
  assumes "crypto_decrypt L key token q n = Inr (0, p1)" and "unat (len p1) \<le> 2048"
  shows "decapsulate L key token q n =
    (if len p1 = 0 then Inr (0, p1)
     else bind_res (decompress L p1) (\<lambda>p2.
       if flag p2 AND 2 \<noteq> 0 then Inr (0, p2) else Inr (uint (len p2), p2)))"
  using assms by (simp add: decapsulate_def sizeof_payload_def)

text \<open>A buffer holding a compressed or plain image of \<open>p\<close> gives back its data.\<close>

lemma decompress_padded:
  assumes lz4: "lz4_ok L" and f: "fits p mtu" and flag0: "flag p = 0" and o: "wf_pbuf o'"
    and same: "contents o' = contents (padded L r p mtu)" "len o' = len (padded L r p mtu)"
      "flag o' = flag (padded L r p mtu)"
    and r: "rng_ok r" and ne: "len p \<noteq> 0"
  shows "\<exists>o2. decompress L o' = Inr o2 \<and> wf_pbuf o2 \<and> len o2 = len p
    \<and> contents o2 = contents p \<and> flag o2 AND 2 = 0"
proof -
  have p: "wf_pbuf p" "unat (len p) \<le> 2048"
    using f by (simp_all add: fits_def)
  note pf = padded_fields [OF r f, of L]
  have pos: "0 < unat (len p)"
    using ne by (simp add: unat_gt_0)
  have lo: "unat (len o') \<le> 2048"
    using pf(5) p(2) same by simp
  show ?thesis
  proof (cases "shrinks L p")
    case False
    then have "flag o' = 0" "contents o' = contents p" "len o' = len p"
      using pf same flag0 by (simp_all add: padded_def)
    then show ?thesis
      using o by (simp add: decompress_plain)
  next
    case True
    then have fo: "flag o' = FLAG_COMPRESS" and co: "contents o' = lz4_compress L (contents p) 2048"
      using pf same flag0 by simp_all
    have d: "lz4_decompress L (contents o') 2048 = Some (contents p)"
      unfolding co by (rule lz4_ok_roundtrip [OF lz4])
        (use True p in \<open>auto simp: shrinks_def Let_def length_contents\<close>)
    have fc: "flag o' AND FLAG_COMPRESS \<noteq> 0" and f2: "flag o' AND 2 = 0"
      by (simp_all add: fo FLAG_COMPRESS_def)
    have lc: "length (contents p) = unat (len p)"
      using p by (simp add: length_contents)
    show ?thesis
      using decompress_eq [OF o lo fc d] p pos o f2
      by (simp add: lc) (simp add: contents_def wf_pbuf_def write_at_def)
  qed
qed

lemma encapsulate_total:
  assumes r: "rng_ok r" and f: "fits p mtu"
  obtains e where "encapsulate L key r token p mtu =
      Inr (int (20 + unat (len (padded L r p mtu)) + pad_count L r p mtu), e)"
    and "crypto_encrypt L key r token (padded L r p mtu) = Inr e" and "wf_pbuf e"
proof -
  obtain e where "crypto_encrypt L key r token (padded L r p mtu) = Inr e" "wf_pbuf e"
    using crypto_encrypt_total padded_fields(1,2) [OF r f] by metis
  with that show thesis
    by (simp add: encapsulate_eq [OF r f])
qed

text \<open>
  The received bytes are the first \<open>m\<close> of the datagram; those of its data that are missing
  are in the buffer already.
\<close>

lemma roundtrip_prefix:
  assumes lz4: "lz4_ok L" and r: "rng_ok r" and f: "fits p mtu" and flag0: "flag p = 0"
    and q: "wf_pbuf q" and e: "encapsulate L key r token p mtu = Inr (n, e)"
    and key: "onetimekey L key token' = onetimekey L key token"
    and m: "20 \<le> m" "m \<le> nat n"
    and data: "take (unat (len (padded L r p mtu))) (payload (overlay m (padded L r p mtu) q)) =
      contents (padded L r p mtu)"
  shows "\<exists>q1 q2. recv_into (take m (pbuf_bytes e)) q = Inr q1
    \<and> decapsulate L key token' q1 (int m) = Inr (uint (len p), q2)
    \<and> wf_pbuf q2 \<and> len q2 = len p \<and> contents q2 = contents p"
proof -
  let ?p = "padded L r p mtu" and ?d = "pad_count L r p mtu"
  let ?o = "overlay m (plain L key r ?p) q"
  note pf = padded_fields [OF r f, of L]
  from encapsulate_total [OF r f, of L key token] e
  have ce: "crypto_encrypt L key r token ?p = Inr e" and "n = int (20 + unat (len ?p) + ?d)"
    by auto
  then have m2: "m \<le> 20 + unat (len ?p) + ?d"
    using m(2) by (simp only: nat_int)
  obtain q1 where q1: "recv_into (take m (pbuf_bytes e)) q = Inr q1"
      "crypto_decrypt L key token' q1 (int m) = Inr (0, ?o)"
    using crypto_decrypt_encrypt(2) [OF pf(1) q pf(2) m(1) m2 data [unfolded contents_def] key ce] by blast
  have "take (unat (len (plain L key r ?p))) (payload ?o) =
      take (unat (len (plain L key r ?p))) (payload (plain L key r ?p))"
    using data by (simp add: overlay_def plain_def contents_def)
  note of = overlay_fields [OF wf_plain [OF pf(1)] q this, unfolded plain_fields]
  have lo: "unat (len ?o) \<le> 2048"
    using pf(5) f by (simp add: of fits_def)
  note dec = decapsulate_after_decrypt [OF q1(2) lo]
  have "\<exists>q2. decapsulate L key token' q1 (int m) = Inr (uint (len p), q2)
    \<and> wf_pbuf q2 \<and> len q2 = len p \<and> contents q2 = contents p"
  proof (cases "len p = 0")
    case True
    then show ?thesis
      using dec of pf(6) by (simp add: contents_def)
  next
    case False
    from decompress_padded [OF lz4 f flag0 of(4) of(1) of(2) of(3) r False] dec of pf(6) False
    show ?thesis by auto
  qed
  then show ?thesis
    using q1(1) by blast
qed

lemma roundtrip:
  assumes "lz4_ok L" and r: "rng_ok r" and f: "fits p mtu" and "flag p = 0"
    and "wf_pbuf q" and e: "encapsulate L key r token p mtu = Inr (n, e)"
    and "onetimekey L key token' = onetimekey L key token"
  shows "\<exists>q1 q2. recv_into (take (nat n) (pbuf_bytes e)) q = Inr q1
    \<and> decapsulate L key token' q1 n = Inr (uint (len p), q2)
    \<and> wf_pbuf q2 \<and> len q2 = len p \<and> contents q2 = contents p"
proof -
  from encapsulate_total [OF r f, of L key token] e
  have "n = int (20 + unat (len (padded L r p mtu)) + pad_count L r p mtu)"
    by auto
  then have "nat n = 20 + unat (len (padded L r p mtu)) + pad_count L r p mtu" "int (nat n) = n"
    by (simp_all only: nat_int)
  then have n: "20 + unat (len (padded L r p mtu)) \<le> nat n" "20 \<le> nat n" "int (nat n) = n"
    by linarith+
  have len: "unat (len (padded L r p mtu)) \<le> 2048"
    using padded_fields(5) [OF r f, of L] f by (simp add: fits_def)
  show ?thesis
    using roundtrip_prefix [OF assms n(2) order_refl
        payload_overlay_full [OF padded_fields(1) [OF r f] len n(1), folded contents_def]]
    unfolding n(3) .
qed

section \<open>Properties\<close>

text \<open>
  C1. What one side encapsulates, the other side decapsulates: for an MTU and a packet that
  fit the payload array, the first \<open>n\<close> bytes of the encapsulated buffer, received into any
  buffer with any stale contents and decapsulated under the same token, give back the packet's
  length and its data, whether it was compressed or padded on the way.
\<close>

theorem encapsulate_decapsulate:
  assumes "lz4_ok L" and "rng_ok r" and "fits p mtu" and "flag p = 0" and "wf_pbuf q"
  shows "\<exists>n e q1 q2. encapsulate L key r token p mtu = Inr (n, e)
    \<and> recv_into (take (nat n) (pbuf_bytes e)) q = Inr q1
    \<and> decapsulate L key token q1 n = Inr (uint (len p), q2)
    \<and> len q2 = len p \<and> contents q2 = contents p"
  using encapsulate_total [OF assms(2,3), of L key token] roundtrip [OF assms _ refl] by metis

lemma demo_fits: "length ds \<le> 2048 \<Longrightarrow> mtu \<le> 2048 \<Longrightarrow> fits (packet_of ds) mtu"
  by (simp add: fits_def packet_of_fields)

lemma contents_packet_of: "length ds \<le> 2048 \<Longrightarrow> contents (packet_of ds) = ds"
  by (simp add: contents_def packet_of_fields) (simp add: packet_of_def)

theorem encapsulate_decapsulate_witness:
  "\<exists>n e q1 q2. encapsulate demo_lib [1, 2] demo_rng 5 (packet_of (replicate 100 7)) 1400 = Inr (n, e)
    \<and> recv_into (take (nat n) (pbuf_bytes e)) (packet_of [9]) = Inr q1
    \<and> decapsulate demo_lib [1, 2] 5 q1 n = Inr (100, q2) \<and> contents q2 = replicate 100 7"
proof -
  have "uint (len (packet_of (replicate 100 7))) = 100"
    by (simp add: packet_of_def)
  then show ?thesis
    using encapsulate_decapsulate [OF demo_lz4_ok demo_rng_ok
        demo_fits [of "replicate 100 7" 1400] packet_of_fields(1) packet_of_fields(2) [of "[9]"],
        of "[1, 2]" 5]
    by (auto simp: contents_packet_of)
qed

lemma encapsulate_sizes:
  assumes "rng_ok r" and "fits p mtu"
  shows "\<exists>n e. encapsulate L key r token p mtu = Inr (n, e) \<and> wf_pbuf e \<and> 20 \<le> n
    \<and> n \<le> 20 + max (uint (len p)) mtu \<and> n < 20 + uint (len p) + 554"
proof -
  let ?p = "padded L r p mtu" and ?d = "pad_count L r p mtu"
  obtain e where e: "encapsulate L key r token p mtu = Inr (int (20 + unat (len ?p) + ?d), e)"
    and wf: "wf_pbuf e"
    using encapsulate_total [OF assms] by metis
  have le: "unat (len ?p) \<le> unat (len p)"
    using padded_fields(5) [OF assms] .
  then have "int (20 + unat (len ?p) + ?d) \<le> 20 + int (unat (len p) + ?d)"
    by linarith
  also have "\<dots> \<le> 20 + max (uint (len p)) mtu"
    using pad_count_fits(3) [OF assms, of L] by linarith
  finally have "int (20 + unat (len ?p) + ?d) \<le> 20 + max (uint (len p)) mtu" .
  moreover have "int (20 + unat (len ?p) + ?d) < 20 + int (unat (len p)) + 554"
    using le pad_count_fits(2) [OF assms, of L] by linarith
  ultimately show ?thesis
    using e wf by auto
qed

text \<open>
  C22. Encapsulation cannot fault when MTU and packet fit the payload array, and its result is
  the number of bytes to send: at least the header, at most the header plus the MTU or the
  packet's own length, and never more than 553 bytes of padding.
\<close>

theorem encapsulate_bounds:
  assumes "rng_ok r" and "fits p mtu"
  shows "\<exists>n e. encapsulate L key r token p mtu = Inr (n, e) \<and> wf_pbuf e \<and> 20 \<le> n
    \<and> n \<le> 20 + max (uint (len p)) mtu \<and> n < 20 + uint (len p) + 554"
  by (rule encapsulate_sizes [OF assms])

theorem encapsulate_bounds_witness:
  "\<exists>n e. encapsulate demo_lib [1, 2] demo_rng 5 (packet_of [1, 2, 3]) 1400 = Inr (n, e)
    \<and> 20 \<le> n \<and> n \<le> 1420"
proof -
  have "uint (len (packet_of [1, 2, 3])) = 3"
    by (simp add: packet_of_def)
  then show ?thesis
    using encapsulate_bounds [OF demo_rng_ok demo_fits [of "[1, 2, 3]" 1400], of demo_lib "[1, 2]" 5]
    by auto
qed

text \<open>The data of an accepted packet as the receiver hands them on; \<open>None\<close> where it aborts.\<close>

definition unpacked :: "lib \<Rightarrow> pbuf \<Rightarrow> byte list option" where
  "unpacked L p =
     (if flag p AND FLAG_COMPRESS = 0 then Some (contents p)
      else case lz4_decompress L (contents p) 2048 of None \<Rightarrow> None | Some d \<Rightarrow> if d = [] then None else Some d)"

lemma decompress_unpacked:
  assumes lz4: "lz4_ok L" and p: "wf_pbuf p" "unat (len p) \<le> 2048"
  shows "unpacked L p = None \<Longrightarrow> decompress L p = Inl AssertFailed"
    and "unpacked L p = Some d \<Longrightarrow> len p \<noteq> 0 \<Longrightarrow>
      \<exists>p'. decompress L p = Inr p' \<and> wf_pbuf p' \<and> flag p' = flag p \<and> contents p' = d \<and> unat (len p') = length d
        \<and> 1 \<le> length d \<and> length d \<le> 2048"
proof -
  show "decompress L p = Inl AssertFailed" if "unpacked L p = None"
  proof -
    have "flag p AND FLAG_COMPRESS \<noteq> 0" "lz4_decompress L (contents p) 2048 \<in> {None, Some []}"
      using that by (auto simp: unpacked_def split: if_splits option.splits)
    then show ?thesis
      by (rule decompress_aborts [OF p])
  qed
  show "\<exists>p'. decompress L p = Inr p' \<and> wf_pbuf p' \<and> flag p' = flag p \<and> contents p' = d \<and> unat (len p') = length d
        \<and> 1 \<le> length d \<and> length d \<le> 2048"
    if d: "unpacked L p = Some d" and ne: "len p \<noteq> 0"
  proof (cases "flag p AND FLAG_COMPRESS = 0")
    case True
    then have "d = contents p"
      using d by (simp add: unpacked_def)
    moreover have "1 \<le> unat (len p)"
      using ne by (simp add: Suc_le_eq unat_gt_0)
    ultimately show ?thesis
      using True p by (simp add: decompress_plain length_contents)
  next
    case False
    then have out: "lz4_decompress L (contents p) 2048 = Some d" "0 < length d"
      using d by (auto simp: unpacked_def split: option.splits if_splits)
    have le: "length d \<le> 2048"
      by (rule lz4_ok_decompress [OF lz4 out(1)])
    then have u: "unat (word_of_nat (length d) :: u16) = length d"
      by (simp add: unat_of_nat)
    show ?thesis
      using decompress_eq [OF p False out le] out le p u
      by (auto simp: contents_def write_at_def wf_pbuf_def Suc_le_eq)
  qed
qed

lemma decapsulate_cases:
  assumes lz4: "lz4_ok L" and q: "wf_pbuf q" and n: "8 \<le> n" "n \<le> 2072"
  shows "let p = decrypted L key token q (nat n) in
     if 2048 < unat (len p) \<or> chksum p \<noteq> mac32 L key (contents p)
     then \<exists>p'. decapsulate L key token q n = Inr (-1, p') \<and> wf_pbuf p'
     else if len p = 0 then decapsulate L key token q n = Inr (0, p) \<and> wf_pbuf p
     else case unpacked L p of
       None \<Rightarrow> decapsulate L key token q n = Inl AssertFailed
     | Some d \<Rightarrow> \<exists>p'. decapsulate L key token q n = Inr (if flag p AND 2 \<noteq> 0 then 0 else int (length d), p')
         \<and> wf_pbuf p' \<and> contents p' = d \<and> unat (len p') = length d \<and> 1 \<le> length d \<and> length d \<le> 2048"
proof -
  let ?p = "decrypted L key token q (nat n)"
  have wf: "wf_pbuf ?p"
    by (rule crypto_decrypt_image(1) [OF q n])
  have dec: "crypto_decrypt L key token q n = (if 2048 < unat (len ?p) then Inr (-1, ?p)
      else Inr (if chksum ?p = mac32 L key (contents ?p) then 0 else -1, ?p\<lparr>chksum := mac32 L key (contents ?p)\<rparr>))"
    unfolding crypto_decrypt_image(2) [OF q n] Let_def contents_def ..
  show ?thesis
  proof (cases "2048 < unat (len ?p) \<or> chksum ?p \<noteq> mac32 L key (contents ?p)")
    case True
    then have "\<exists>p'. decapsulate L key token q n = Inr (-1, p') \<and> wf_pbuf p'"
      using wf by (auto simp: decapsulate_def dec)
    then show ?thesis
      using True by (simp add: Let_def)
  next
    case False
    then have le: "unat (len ?p) \<le> 2048" and ok: "crypto_decrypt L key token q n = Inr (0, ?p)"
      by (simp_all add: dec)
    note run = decapsulate_after_decrypt [OF ok le]
    show ?thesis
    proof (cases "len ?p = 0")
      case True
      then show ?thesis
        using False wf run by (simp add: Let_def)
    next
      case ne: False
      show ?thesis
      proof (cases "unpacked L ?p")
        case None
        then show ?thesis
          using False ne run decompress_unpacked(1) [OF lz4 wf le] by (simp add: Let_def)
      next
        case (Some d)
        then obtain p' where p': "decompress L ?p = Inr p'" "wf_pbuf p'" "flag p' = flag ?p" "contents p' = d"
          "unat (len p') = length d" "1 \<le> length d" "length d \<le> 2048"
          using decompress_unpacked(2) [OF lz4 wf le Some ne] by blast
        have "uint (len p') = int (length d)"
          using p'(5) by (metis uint_nat)
        then show ?thesis
          using False ne run p' Some by (simp add: Let_def)
      qed
    qed
  qed
qed

text \<open>What the callers of \<^verbatim>\<open>decapsulate\<close> rely on.\<close>

lemma decapsulate_outcome:
  assumes "lz4_ok L" and "wf_pbuf q" and "8 \<le> n" and "n \<le> 2072"
  shows "(\<exists>k p'. decapsulate L key token q n = Inr (k, p') \<and> wf_pbuf p'
      \<and> (k = -1 \<or> k = 0 \<or> k = uint (len p') \<and> 1 \<le> k \<and> k \<le> 2048))
    \<or> decapsulate L key token q n = Inl AssertFailed"
proof -
  show ?thesis
    using decapsulate_cases [OF assms, of key token] unfolding Let_def
    by (auto split: if_splits option.splits) (metis uint_nat)
qed

text \<open>
  C16. Decapsulation of arbitrary received bytes is safe and accepts only data with a matching
  checksum. For any buffer and any 8 to 2072 received bytes, let \<open>p\<close> be the decrypted image of
  these bytes, with the checksum that was received. When the length in \<open>p\<close> does not fit the
  payload or its checksum is not the keyed hash of its data, the result is -1; otherwise it is 0
  for a packet without data, and else the data of \<open>p\<close>, decompressed where the flag says so, with
  their length (or 0 for a packet marked as an acknowledgement). No access leaves the buffer, and the
  only fault is the assertion on an accepted packet that does not decompress.
\<close>

theorem decapsulate_safe:
  assumes "lz4_ok L" and "wf_pbuf q" and "8 \<le> n" and "n \<le> 2072"
  shows "let p = decrypted L key token q (nat n) in
     if 2048 < unat (len p) \<or> chksum p \<noteq> mac32 L key (contents p)
     then \<exists>p'. decapsulate L key token q n = Inr (-1, p') \<and> wf_pbuf p'
     else if len p = 0 then decapsulate L key token q n = Inr (0, p) \<and> wf_pbuf p
     else case unpacked L p of
       None \<Rightarrow> decapsulate L key token q n = Inl AssertFailed
     | Some d \<Rightarrow> \<exists>p'. decapsulate L key token q n = Inr (if flag p AND 2 \<noteq> 0 then 0 else int (length d), p')
         \<and> wf_pbuf p' \<and> contents p' = d \<and> unat (len p') = length d \<and> 1 \<le> length d \<and> length d \<le> 2048"
  by (rule decapsulate_cases [OF assms])

text \<open>A heartbeat of which only the nonce was received on top of the rest, with its checksum and with another one.\<close>

lemma decrypted_nonce:
  assumes "wf_pbuf q"
  shows "decrypted L key token q 8 = q\<lparr>flag := ntohs (flag q), len := ntohs (len q)\<rparr>"
proof -
  have "take 8 (pbuf_bytes q) @ drop 8 (pbuf_bytes q) = pbuf_bytes q"
    by simp
  then show ?thesis
    using assms by (simp add: decrypted_def slice_at_def pbuf_of_bytes Let_def xor_stream_def)
qed

theorem decapsulate_safe_witness:
  "(\<exists>p. decapsulate demo_lib [1, 2] 5 ((packet_of [])\<lparr>chksum := mac32 demo_lib [1, 2] []\<rparr>) 8 = Inr (0, p))
   \<and> (\<exists>p. decapsulate demo_lib [1, 2] 5 ((packet_of [])\<lparr>chksum := mac32 demo_lib [1, 2] [] + 1\<rparr>) 8 = Inr (-1, p))"
proof -
  have wf: "wf_pbuf ((packet_of [])\<lparr>chksum := x\<rparr>)" for x
    using packet_of_fields(2) [of "[]"] by (simp add: wf_pbuf_def)
  have "ntohs 0 = 0" "len (packet_of []) = 0"
    by (simp_all add: ntohs_def packet_of_def)
  then have o: "decrypted demo_lib [1, 2] 5 ((packet_of [])\<lparr>chksum := x\<rparr>) (nat 8) = (packet_of [])\<lparr>chksum := x, flag := ntohs (flag (packet_of []))\<rparr>" for x
    by (simp add: decrypted_nonce [OF wf])
  note d = decapsulate_safe [OF demo_lz4_ok wf, of 8 "[1, 2]" 5, unfolded o]
  show ?thesis
    using d [of "mac32 demo_lib [1, 2] []"] d [of "mac32 demo_lib [1, 2] [] + 1"] \<open>len (packet_of []) = 0\<close>
    by (auto simp: Let_def contents_def)
qed

section \<open>The datagram\<close>

definition wire_header :: "lib \<Rightarrow> byte list \<Rightarrow> pbuf \<Rightarrow> byte list" where
  "wire_header L key p = le32 (mac32 L key (contents p)) @ le32 (ack p)
     @ [ucast (drop_bit 8 (flag p)), ucast (flag p)]
     @ [ucast (drop_bit 8 (len p)), ucast (len p)]"

lemma padded_payload:
  assumes r: "rng_ok r" and f: "fits p mtu"
  shows "take (unat (len (padded L r p mtu)) + pad_count L r p mtu) (payload (padded L r p mtu)) =
    contents (padded L r p mtu) @ map (rng_pad r) [0..<pad_count L r p mtu]"
  using f pad_count_fits(1) [OF r f, of L]
  by (auto simp: padded_def pad_count_def contents_def write_at_def fits_def wf_pbuf_def min_def)

lemma sealed_bytes:
  assumes "wf_pbuf p" and "m \<le> 2048"
  shows "slice_at 8 (12 + m) (pbuf_bytes (sealed L key r p)) = wire_header L key p @ take m (payload p)"
proof -
  have "pbuf_bytes (sealed L key r p) =
      map (rng_nonce r) [0..<8] @ wire_header L key p @ payload p @ le32 (padding p)"
    by (simp add: pbuf_bytes_def sealed_def plain_def wire_header_def le16_htons contents_def)
  moreover have "length (wire_header L key p) = 12"
    by (simp add: wire_header_def)
  ultimately show ?thesis
    using assms by (simp add: slice_at_def wf_pbuf_def)
qed

text \<open>
  C21. On the wire a datagram is what the table in encapsulate.h shows: eight bytes of nonce in
  the clear, then, under the key stream, four bytes of checksum, four of ack, the flag and the
  data length in big-endian order, the data (compressed where that makes it shorter) and the
  padding.
\<close>

theorem encapsulate_wire:
  assumes "rng_ok r" and "fits p mtu"
  shows "\<exists>n e. encapsulate L key r token p mtu = Inr (n, e)
    \<and> take (nat n) (pbuf_bytes e) =
       (let v = map (rng_nonce r) [0..<8]; pp = padded L r p mtu in
        v @ xor_stream (chacha20 L (onetimekey L key token) v)
          (wire_header L key pp @ contents pp @ map (rng_pad r) [0..<pad_count L r p mtu]))"
proof -
  let ?p = "padded L r p mtu" and ?d = "pad_count L r p mtu"
  let ?v = "map (rng_nonce r) [0..<8]" and ?B = "pbuf_bytes (sealed L key r (padded L r p mtu))"
  define l where "l = 12 + (unat (len ?p) + ?d)"
  note pf = padded_fields [OF assms, of L]
  obtain e where e: "encapsulate L key r token p mtu = Inr (int (20 + unat (len ?p) + ?d), e)"
    and ce: "crypto_encrypt L key r token ?p = Inr e"
    using encapsulate_total [OF assms] by metis
  have l: "8 + l \<le> 2072" "unat (len ?p) + ?d \<le> 2048"
    using pf(2) by (simp_all add: l_def pads_def)
  have "stream_xor L (onetimekey L key token) (int l) (sealed L key r ?p) = Inr e"
    using ce by (simp only: crypto_encrypt_eq [OF pf(1,2)] l_def add.assoc)
  note be = stream_xor_bytes [OF wf_sealed [OF pf(1)] l(1) this]
  have v: "nonce (sealed L key r ?p) = ?v" "take 8 ?B = ?v"
    by (simp_all add: sealed_def plain_def pbuf_bytes_def)
  have "slice_at 8 l ?B = wire_header L key ?p @ contents ?p @ map (rng_pad r) [0..<?d]"
    unfolding l_def by (simp only: sealed_bytes [OF pf(1) l(2)] padded_payload [OF assms])
  moreover have "take (8 + l) (pbuf_bytes e) = ?v @ xor_stream (chacha20 L (onetimekey L key token) ?v) (slice_at 8 l ?B)"
    using l wf_sealed [OF pf(1), of L key r] by (simp add: be v(1) write_at_def) (simp add: v(2))
  moreover have "nat (int (20 + unat (len ?p) + ?d)) = 8 + l"
    unfolding l_def nat_int by simp
  ultimately have "take (nat (int (20 + unat (len ?p) + ?d))) (pbuf_bytes e) =
      ?v @ xor_stream (chacha20 L (onetimekey L key token) ?v)
        (wire_header L key ?p @ contents ?p @ map (rng_pad r) [0..<?d])"
    by simp
  with e show ?thesis
    unfolding Let_def by blast
qed

theorem encapsulate_wire_witness:
  "\<exists>n e rest. encapsulate demo_lib [1, 2] demo_rng 5 (packet_of [1, 2, 3]) 1400 = Inr (n, e)
    \<and> take (nat n) (pbuf_bytes e) = [1, 2, 3, 4, 5, 6, 7, 8] @ rest"
proof -
  have nb: "map (rng_nonce demo_rng) [0..<8] = [1, 2, 3, 4, 5, 6, 7, 8]"
    by (simp add: demo_rng_def upt_rec numeral_eq_Suc)
  show ?thesis
    using encapsulate_wire [OF demo_rng_ok demo_fits [of "[1, 2, 3]" 1400], of demo_lib "[1, 2]" 5]
    unfolding Let_def nb by (simp; blast)
qed

text \<open>
  C32. The flag is not authenticated: an attacker who flips one bit of byte 17 of an
  uncompressed datagram makes the receiver decompress its data, and where that fails the
  assertion in \<^verbatim>\<open>decompress\<close> aborts the receiving process, without knowledge of the key.
\<close>

theorem flag_flip_aborts:
  assumes "rng_ok r" and "fits p mtu" and "flag p = 0" and "len p \<noteq> 0" and "\<not> shrinks L p"
    and "wf_pbuf q" and "encapsulate L key r token p mtu = Inr (n, e)"
    and "lz4_decompress L (contents p) 2048 \<in> {None, Some []}"
  shows "\<exists>q1. recv_into ((take (nat n) (pbuf_bytes e))[17 := pbuf_bytes e ! 17 XOR 1]) q = Inr q1
    \<and> decapsulate L key token q1 n = Inl AssertFailed"
proof -
  let ?p = "padded L r p mtu" and ?d = "pad_count L r p mtu"
  let ?p' = "?p\<lparr>flag := flag ?p XOR ucast (1 :: byte)\<rparr>"
  note pf = padded_fields [OF assms(1,2), of L]
  define m where "m = 20 + unat (len ?p) + ?d"
  from encapsulate_total [OF assms(1,2), of L key token] assms(7)
  have n: "n = int m" and ce: "crypto_encrypt L key r token ?p = Inr e"
    unfolding m_def by auto
  have wf': "wf_pbuf ?p'" and pads': "pads ?d ?p'"
    using pf(1,2) by (simp_all add: pads_def)
  obtain e' where ce': "crypto_encrypt L key r token ?p' = Inr e'"
    using crypto_encrypt_total [OF wf' pads'] by metis
  have flip: "pbuf_bytes e' = (pbuf_bytes e)[17 := pbuf_bytes e ! 17 XOR 1]"
    by (rule crypto_encrypt_flip_flag [OF pf(1,2) ce ce'])
  have m': "20 + unat (len ?p') \<le> m" "20 \<le> m" "m \<le> 20 + unat (len ?p') + ?d"
    by (simp_all add: m_def)
  have len': "unat (len ?p') \<le> 2048"
    using pads' by (simp add: pads_def)
  let ?o = "overlay m (plain L key r ?p') q"
  have data: "take (unat (len ?p')) (payload (overlay m ?p' q)) = take (unat (len ?p')) (payload ?p')"
    by (rule payload_overlay_full [OF wf' len' m'(1)])
  obtain q1 where rx: "recv_into (take m (pbuf_bytes e')) q = Inr q1"
      "crypto_decrypt L key token q1 (int m) = Inr (0, ?o)"
    using crypto_decrypt_encrypt(2) [OF wf' assms(6) pads' m'(2,3) data refl ce'] by blast
  have "unat (len (plain L key r ?p')) \<le> 2048" "20 + unat (len (plain L key r ?p')) \<le> m"
    using m'(1) len' by (simp_all add: plain_fields)
  note of = overlay_fields [OF wf_plain [OF wf', of L key r] assms(6)
      payload_overlay_full [OF wf_plain [OF wf'] this], unfolded plain_fields]
  have "flag ?o = 1" "len ?o = len p" "contents ?o = contents p" "wf_pbuf ?o"
    using of pf(3,4) assms(3,5) by (simp_all add: contents_def padded_def)
  moreover from this have "unat (len ?o) \<le> 2048"
    using assms(2) by (simp add: fits_def)
  ultimately have "decapsulate L key token q1 (int m) = Inl AssertFailed"
    using decapsulate_after_decrypt [OF rx(2)] decompress_aborts [of ?o L] assms(4,8)
    by (simp add: FLAG_COMPRESS_def)
  moreover have "nat n = m" "take (nat n) (pbuf_bytes e') =
      (take (nat n) (pbuf_bytes e))[17 := pbuf_bytes e ! 17 XOR 1]"
    using n by (simp_all add: flip take_update_swap)
  ultimately show ?thesis
    using rx(1) n by auto
qed

lemma demo_not_shrinks: "\<not> shrinks demo_lib (packet_of [1, 2])"
  by (simp add: shrinks_def contents_packet_of demo_lib_def run_compress_def)

theorem flag_flip_aborts_witness:
  "\<exists>n e q1. encapsulate demo_lib [1, 2] demo_rng 5 (packet_of [1, 2]) 1400 = Inr (n, e)
    \<and> recv_into ((take (nat n) (pbuf_bytes e))[17 := pbuf_bytes e ! 17 XOR 1]) (packet_of []) = Inr q1
    \<and> decapsulate demo_lib [1, 2] 5 q1 n = Inl AssertFailed"
proof -
  have f: "fits (packet_of [1, 2]) 1400"
    by (simp add: demo_fits)
  obtain n e where e: "encapsulate demo_lib [1, 2] demo_rng 5 (packet_of [1, 2]) 1400 = Inr (n, e)"
    using encapsulate_total [OF demo_rng_ok f] by metis
  have ne: "len (packet_of [1, 2]) \<noteq> 0"
    by (simp add: packet_of_def)
  have lz: "lz4_decompress demo_lib (contents (packet_of [1, 2])) 2048 \<in> {None, Some []}"
    by (simp add: contents_packet_of demo_lib_def run_decompress_def)
  show ?thesis
    using flag_flip_aborts [OF demo_rng_ok f packet_of_fields(1) ne demo_not_shrinks
        packet_of_fields(2) [of "[]"] e lz] e by auto
qed

text \<open>
  C38. The data length is checked against the payload array and not against the number of
  bytes received: a datagram cut short is accepted, with its full length, whenever the receive
  buffer still holds the missing data from an earlier packet.
\<close>

theorem truncated_datagram_accepted:
  assumes "lz4_ok L" and "rng_ok r" and "fits p mtu" and "flag p = 0" and "\<not> shrinks L p"
    and "wf_pbuf q" and "encapsulate L key r token p mtu = Inr (n, e)"
    and "20 \<le> m" and "m \<le> 20 + unat (len p)"
    and stale: "slice_at (m - 20) (unat (len p) - (m - 20)) (payload q) =
      slice_at (m - 20) (unat (len p) - (m - 20)) (payload p)"
  shows "\<exists>q1 q2. recv_into (take m (pbuf_bytes e)) q = Inr q1
    \<and> decapsulate L key token q1 (int m) = Inr (uint (len p), q2) \<and> contents q2 = contents p"
proof -
  let ?p = "padded L r p mtu"
  from encapsulate_total [OF assms(2,3), of L key token] assms(7)
  have "n = int (20 + unat (len ?p) + pad_count L r p mtu)"
    by auto
  then have n: "nat n = 20 + unat (len ?p) + pad_count L r p mtu"
    by (simp only: nat_int)
  have p: "wf_pbuf p" "unat (len p) \<le> 2048"
    using assms(3) by (simp_all add: fits_def)
  have len: "len ?p = len p" "contents ?p = contents p"
    using padded_fields(3) [OF assms(2,3), of L] assms(4,5) by (simp_all add: padded_def)
  have mn: "m \<le> nat n"
    using assms(9) n len(1) by simp
  have wf: "wf_pbuf ?p"
    by (rule padded_fields(1) [OF assms(2,3)])
  have k: "m - 20 \<le> unat (len p)"
    using assms(9) by linarith
  have "take (unat (len p)) (payload (overlay m ?p q)) =
      take (m - 20) (payload ?p) @ slice_at (m - 20) (unat (len p) - (m - 20)) (payload q)"
    using k p wf by (simp add: overlay_def wf_pbuf_def slice_at_def min_absorb1 min_absorb2)
  also have "take (m - 20) (payload ?p) = take (m - 20) (contents ?p)"
    using k len(1) by (simp add: contents_def min_absorb1)
  also have "take (m - 20) (contents ?p) @ slice_at (m - 20) (unat (len p) - (m - 20)) (payload q) =
      take (m - 20) (payload p) @ take (unat (len p) - (m - 20)) (drop (m - 20) (payload p))"
    unfolding stale using k len by (simp add: contents_def min_absorb1 slice_at_def)
  also have "\<dots> = contents ?p"
    using k len take_add [of "m - 20" "unat (len p) - (m - 20)" "payload p"]
    by (simp add: contents_def)
  finally have "take (unat (len ?p)) (payload (overlay m ?p q)) = contents ?p"
    by (simp only: len)
  from roundtrip_prefix [OF assms(1-4,6,7) refl assms(8) mn this] show ?thesis
    by blast
qed

theorem truncated_datagram_accepted_witness:
  "\<exists>n e q1 q2. encapsulate demo_lib [1, 2] demo_rng 5 (packet_of [1, 2]) 1400 = Inr (n, e)
    \<and> recv_into (take 20 (pbuf_bytes e)) (packet_of [1, 2]) = Inr q1
    \<and> decapsulate demo_lib [1, 2] 5 q1 20 = Inr (2, q2) \<and> contents q2 = [1, 2]"
proof -
  have f: "fits (packet_of [1, 2]) 1400"
    by (simp add: demo_fits)
  obtain n e where e: "encapsulate demo_lib [1, 2] demo_rng 5 (packet_of [1, 2]) 1400 = Inr (n, e)"
    using encapsulate_total [OF demo_rng_ok f] by metis
  have "uint (len (packet_of [1, 2])) = 2"
    by (simp add: packet_of_def)
  then show ?thesis
    using truncated_datagram_accepted [OF demo_lz4_ok demo_rng_ok f packet_of_fields(1)
        demo_not_shrinks packet_of_fields(2) [of "[1, 2]"] e, of 20] e
    by (auto simp: contents_packet_of)
qed

section \<open>The largest MTU\<close>

text \<open>A write that ends with the struct: its last four bytes are the padding field.\<close>

lemma mem_write_to_end:
  assumes p: "wf_pbuf p" and l: "l + length ds = 2052" "4 \<le> length ds" and lo: "l \<le> 2048"
  shows "mem_write (20 + l) ds p = Inr (p\<lparr>payload := write_at l (take (2048 - l) ds) (payload p),
    padding := get_le32 (drop (2048 - l) ds)\<rparr>)"
proof -
  let ?p' = "p\<lparr>payload := write_at l (take (2048 - l) ds) (payload p),
    padding := get_le32 (drop (2048 - l) ds)\<rparr>"
  have wf: "wf_pbuf ?p'"
    using p l lo by (simp add: wf_pbuf_def)
  have "write_at (20 + l) ds (pbuf_bytes p) = take (20 + l) (pbuf_bytes p) @ ds"
    using p l by (simp add: write_at_def)
  also have "take (20 + l) (pbuf_bytes p) = nonce p @ le32 (chksum p) @ le32 (ack p)
      @ le16 (flag p) @ le16 (len p) @ take l (payload p)"
    using p lo by (simp add: pbuf_bytes_def wf_pbuf_def)
  also have "(nonce p @ le32 (chksum p) @ le32 (ack p) @ le16 (flag p) @ le16 (len p)
      @ take l (payload p)) @ ds = pbuf_bytes ?p'"
    using p l lo by (simp add: pbuf_bytes_def wf_pbuf_def write_at_def)
  finally have "pbuf_of (write_at (20 + l) ds (pbuf_bytes p)) = ?p'"
    using wf by (simp add: pbuf_of_bytes)
  then show ?thesis
    using l by (simp add: mem_write_def layout_defs)
qed

lemma pads_overflow:
  fixes a v :: int
  assumes "0 \<le> a" and "a \<le> 2060" and "- (2 ^ 31) \<le> v" and "v < 2 ^ 31" and "v < - a \<or> 2064 - a < v"
  shows "signed_take_bit 31 (a + v) < 0 \<or> 2064 < signed_take_bit 31 (a + v)"
proof (cases "a + v < 2 ^ 31")
  case True
  then have "signed_take_bit 31 (a + v) = a + v"
    using assms by (simp add: signed_take_bit_int_eq_self_iff)
  then show ?thesis using assms(5) by linarith
next
  case False
  have "(a + v + 2 ^ 31) mod 2 ^ 32 = (a + v + 2 ^ 31 - 2 ^ 32) mod 2 ^ 32"
    by (rule minus_mod_self2 [symmetric])
  also have "\<dots> = a + v + 2 ^ 31 - 2 ^ 32"
    using False assms by (intro mod_pos_pos_trivial) simp_all
  finally have "(a + v + 2 ^ 31) mod 2 ^ 32 = a + v + 2 ^ 31 - 2 ^ 32" .
  then have "signed_take_bit 31 (a + v) = a + v - 2 ^ 32"
    by (simp add: signed_take_bit_eq_take_bit_shift take_bit_eq_mod)
  moreover have "a + v - 2 ^ 32 < 0"
    using assms by simp
  ultimately show ?thesis by simp
qed

text \<open>
  C33. An MTU that the configuration accepts (\<^verbatim>\<open>PAYLOAD_MAX\<close> counts the padding field as
  payload) breaks the sender: with \<open>mtu = PAYLOAD_MAX\<close> and an incompressible packet whose
  random padding reaches the MTU, the padding bytes overwrite the \<^verbatim>\<open>padding\<close> field itself,
  and the cipher then runs over the number of bytes this garbage says, outside the buffer.
\<close>

theorem mtu_payload_max_faults:
  assumes p: "wf_pbuf p" "flag p = 0" "unat (len p) \<le> 2048" and "\<not> shrinks L p"
    and d: "unat (len p) + pad_len r p (int PAYLOAD_MAX) = PAYLOAD_MAX"
    and v: "v = sint (get_le32 (map (rng_pad r) [2048 - unat (len p)..<2052 - unat (len p)]))"
      "v < - 12 - uint (len p) \<or> 2052 - uint (len p) < v"
  shows "encapsulate L key r token p (int PAYLOAD_MAX) = Inl OutOfBounds"
proof -
  let ?d = "pad_len r p (int PAYLOAD_MAX)" and ?l = "unat (len p)"
  let ?ds = "map (rng_pad r) [0..<?d]"
  have dl: "?d = 2052 - ?l" "?l + length ?ds = 2052" "4 \<le> length ?ds"
    using d p(3) by (simp_all add: layout_defs)
  have "drop (2048 - ?l) ?ds = map (rng_pad r) [2048 - ?l..<2052 - ?l]"
    using p(3) by (simp add: dl(1) drop_map)
  then have v': "sint (get_le32 (drop (2048 - ?l) ?ds)) = v"
    using v(1) by simp
  define p3 where "p3 = p\<lparr>padding := get_le32 (drop (2048 - ?l) ?ds),
    payload := write_at ?l (take (2048 - ?l) ?ds) (payload p)\<rparr>"
  have m: "uint (len p) < int PAYLOAD_MAX"
    using p(3) of_nat_mono [of ?l 2048, where 'a = int] by (simp add: layout_defs)
  have "(p\<lparr>padding := 0\<rparr>)\<lparr>padding := w\<rparr> = p\<lparr>padding := w\<rparr>" for w
    by simp
  have obf: "obfuscate r (p\<lparr>padding := 0\<rparr>) (int PAYLOAD_MAX) = Inr p3"
    using obfuscate_mem_write [of "p\<lparr>padding := 0\<rparr>" "int PAYLOAD_MAX" r] m
      mem_write_to_end [of "p\<lparr>padding := word_of_nat ?d\<rparr>" ?l ?ds] p(1,3) dl
    by (simp add: p3_def) (simp add: pad_len_def)
  have wf3: "wf_pbuf (p3\<lparr>nonce := map (rng_nonce r) [0..<8]\<rparr>)"
    using p(1,3) dl by (simp add: p3_def wf_pbuf_def)
  define p4 where "p4 = p3\<lparr>nonce := map (rng_nonce r) [0..<8]\<rparr>"
  have hm: "crypto_hmac L key p4 = Inr (p4\<lparr>chksum := mac32 L key (take ?l (payload p4))\<rparr>)"
    using crypto_hmac_eq [OF wf3] p(3) by (simp add: p4_def) (simp add: p3_def)
  have "uint (len p) \<le> 2048"
    using of_nat_mono [OF p(3), where 'a = int] by simp
  moreover have "- (2 ^ 31) \<le> v" "v < 2 ^ 31"
    using sint_greater_eq [of "get_le32 (drop (2048 - ?l) ?ds)"]
      sint_less [of "get_le32 (drop (2048 - ?l) ?ds)"] by (simp_all add: v')
  ultimately have "signed_take_bit 31 (12 + uint (len p) + v) < 0
      \<or> 2064 < signed_take_bit 31 (12 + uint (len p) + v)"
    using v(2) by (intro pads_overflow) auto
  moreover have "CRYPTO_LEN (p4\<lparr>chksum := c\<rparr>) = signed_take_bit 31 (12 + uint (len p) + v)" for c
    using v' by (simp add: CRYPTO_LEN_def layout_defs p4_def p3_def)
  moreover have "wf_pbuf p4"
    using wf3 by (simp add: p4_def)
  ultimately have "crypto_encrypt L key r token p3 = Inl OutOfBounds"
    unfolding crypto_encrypt_def Let_def p4_def [symmetric] hm bind_res_Inr
    by (intro stream_xor_fault) simp_all
  then show ?thesis
    using p assms(4) by (simp add: encapsulate_def compress_eq obf)
qed

theorem mtu_payload_max_faults_witness:
  "encapsulate demo_lib [1, 2] demo_rng 5 (packet_of (replicate 1999 7 @ [8])) 2052 = Inl OutOfBounds"
proof -
  define ds :: "byte list" where "ds = replicate 1999 7 @ [8]"
  have l: "length ds = 2000" "unat (len (packet_of ds)) = 2000" "uint (len (packet_of ds)) = 2000"
    by (simp_all add: ds_def packet_of_def)
  have "ds \<noteq> replicate 2000 (hd ds)"
  proof
    assume eq: "ds = replicate 2000 (hd ds)"
    have "set ds = {7, 8}"
      by (auto simp: ds_def)
    moreover have "set ds = {hd ds}"
      using arg_cong [OF eq, of set] by simp
    ultimately show False by auto
  qed
  then have "\<not> shrinks demo_lib (packet_of ds)"
    using l(1) by (simp add: shrinks_def contents_packet_of demo_lib_def run_compress_def)
  moreover have "unat (len (packet_of ds)) + pad_len demo_rng (packet_of ds) (int PAYLOAD_MAX) = PAYLOAD_MAX"
    by (simp add: l pad_len_def demo_rng_def layout_defs)
  moreover have "sint (get_le32 (map (rng_pad demo_rng) [48..<52])) = - 1751738988"
    by (simp add: upt_rec demo_rng_def get_le32_def)
  ultimately have "encapsulate demo_lib [1, 2] demo_rng 5 (packet_of ds) (int PAYLOAD_MAX) = Inl OutOfBounds"
    using mtu_payload_max_faults [of "packet_of ds" demo_lib demo_rng _ "[1, 2]" 5] l
    by (simp add: packet_of_fields)
  then show ?thesis
    by (simp add: ds_def layout_defs)
qed

end
