(* ===== verification/Channel.thy ===== *)
theory Channel
  imports Encapsulate
begin

text \<open>
  The packet layer as an interface: what is sent can be received, with any random values on one
  side and any old contents of the buffer on the other. The interpretation is \<^verbatim>\<open>encapsulate\<close>
  followed by \<^verbatim>\<open>udpsend\<close>, and \<^verbatim>\<open>udprecv\<close> followed by \<^verbatim>\<open>decapsulate\<close>.
\<close>

locale channel =
  fixes send :: "'r \<Rightarrow> 'p \<Rightarrow> 'w option"
    and recv :: "'w \<Rightarrow> 'q \<Rightarrow> 'm option"
    and meaning :: "'p \<Rightarrow> 'm"
    and random_ok :: "'r \<Rightarrow> bool"
    and packet_ok :: "'p \<Rightarrow> bool"
    and buffer_ok :: "'q \<Rightarrow> bool"
  assumes sends: "random_ok r \<Longrightarrow> packet_ok p \<Longrightarrow> \<exists>w. send r p = Some w"
    and delivers: "random_ok r \<Longrightarrow> packet_ok p \<Longrightarrow> buffer_ok q \<Longrightarrow> send r p = Some w \<Longrightarrow> recv w q = Some (meaning p)"
begin

text \<open>One datagram never stands for two packets.\<close>

lemma no_confusion:
  assumes "random_ok r" "packet_ok p" "send r p = Some w" and "random_ok r'" "packet_ok p'" "send r' p' = Some w"
    and "buffer_ok q"
  shows "meaning p = meaning p'"
  using delivers [OF assms(1,2,7,3)] delivers [OF assms(4,5,7,6)] by simp

lemma old_contents_irrelevant:
  assumes "random_ok r" "packet_ok p" "send r p = Some w" and "buffer_ok q" "buffer_ok q'"
  shows "recv w q = recv w q'"
  using delivers [OF assms(1,2,4,3)] delivers [OF assms(1,2,5,3)] by simp

end

text \<open>\<open>None\<close> is a fault of the sender, and a fault or a rejected datagram of the receiver.\<close>

definition seal :: "lib \<Rightarrow> byte list \<Rightarrow> int \<Rightarrow> int \<Rightarrow> rng \<Rightarrow> pbuf \<Rightarrow> byte list option" where
  "seal L key token mtu r p = (case encapsulate L key r token p mtu of
     Inl _ \<Rightarrow> None | Inr (n, e) \<Rightarrow> Some (take (nat n) (pbuf_bytes e)))"

definition unseal :: "lib \<Rightarrow> byte list \<Rightarrow> int \<Rightarrow> byte list \<Rightarrow> pbuf \<Rightarrow> (int \<times> byte list) option" where
  "unseal L key token w q = (case bind_res (recv_into w q) (\<lambda>q1. decapsulate L key token q1 (int (length w))) of
     Inl _ \<Rightarrow> None | Inr (k, q2) \<Rightarrow> if k < 0 then None else Some (k, contents q2))"

definition content_of :: "pbuf \<Rightarrow> int \<times> byte list" where
  "content_of p = (uint (len p), contents p)"

interpretation tunnel: channel "seal L key token mtu" "unseal L key token" content_of
  "\<lambda>r. lz4_ok L \<and> rng_ok r" "\<lambda>p. fits p mtu \<and> flag p = 0" wf_pbuf
  for L key token mtu
proof unfold_locales
  fix r p assume r: "lz4_ok L \<and> rng_ok r" and p: "fits p mtu \<and> flag p = 0"
  obtain n e where e: "encapsulate L key r token p mtu = Inr (n, e)" "wf_pbuf e" "20 \<le> n" "n \<le> 20 + max (uint (len p)) mtu"
    using encapsulate_sizes [OF conjunct2 [OF r] conjunct1 [OF p], of L key token] by blast
  then show "\<exists>w. seal L key token mtu r p = Some w"
    by (simp add: seal_def)
  fix q w assume q: "wf_pbuf q" and w: "seal L key token mtu r p = Some w"
  have w': "w = take (nat n) (pbuf_bytes e)"
    using w e(1) by (simp add: seal_def)
  have "uint (len p) \<le> 2048"
    using p of_nat_mono [of "unat (len p)" 2048, where 'a = int] by (simp add: fits_def)
  then have "n \<le> 2068"
    using e(4) p by (auto simp: fits_def)
  then have "int (length w) = n"
    using e(2,3) unfolding w' by simp
  moreover obtain q1 q2 where "recv_into w q = Inr q1" "decapsulate L key token q1 n = Inr (uint (len p), q2)"
    "contents q2 = contents p"
    using roundtrip [OF conjunct1 [OF r] conjunct2 [OF r] conjunct1 [OF p] conjunct2 [OF p] q e(1) refl] unfolding w' by blast
  ultimately show "unseal L key token w q = Some (content_of p)"
    by (simp add: unseal_def content_of_def)
qed

text \<open>
  C23. A datagram determines its packet: under one token and key, two packets that are sent as the
  same bytes (whatever the random padding and nonces were, compressed or not) have the same
  length and the same data; and what a receiver makes of a sent datagram does not depend on what
  its buffer held before.
\<close>

theorem datagram_determines_packet:
  assumes "lz4_ok L" and "rng_ok r" "rng_ok r'" and "fits p mtu" "flag p = 0" and "fits p' mtu" "flag p' = 0"
    and "seal L key token mtu r p = Some w" and "seal L key token mtu r' p' = Some w" and "wf_pbuf q" "wf_pbuf q'"
  shows "content_of p = content_of p' \<and> unseal L key token w q = unseal L key token w q'"
  using tunnel.no_confusion [of L r p mtu key token w r' p' q] tunnel.old_contents_irrelevant [of L r p mtu key token w q q']
    assms by blast

theorem datagram_determines_packet_witness:
  "\<exists>w. seal demo_lib [1, 2] 5 1400 demo_rng (packet_of [1, 2, 3]) = Some w
    \<and> unseal demo_lib [1, 2] 5 w (packet_of []) = unseal demo_lib [1, 2] 5 w (packet_of [9, 9])"
proof -
  have p: "fits (packet_of [1, 2, 3]) 1400" "flag (packet_of [1, 2, 3]) = 0" "wf_pbuf (packet_of [])" "wf_pbuf (packet_of [9, 9])"
    by (simp_all add: demo_fits packet_of_fields)
  obtain w where w: "seal demo_lib [1, 2] 5 1400 demo_rng (packet_of [1, 2, 3]) = Some w"
    using tunnel.sends [of demo_lib demo_rng "packet_of [1, 2, 3]" 1400 "[1, 2]" 5] demo_lz4_ok demo_rng_ok p by blast
  then show ?thesis
    using datagram_determines_packet [OF demo_lz4_ok demo_rng_ok demo_rng_ok p(1,2) p(1,2) w w p(3,4)] by blast
qed

end
