(* ===== verification/Transition.thy ===== *)
theory Transition
  imports Main
begin

text \<open>
  Transition systems: the states reachable from the initial ones, and four interfaces that
  the process of theory System provides. An \<open>invariant_system\<close> has an invariant that starts
  true and is kept by every step; a \<open>safe_system\<close> has moves that may fail, with a bound on
  the failures in states of the invariant; a \<open>simulation\<close> has steps with a label, and maps
  its states to those of a specification, a function that the labels drive; an \<open>audited_system\<close>
  has steps with an output and a relation between the ends of a step and its output that composes.
\<close>

inductive reach :: "('s \<Rightarrow> bool) \<Rightarrow> ('s \<Rightarrow> 's \<Rightarrow> bool) \<Rightarrow> 's \<Rightarrow> bool" for init step where
  start: "init s \<Longrightarrow> reach init step s"
| move: "reach init step s \<Longrightarrow> step s t \<Longrightarrow> reach init step t"

lemma reach_steps: "reach init step s \<Longrightarrow> step\<^sup>*\<^sup>* s t \<Longrightarrow> reach init step t"
  by (rotate_tac, induction rule: rtranclp_induct) (auto intro: reach.move)

locale invariant_system =
  fixes init :: "'s \<Rightarrow> bool"
    and step :: "'s \<Rightarrow> 's \<Rightarrow> bool"
    and inv :: "'s \<Rightarrow> bool"
  assumes init_inv: "init s \<Longrightarrow> inv s"
    and step_inv: "inv s \<Longrightarrow> step s t \<Longrightarrow> inv t"
begin

lemma reach_inv: "reach init step s \<Longrightarrow> inv s"
  by (induction rule: reach.induct) (auto intro: init_inv step_inv)

lemma steps_inv: "inv s \<Longrightarrow> step\<^sup>*\<^sup>* s t \<Longrightarrow> inv t"
  by (rotate_tac, induction rule: rtranclp_induct) (auto intro: step_inv)

end

text \<open>\<open>outcome i s\<close> is what happens on input \<open>i\<close>; \<open>Inl\<close> is a failure of kind \<open>e\<close>.\<close>

locale safe_system = invariant_system +
  fixes allowed :: "'s \<Rightarrow> 'i \<Rightarrow> bool"
    and outcome :: "'i \<Rightarrow> 's \<Rightarrow> 'e + 'r"
    and tolerated :: "'s \<Rightarrow> 'i \<Rightarrow> 'e \<Rightarrow> bool"
  assumes fails: "inv s \<Longrightarrow> allowed s i \<Longrightarrow> outcome i s = Inl e \<Longrightarrow> tolerated s i e"
begin

lemma reach_fails: "reach init step s \<Longrightarrow> allowed s i \<Longrightarrow> outcome i s = Inl e \<Longrightarrow> tolerated s i e"
  using fails reach_inv by blast

lemma reach_runs:
  "reach init step s \<Longrightarrow> allowed s i \<Longrightarrow> (\<And>e. \<not> tolerated s i e) \<Longrightarrow> \<exists>r. outcome i s = Inr r"
  using reach_fails by (cases "outcome i s") blast+

end

section \<open>Runs\<close>

text \<open>A sequence of labelled steps. The label is an input, with the time it comes, or an output.\<close>

inductive trail :: "('s \<Rightarrow> 'l \<Rightarrow> 's \<Rightarrow> bool) \<Rightarrow> 's \<Rightarrow> 'l list \<Rightarrow> 's \<Rightarrow> bool" for step where
  rest: "trail step s [] s"
| go: "step s l t \<Longrightarrow> trail step t ls u \<Longrightarrow> trail step s (l # ls) u"

inductive_simps trail_Nil [simp]: "trail step s [] t"
inductive_simps trail_Cons [simp]: "trail step s (l # ls) t"

lemma trail_append: "trail step s (ks @ ls) u \<longleftrightarrow> (\<exists>t. trail step s ks t \<and> trail step t ls u)"
  by (induction ks arbitrary: s) auto

lemma trail_keep:
  assumes "trail step s ls t" and "P s" and "\<And>s l t. P s \<Longrightarrow> step s l t \<Longrightarrow> P t"
  shows "P t"
  using assms(1,2) by (induction rule: trail.induct) (auto intro: assms(3))

text \<open>
  A step shows the specification one event or none. The events alone determine the state of the
  specification, which is the image of the state of the program after every run.
\<close>

locale simulation =
  fixes step :: "'s \<Rightarrow> 'l option \<Rightarrow> 's \<Rightarrow> bool"
    and inv :: "'s \<Rightarrow> bool"
    and advance :: "'a \<Rightarrow> 'l \<Rightarrow> 'a"
    and abs :: "'s \<Rightarrow> 'a"
  assumes step_inv: "inv s \<Longrightarrow> step s l t \<Longrightarrow> inv t"
    and step_abs: "inv s \<Longrightarrow> step s l t \<Longrightarrow> abs t = (case l of None \<Rightarrow> abs s | Some e \<Rightarrow> advance (abs s) e)"
begin

lemma trail_abs:
  "trail step s ls t \<Longrightarrow> inv s \<Longrightarrow> abs t = foldl advance (abs s) (List.map_filter id ls) \<and> inv t"
proof (induction rule: trail.induct)
  case (rest s)
  then show ?case
    by simp
next
  case (go s l t ls u)
  then show ?case
    using step_abs [OF go.prems go.hyps(1)] step_inv [OF go.prems go.hyps(1)]
    by (cases l) (simp_all add: map_filter_simps)
qed

end

locale audited_system =
  fixes step :: "'s \<Rightarrow> 'e list \<Rightarrow> 's \<Rightarrow> bool"
    and inv :: "'s \<Rightarrow> bool"
    and audit :: "'s \<Rightarrow> 'e list \<Rightarrow> 's \<Rightarrow> bool"
  assumes step_inv: "inv s \<Longrightarrow> step s es t \<Longrightarrow> inv t"
    and audit_none: "audit s [] s"
    and audit_join: "audit s es t \<Longrightarrow> audit t es' u \<Longrightarrow> audit s (es @ es') u"
    and step_audit: "inv s \<Longrightarrow> step s es t \<Longrightarrow> audit s es t"
begin

lemma trail_audit: "trail step s ess t \<Longrightarrow> inv s \<Longrightarrow> audit s (concat ess) t \<and> inv t"
proof (induction rule: trail.induct)
  case (rest s)
  then show ?case
    by (simp add: audit_none)
next
  case (go s l t ls u)
  have "audit t (concat ls) u \<and> inv u"
    by (rule go.IH [OF step_inv [OF go.prems go.hyps(1)]])
  then show ?case
    using audit_join [OF step_audit [OF go.prems go.hyps(1)]] by simp
qed

end

end
