(* ===== verification/Totp.thy ===== *)
theory Totp
  imports Crypto
begin

text \<open>
  src/totp.c: the time-based token that selects the port and the one-time key. The clock
  reading (\<^verbatim>\<open>gettimeofday\<close>) is an argument; \<^verbatim>\<open>long\<close> has 64 bits. The digest loop computes in
  \<^verbatim>\<open>int\<close>, whose overflow and whose remainder by zero are faults.
\<close>

definition TOTP_STEP :: nat where "TOTP_STEP = 500"

text \<open>The counter \<^verbatim>\<open>t\<close>: half seconds since the epoch plus the offset, modulo \<open>2 ^ 64\<close>.\<close>

definition time_step :: "int \<Rightarrow> int \<Rightarrow> int \<Rightarrow> u64" where
  "time_step sec usec offset =
     word_of_int (sec * 1000 + usec div 1000) div word_of_nat TOTP_STEP + word_of_int offset"

definition hex16 :: "u64 \<Rightarrow> string" where
  "hex16 t = hex 16 (unat t)"

text \<open>The C remainder takes the sign of the dividend.\<close>

definition c_rem :: "int \<Rightarrow> int \<Rightarrow> int" where
  "c_rem a b = sgn a * (\<bar>a\<bar> mod \<bar>b\<bar>)"

fun token_loop :: "int \<Rightarrow> byte list \<Rightarrow> int \<Rightarrow> int res" where
  "token_loop rg [] token = Inr token"
| "token_loop rg (d # ds) token =
     (let x = token * 256 + uint d; m = rg + 1 in
      if \<not> is_int32 (token * 256) \<or> \<not> is_int32 x \<or> \<not> is_int32 m then Inl IntOverflow
      else if m = 0 then Inl DivByZero
      else token_loop rg ds (c_rem x m))"

text \<open>The token of a time step, and \<^verbatim>\<open>totp\<close> itself at a clock reading.\<close>

definition token_at :: "lib \<Rightarrow> byte list \<Rightarrow> int \<Rightarrow> u64 \<Rightarrow> int res" where
  "token_at L key rg t = token_loop rg (hmac L key (to_bytes (hex16 t))) 0"

definition totp :: "lib \<Rightarrow> byte list \<Rightarrow> int \<times> int \<Rightarrow> int \<Rightarrow> int \<Rightarrow> int res" where
  "totp L key tv rg offset =
     (if rg = 0 then Inr 0
      else case tv of (sec, usec) \<Rightarrow> token_at L key rg (time_step sec usec offset))"

section \<open>The text form of the counter\<close>

definition unhex16 :: "string \<Rightarrow> u64" where
  "unhex16 s = word_of_nat (from_digits 16 s)"

text \<open>Sixteen digits hold the whole counter, so different steps are hashed from different texts.\<close>

interpretation hex16: fixed_codec hex16 unhex16 16 "\<lambda>_. True"
proof unfold_locales
  fix t :: u64
  have "unat t < 2 ^ 64"
    using unsigned_less [where 'a = nat, of t] by simp
  then have "unat t < 16 ^ 16"
    by simp
  then have "from_digits 16 (hex16 t) = unat t"
    unfolding hex16_def from_hex by (rule mod_less)
  then show "unhex16 (hex16 t) = t"
    by (simp add: unhex16_def)
qed (simp add: hex16_def)

lemma hex16_inj: "hex16 t = hex16 u \<longleftrightarrow> t = u"
  by (rule hex16.put_inj) simp_all

section \<open>The token\<close>

definition token_ranged :: "int \<Rightarrow> bool" where
  "token_ranged rg \<longleftrightarrow> 0 \<le> rg \<and> rg < 2 ^ 23"

definition big_endian :: "byte list \<Rightarrow> int" where
  "big_endian ds = foldl (\<lambda>a d. a * 256 + uint d) 0 ds"

lemma big_endian_snoc: "big_endian (ds @ [d]) = big_endian ds * 256 + uint d"
  by (simp add: big_endian_def)

lemma big_endian_nonneg: "0 \<le> big_endian ds"
  by (induction ds rule: rev_induct) (simp_all add: big_endian_def)

lemma c_rem_nonneg: "0 \<le> a \<Longrightarrow> 0 < b \<Longrightarrow> c_rem a b = a mod b"
  by (cases "a = 0") (auto simp: c_rem_def sgn_if)

lemma token_loop_eq:
  assumes "token_ranged rg" and "0 \<le> token" and "token \<le> rg"
  shows "token_loop rg ds token =
    Inr (foldl (\<lambda>a d. (a * 256 + uint d) mod (rg + 1)) token ds)"
  using assms(2,3)
proof (induction ds arbitrary: token)
  case Nil
  then show ?case by simp
next
  case (Cons d ds)
  let ?x = "token * 256 + uint d"
  have d: "0 \<le> uint d" "uint d < 256"
    using uint_bounded [of d] by simp_all
  moreover have "token < 2 ^ 23" "rg < 2 ^ 23"
    using Cons.prems assms(1) by (simp_all add: token_ranged_def)
  ultimately have "is_int32 (token * 256)" "is_int32 ?x" "is_int32 (rg + 1)"
    using Cons.prems unfolding is_int32_def by (simp_all, linarith+)
  moreover have "rg + 1 \<noteq> 0" "c_rem ?x (rg + 1) = ?x mod (rg + 1)"
    using Cons.prems d assms(1) by (simp_all add: token_ranged_def c_rem_nonneg)
  moreover have "0 \<le> ?x mod (rg + 1)" "?x mod (rg + 1) \<le> rg"
    using assms(1) pos_mod_bound [of "rg + 1" ?x] by (simp_all add: token_ranged_def)
  ultimately show ?case
    using Cons.IH [of "?x mod (rg + 1)"] by (simp add: Let_def)
qed

lemma foldl_mod:
  assumes "0 < (m :: int)"
  shows "foldl (\<lambda>a d. (a * 256 + uint d) mod m) (a mod m) ds =
    foldl (\<lambda>a d. a * 256 + uint d) a ds mod m"
proof (induction ds arbitrary: a)
  case Nil
  then show ?case by simp
next
  case (Cons d ds)
  have "(a mod m * 256 + uint d) mod m = (a * 256 + uint d) mod m"
    by (metis mod_add_left_eq mod_mult_left_eq)
  then show ?case
    using Cons.IH [of "a * 256 + uint d"] by simp
qed

lemma token_loop_value:
  assumes "token_ranged rg"
  shows "token_loop rg ds 0 = Inr (big_endian ds mod (rg + 1))"
proof -
  have "0 < rg + 1" "0 mod (rg + 1) = 0"
    using assms by (simp_all add: token_ranged_def)
  then show ?thesis
    using token_loop_eq [OF assms, of 0 ds] foldl_mod [of "rg + 1" 0 ds] assms
    by (simp add: big_endian_def token_ranged_def)
qed

text \<open>The token of a step, without faults.\<close>

definition token_of :: "lib \<Rightarrow> byte list \<Rightarrow> int \<Rightarrow> u64 \<Rightarrow> int" where
  "token_of L key rg t = big_endian (hmac L key (to_bytes (hex16 t))) mod (rg + 1)"

lemma token_of_bounds:
  "token_ranged rg \<Longrightarrow> 0 \<le> token_of L key rg t \<and> token_of L key rg t \<le> rg"
  using pos_mod_bound [of "rg + 1"] by (auto simp: token_of_def token_ranged_def)

lemma totp_token_of:
  "token_ranged rg \<Longrightarrow>
     totp L key (sec, usec) rg offset = Inr (token_of L key rg (time_step sec usec offset))"
  by (simp add: totp_def token_at_def token_loop_value token_of_def)

lemma time_step_offset: "time_step sec usec offset = time_step sec usec 0 + word_of_int offset"
  by (simp add: time_step_def)

section \<open>Properties\<close>

text \<open>
  C28. For a port range below \<open>2 ^ 23\<close> the token is the 128-bit keyed hash of the time step, read
  as a big-endian number, modulo the number of ports; it lies between 0 and the range, and the
  \<^verbatim>\<open>int\<close> arithmetic of the loop never overflows.
\<close>

theorem totp_value:
  assumes "token_ranged rg"
  shows "\<exists>token. totp L key (sec, usec) rg offset = Inr token \<and> 0 \<le> token \<and> token \<le> rg
    \<and> token = big_endian (hmac L key (to_bytes (hex16 (time_step sec usec offset)))) mod (rg + 1)"
  using totp_token_of [OF assms] token_of_bounds [OF assms] by (simp add: token_of_def)

theorem totp_value_witness:
  "\<exists>token. totp demo_lib [1, 2] (1500000000, 250000) 999 0 = Inr token \<and> 0 \<le> token \<and> token \<le> 999"
  using totp_value [of 999 demo_lib "[1, 2]" 1500000000 250000 0] by (auto simp: token_ranged_def)

end
