(* ===== verification/Subnet.thy ===== *)
theory Subnet
  imports Cstring
begin

text \<open>
  IPv4 subnets: a base address and a prefix length, the addresses a subnet covers, its text
  \<^verbatim>\<open>a.b.c.d/m\<close> as \<^verbatim>\<open>route\<close> in src/utils.c prints it, and the 32 subnets that branch off
  the path to one address. The last part is the abstract description of what the two loops of
  \<^verbatim>\<open>route\<close> compute.
\<close>

section \<open>Comparisons of 32-bit addresses in 64 bits\<close>

lemma unat_pow: "k < 32 \<Longrightarrow> unat ((2::u32) ^ k) = 2 ^ k"
proof -
  assume "k < 32"
  then have "(2::nat) ^ k < 2 ^ 32"
    by (rule power_strict_increasing) simp
  then have "unat (of_nat (2 ^ k) :: u32) = 2 ^ k"
    unfolding unat_of_nat by simp
  then show ?thesis by simp
qed

lemma unat_widen: "unat (ucast (x :: u32) :: u64) = unat x"
  by (simp add: unsigned_ucast_eq take_bit_nat_eq_self_iff less_le_trans [OF unsigned_less])

lemma unat_u32: "unat (x::u32) < 4294967296"
  using unsigned_less [where 'a=nat, of x] by simp

lemma pow_le: "k < 32 \<Longrightarrow> (2::nat) ^ k \<le> 2147483648"
  using power_increasing [of k 31 "2::nat"] by simp

lemma unat_shift: "unat (drop_bit n (w :: u32)) = unat w div 2 ^ n"
  unfolding unat_drop_bit_eq by (rule drop_bit_eq_div)

lemma low_cond:
  fixes start ip :: u32
  assumes "k < 32"
  shows "(ucast start :: u64) + ucast (push_bit k (1::u32)) - 1 < ucast ip \<longleftrightarrow> unat start + 2 ^ k \<le> unat ip"
proof -
  let ?a = "ucast start :: u64" and ?b = "ucast (push_bit k (1::u32)) :: u64"
  have "unat ?a = unat start" "unat ?b = 2 ^ k"
    using assms by (simp_all add: unat_widen unat_pow)
  then have s: "unat (?a + ?b) = unat start + 2 ^ k"
    using unat_add_lem [of ?a ?b] unat_u32 [of start] pow_le [OF assms] by simp
  have pos: "(1::nat) \<le> 2 ^ k" by simp
  then have "1 \<le> unat start + 2 ^ k" by linarith
  with s have "unat (?a + ?b - 1) = unat start + 2 ^ k - 1"
    unfolding unat_sub_if_size by (simp only: unsigned_1 if_True)
  then show ?thesis
    using pos unfolding word_less_nat_alt unat_widen by linarith
qed

lemma high_cond:
  fixes e ip :: u32
  assumes "k < 32" and "2 ^ k \<le> unat e + 1"
  shows "(ucast e :: u64) - ucast (push_bit k (1::u32)) + 1 > ucast ip \<longleftrightarrow> unat ip + 2 ^ k < unat e + 1"
proof -
  let ?a = "ucast e :: u64" and ?b = "ucast (push_bit k (1::u32)) :: u64"
  have ab: "unat ?a = unat e" "unat ?b = 2 ^ k"
    using assms by (simp_all add: unat_widen unat_pow)
  have s: "unat (?a + 1) = unat e + 1"
    using unat_add_lem [of ?a 1] unat_u32 [of e] ab by simp
  then have "unat (?a + 1 - ?b) = unat e + 1 - 2 ^ k"
    using assms(2) ab by (simp add: unat_sub_if_size)
  moreover have "?a - ?b + 1 = ?a + 1 - ?b" by simp
  ultimately have "unat (?a - ?b + 1) = unat e + 1 - 2 ^ k" by (simp only:)
  then show ?thesis
    using assms(2) unfolding word_less_nat_alt unat_widen by linarith
qed

lemma bit_unat: "bit (w::u32) n \<longleftrightarrow> odd (unat w div 2 ^ n)"
proof -
  have "bit (unat w) n = bit w n"
    by (simp add: bit_unsigned_iff)
  then show ?thesis
    by (simp add: bit_iff_odd)
qed

section \<open>Prefixes\<close>

text \<open>The address with its low \<open>n\<close> bits cleared, and the other half of the subnet above it.\<close>

definition prefix_of :: "nat \<Rightarrow> u32 \<Rightarrow> u32" where
  "prefix_of n ip = push_bit n (drop_bit n ip)"

definition sibling :: "nat \<Rightarrow> u32 \<Rightarrow> u32" where
  "sibling n ip = push_bit n (drop_bit n ip XOR 1)"

lemma unat_prefix: "unat (prefix_of n w) = unat w div 2 ^ n * 2 ^ n"
proof -
  have "unat w div 2 ^ n * 2 ^ n < 2 ^ 32"
    by (rule le_less_trans [OF div_times_less_eq_dividend]) (use unat_u32 [of w] in simp)
  then show ?thesis
    unfolding prefix_of_def unsigned_push_bit_eq unat_drop_bit_eq
    by (simp add: take_bit_eq_mod push_bit_eq_mult drop_bit_eq_div)
qed

lemma bit_prefix: "bit (prefix_of n w) i \<longleftrightarrow> n \<le> i \<and> bit w i"
  using bit_imp_le_length [of w i] by (auto simp: prefix_of_def bit_simps)

lemma bit_sibling: "bit (sibling n w) i \<longleftrightarrow> n \<le> i \<and> i < 32 \<and> (bit w i \<noteq> (i = n))"
  by (auto simp: sibling_def bit_simps)

lemma sibling_low: "n < 32 \<Longrightarrow> bit w n \<Longrightarrow> sibling n w = prefix_of (Suc n) w"
  by (rule bit_word_eqI) (auto simp: bit_sibling bit_prefix)

lemma sibling_high:
  assumes "n < 32" and "\<not> bit w n"
  shows "sibling n w = prefix_of (Suc n) w + push_bit n 1"
proof -
  have "prefix_of (Suc n) w + push_bit n 1 = prefix_of (Suc n) w OR push_bit n 1"
    by (rule disjunctive_add_eq_or, rule bit_word_eqI) (auto simp: bit_prefix bit_simps)
  moreover have "sibling n w = prefix_of (Suc n) w OR push_bit n 1"
    using assms by (intro bit_word_eqI) (auto simp: bit_prefix bit_sibling bit_simps)
  ultimately show ?thesis by simp
qed

lemma prefix_step:
  assumes "n < 32"
  shows "prefix_of n w = (if bit w n then prefix_of (Suc n) w + push_bit n 1 else prefix_of (Suc n) w)"
proof (cases "bit w n")
  case True
  have "prefix_of (Suc n) w + push_bit n 1 = prefix_of (Suc n) w OR push_bit n 1"
    by (rule disjunctive_add_eq_or, rule bit_word_eqI) (auto simp: bit_prefix bit_simps)
  moreover have "prefix_of n w = prefix_of (Suc n) w OR push_bit n 1"
    using assms True by (intro bit_word_eqI) (auto simp: bit_prefix bit_simps le_less Suc_le_eq)
  ultimately show ?thesis using True by simp
next
  case False
  then have "prefix_of n w = prefix_of (Suc n) w"
    using assms by (intro bit_word_eqI) (auto simp: bit_prefix bit_simps le_less Suc_le_eq)
  then show ?thesis using False by simp
qed

lemma drop_bit_eq_iff:
  "drop_bit n a = drop_bit n (b :: u32) \<longleftrightarrow> (\<forall>i. n \<le> i \<and> i < 32 \<longrightarrow> bit a i = bit b i)"
proof
  assume *: "drop_bit n a = drop_bit n b"
  have "bit a i = bit b i" if "n \<le> i" for i
    using arg_cong [OF *, of "\<lambda>w. bit w (i - n)"] that by (simp add: bit_drop_bit_eq)
  then show "\<forall>i. n \<le> i \<and> i < 32 \<longrightarrow> bit a i = bit b i" by simp
next
  assume "\<forall>i. n \<le> i \<and> i < 32 \<longrightarrow> bit a i = bit b i"
  then show "drop_bit n a = drop_bit n b"
    using bit_imp_le_length [of a] bit_imp_le_length [of b]
    by (intro bit_word_eqI) (simp add: bit_drop_bit_eq, metis le_add1)
qed

section \<open>Subnets\<close>

datatype cidr = Cidr (cidr_base: u32) (cidr_len: nat)

definition covers :: "cidr \<Rightarrow> u32 \<Rightarrow> bool" where
  "covers c a \<longleftrightarrow> drop_bit (32 - cidr_len c) a = drop_bit (32 - cidr_len c) (cidr_base c)"

text \<open>No bit below the prefix is set, which is what \<^verbatim>\<open>ip route add\<close> asks for.\<close>

definition aligned :: "cidr \<Rightarrow> bool" where
  "aligned c \<longleftrightarrow> take_bit (32 - cidr_len c) (cidr_base c) = 0"

definition branch :: "u32 \<Rightarrow> nat \<Rightarrow> cidr" where
  "branch ip m = Cidr (sibling (32 - m) ip) m"

text \<open>The branches below and above the address, with prefix lengths from \<open>m\<close> on.\<close>

definition lower_branches :: "u32 \<Rightarrow> nat \<Rightarrow> cidr list" where
  "lower_branches ip m = map (branch ip) (filter (\<lambda>k. bit ip (32 - k)) [m..<33])"

definition upper_branches :: "u32 \<Rightarrow> nat \<Rightarrow> cidr list" where
  "upper_branches ip m = map (branch ip) (filter (\<lambda>k. \<not> bit ip (32 - k)) [m..<33])"

definition subnets_without :: "u32 \<Rightarrow> cidr list" where
  "subnets_without ip = lower_branches ip 1 @ upper_branches ip 1"

lemma covers_branch:
  assumes "1 \<le> m" and "m \<le> 32"
  shows "covers (branch ip m) a \<longleftrightarrow> (\<forall>i. 32 - m \<le> i \<and> i < 32 \<longrightarrow> bit a i = (bit ip i \<noteq> (i = 32 - m)))"
  by (auto simp: covers_def branch_def drop_bit_eq_iff bit_sibling)

lemma set_subnets_without: "set (subnets_without ip) = branch ip ` {1..32}"
  by (auto simp: subnets_without_def lower_branches_def upper_branches_def)

lemma branch_inj: "inj (branch ip)"
  by (auto simp: inj_def branch_def)

lemma length_subnets_without: "length (subnets_without ip) = 32"
proof -
  have "length (subnets_without ip) = length [1..<33]"
    unfolding subnets_without_def lower_branches_def upper_branches_def length_append length_map
    by (rule sum_length_filter_compl)
  then show ?thesis by simp
qed

lemma branch_aligned: "m \<le> 32 \<Longrightarrow> aligned (branch ip m)"
  unfolding aligned_def branch_def cidr.sel by (rule bit_word_eqI) (auto simp: bit_sibling bit_simps)

lemma highest_difference:
  fixes a ip :: u32
  assumes "a \<noteq> ip"
  obtains n where "n < 32" "bit a n \<noteq> bit ip n" "\<And>i. n < i \<Longrightarrow> i < 32 \<Longrightarrow> bit a i = bit ip i"
proof -
  let ?D = "{i. i < 32 \<and> bit a i \<noteq> bit ip i}"
  have "?D \<noteq> {}"
    using assms by (auto simp: bit_eq_iff)
  then have m: "Max ?D \<in> ?D"
    by (intro Max_in) auto
  show ?thesis
  proof (rule that [of "Max ?D"])
    show "bit a i = bit ip i" if "Max ?D < i" "i < 32" for i
      using that Max_ge [of ?D i] by fastforce
  qed (use m in auto)
qed

lemma covered_by_branch:
  assumes "n < 32" "bit a n \<noteq> bit ip n" "\<And>i. n < i \<Longrightarrow> i < 32 \<Longrightarrow> bit a i = bit ip i"
  shows "covers (branch ip (32 - n)) a"
proof -
  have "bit a i = (bit ip i \<noteq> (i = n))" if "n \<le> i" "i < 32" for i
    using assms(2) assms(3) [of i] that by (cases "i = n") auto
  then show ?thesis
    using assms(1) by (simp add: covers_branch)
qed

lemma branch_covers_unique:
  assumes "1 \<le> m" "m \<le> 32" "1 \<le> k" "k \<le> 32" "covers (branch ip m) a" "covers (branch ip k) a"
  shows "m = k"
proof (rule ccontr)
  assume "m \<noteq> k"
  then consider "32 - m < 32 - k" | "32 - k < 32 - m"
    using assms by linarith
  then show False
    using assms by cases (fastforce simp: covers_branch)+
qed

text \<open>Every address but \<open>ip\<close> lies in exactly one of the subnets, and \<open>ip\<close> in none.\<close>

lemma subnets_partition:
  assumes "a \<noteq> ip"
  shows "\<exists>!c. c \<in> set (subnets_without ip) \<and> covers c a"
proof -
  obtain n where n: "n < 32" "bit a n \<noteq> bit ip n" "\<And>i. n < i \<Longrightarrow> i < 32 \<Longrightarrow> bit a i = bit ip i"
    using highest_difference [OF assms] by blast
  have "branch ip (32 - n) \<in> set (subnets_without ip) \<and> covers (branch ip (32 - n)) a"
    using covered_by_branch [of n a ip] n by (auto simp: set_subnets_without)
  moreover have "c = branch ip (32 - n)" if "c \<in> set (subnets_without ip) \<and> covers c a" for c
  proof -
    obtain m where m: "c = branch ip m" "1 \<le> m" "m \<le> 32"
      using \<open>c \<in> set (subnets_without ip) \<and> covers c a\<close>
      unfolding set_subnets_without by fastforce
    then have "m = 32 - n"
      using that covered_by_branch [OF n] n(1) by (intro branch_covers_unique [of m "32 - n" ip a]) simp_all
    then show ?thesis using m by simp
  qed
  ultimately show ?thesis
    by (rule ex1I)
qed

lemma subnets_spare_server: "c \<in> set (subnets_without ip) \<Longrightarrow> \<not> covers c ip"
proof
  assume "c \<in> set (subnets_without ip)" "covers c ip"
  then obtain m where "1 \<le> m" "m \<le> 32" "covers (branch ip m) ip"
    by (auto simp: set_subnets_without)
  then have "\<forall>i. 32 - m \<le> i \<and> i < 32 \<longrightarrow> bit ip i = (bit ip i \<noteq> (i = 32 - m))"
    by (simp only: covers_branch)
  then have "32 - m \<le> 32 - m \<and> 32 - m < 32 \<longrightarrow> bit ip (32 - m) = (bit ip (32 - m) \<noteq> (32 - m = 32 - m))"
    by (rule spec)
  then show False
    using \<open>1 \<le> m\<close> by simp
qed

section \<open>The order of the routes\<close>

text \<open>Subnets are ordered by base address, then by prefix length.\<close>

instantiation cidr :: linorder
begin

definition less_eq_cidr :: "cidr \<Rightarrow> cidr \<Rightarrow> bool" where
  "less_eq_cidr c d \<longleftrightarrow> cidr_base c < cidr_base d \<or> cidr_base c = cidr_base d \<and> cidr_len c \<le> cidr_len d"

definition less_cidr :: "cidr \<Rightarrow> cidr \<Rightarrow> bool" where
  "less_cidr c d \<longleftrightarrow> cidr_base c < cidr_base d \<or> cidr_base c = cidr_base d \<and> cidr_len c < cidr_len d"

instance
  by intro_classes (auto simp: less_eq_cidr_def less_cidr_def intro: cidr.expand)

end

lemma less_by_bit:
  fixes a b :: u32
  assumes "\<not> bit a k" and "bit b k" and "\<And>i. k < i \<Longrightarrow> i < 32 \<Longrightarrow> bit a i = bit b i"
  shows "a < b"
proof -
  have "drop_bit (Suc k) a = drop_bit (Suc k) b"
    using assms(3) by (auto simp: drop_bit_eq_iff)
  from arg_cong [OF this, of unat] have "unat a div 2 ^ k div 2 = unat b div 2 ^ k div 2"
    unfolding unat_shift power_Suc2 div_mult2_eq .
  moreover have "even (unat a div 2 ^ k)" "odd (unat b div 2 ^ k)"
    using assms(1,2) by (simp_all add: bit_unat)
  ultimately have "unat a div 2 ^ k < unat b div 2 ^ k"
    by (metis div_mult_mod_eq even_iff_mod_2_eq_zero less_add_one odd_iff_mod_2_eq_one add_0_right)
  then have "unat a < unat b"
    by (meson div_le_mono leD leI)
  then show ?thesis
    by (simp add: word_less_nat_alt)
qed

lemma sibling_order:
  assumes "n < k" and "k < 32"
  shows "bit ip k \<Longrightarrow> sibling k ip < sibling n ip"
    and "\<not> bit ip k \<Longrightarrow> sibling n ip < sibling k ip"
  using assms by (auto intro!: less_by_bit [of _ k] simp: bit_sibling)

text \<open>The routes below the server are emitted upwards, those above it downwards.\<close>

lemma below_ascending: "sorted_wrt (<) (lower_branches ip 1)"
proof -
  have "sorted_wrt (\<lambda>x y. branch ip x < branch ip y) (filter (\<lambda>k. bit ip (32 - k)) [1..<33])"
  proof (rule sorted_wrt_mono_rel)
    show "sorted_wrt (<) (filter (\<lambda>k. bit ip (32 - k)) [1..<33])"
      by (rule sorted_wrt_filter) simp
  next
    fix x y assume "x \<in> set (filter (\<lambda>k. bit ip (32 - k)) [1..<33])"
      "y \<in> set (filter (\<lambda>k. bit ip (32 - k)) [1..<33])" "x < y"
    then show "branch ip x < branch ip y"
      using sibling_order(1) [of "32 - y" "32 - x" ip] by (simp add: less_cidr_def branch_def) linarith
  qed
  then show ?thesis
    by (simp add: lower_branches_def sorted_wrt_map)
qed

lemma above_descending: "sorted_wrt (>) (upper_branches ip 1)"
proof -
  have "sorted_wrt (\<lambda>x y. branch ip x > branch ip y) (filter (\<lambda>k. \<not> bit ip (32 - k)) [1..<33])"
  proof (rule sorted_wrt_mono_rel)
    show "sorted_wrt (<) (filter (\<lambda>k. \<not> bit ip (32 - k)) [1..<33])"
      by (rule sorted_wrt_filter) simp
  next
    fix x y assume "x \<in> set (filter (\<lambda>k. \<not> bit ip (32 - k)) [1..<33])"
      "y \<in> set (filter (\<lambda>k. \<not> bit ip (32 - k)) [1..<33])" "x < y"
    then show "branch ip x > branch ip y"
      using sibling_order(2) [of "32 - y" "32 - x" ip] by (simp add: less_cidr_def branch_def) linarith
  qed
  then show ?thesis
    by (simp add: upper_branches_def sorted_wrt_map)
qed

section \<open>Subnets as text\<close>

definition octet :: "nat \<Rightarrow> u32 \<Rightarrow> nat" where
  "octet i w = unat (drop_bit (8 * i) w AND 0xFF)"

text \<open>\<^verbatim>\<open>sprintf(subnet, "%u.%u.%u.%u/%d", ...)\<close>\<close>

definition cidr_text :: "cidr \<Rightarrow> string" where
  "cidr_text c = (let b = cidr_base c in
     dec (unat (drop_bit 24 b)) @ ''.'' @ dec (octet 2 b) @ ''.'' @ dec (octet 1 b) @ ''.'' @ dec (octet 0 b)
       @ ''/'' @ dec (cidr_len c))"

text \<open>Reading such a text, as the \<^verbatim>\<open>ip\<close> and \<^verbatim>\<open>route\<close> commands do.\<close>

definition read_cidr :: "string \<Rightarrow> cidr option" where
  "read_cidr s =
     (case split_at (CHR ''.'') s of None \<Rightarrow> None | Some (a, s) \<Rightarrow>
     (case split_at (CHR ''.'') s of None \<Rightarrow> None | Some (b, s) \<Rightarrow>
     (case split_at (CHR ''.'') s of None \<Rightarrow> None | Some (c, s) \<Rightarrow>
     (case split_at (CHR ''/'') s of None \<Rightarrow> None | Some (d, m) \<Rightarrow>
        Some (Cidr (of_nat (((from_digits 10 a * 256 + from_digits 10 b) * 256 + from_digits 10 c) * 256
          + from_digits 10 d)) (from_digits 10 m))))))"

lemma octet_eq: "octet i w = unat w div 2 ^ (8 * i) mod 256"
proof -
  have "drop_bit (8 * i) w AND 0xFF = take_bit 8 (drop_bit (8 * i) w)"
    by (simp add: take_bit_eq_mask mask_eq_exp_minus_1)
  then show ?thesis
    unfolding octet_def
    by (simp only: unsigned_take_bit_eq unat_shift) (simp add: take_bit_eq_mod)
qed

lemma octets: "((unat w div 2 ^ 24 * 256 + octet 2 w) * 256 + octet 1 w) * 256 + octet 0 w = unat w"
proof -
  have s: "x div (k * 256) * 256 + x div k mod 256 = x div k" for x k :: nat
    by (simp add: div_mult2_eq)
  show ?thesis
    using s [of "unat w" 65536] s [of "unat w" 256] s [of "unat w" 1] by (simp add: octet_eq)
qed

lemma dec_dot: "CHR ''.'' \<notin> set (dec k)" "CHR ''/'' \<notin> set (dec k)"
proof -
  have "\<not> is_digit (CHR ''.'')" "\<not> is_digit (CHR ''/'')"
    by (simp_all add: is_digit_def)
  then show "CHR ''.'' \<notin> set (dec k)" "CHR ''/'' \<notin> set (dec k)"
    using dec_digits by blast+
qed

lemma read_cidr_text: "read_cidr (cidr_text c) = Some c"
proof -
  have "unat (drop_bit 24 (cidr_base c)) = unat (cidr_base c) div 2 ^ 24"
    by (rule unat_shift)
  then have "((unat (drop_bit 24 (cidr_base c)) * 256 + octet 2 (cidr_base c)) * 256 + octet 1 (cidr_base c)) * 256
      + octet 0 (cidr_base c) = unat (cidr_base c)"
    by (simp only: octets)
  then show ?thesis
    unfolding read_cidr_def cidr_text_def Let_def
    by (simp only: append_Cons append_Nil split_at_append dec_dot not_False_eq_True option.case prod.case
        from_dec of_nat_unat ucast_id option.simps prod.simps) simp
qed

lemma length_cidr_text: "cidr_len c \<le> 32 \<Longrightarrow> length (cidr_text c) \<le> 18"
proof -
  assume "cidr_len c \<le> 32"
  then have m: "length (dec (cidr_len c)) \<le> 2"
    by (intro length_dec) simp_all
  have o: "length (dec (octet i (cidr_base c))) \<le> 3" for i
    by (rule length_dec) (simp_all add: octet_eq less_trans [OF pos_mod_bound])
  have "unat (cidr_base c) div 2 ^ 24 < 256"
    using unat_u32 [of "cidr_base c"] by (simp add: unat_drop_bit_eq drop_bit_eq_div less_mult_imp_div_less)
  then have h: "length (dec (unat (drop_bit 24 (cidr_base c)))) \<le> 3"
    unfolding unat_shift by (intro length_dec) simp_all
  show ?thesis
    using m h o [of 0] o [of 1] o [of 2] by (simp add: cidr_text_def Let_def)
qed

end
