(* ===== verification/Shell.thy ===== *)
theory Shell
  imports Cstring
begin

text \<open>
  Running commands as src/utils.c does: \<^verbatim>\<open>sprintf\<close> into a buffer of fixed size, \<^verbatim>\<open>system\<close>,
  and the macro \<^verbatim>\<open>shell\<close> that returns from the calling function as soon as a command fails.

  What \<^verbatim>\<open>system\<close> returns is a parameter: a function of the commands run before and of the
  command. A \<open>script\<close> takes the list of the commands run so far to the value the function
  returns and the extended list; 0 is success, and a non-zero value ends the whole function.
\<close>

type_synonym sys = "string list \<Rightarrow> string \<Rightarrow> int"
type_synonym script = "string list \<Rightarrow> (int \<times> string list) res"

definition fmt :: "nat \<Rightarrow> string \<Rightarrow> string res" where
  "fmt cap s = (if length s < cap then Inr s else Inl OutOfBounds)"

text \<open>\<^verbatim>\<open>sprintf(cmd, ...); shell(cmd);\<close> with \<open>cap\<close> the size of \<^verbatim>\<open>cmd\<close>.\<close>

definition shell :: "nat \<Rightarrow> sys \<Rightarrow> string \<Rightarrow> script" where
  "shell cap sys cmd tr = bind_res (fmt cap cmd) (\<lambda>c. Inr (sys tr c, tr @ [c]))"

definition finish :: script where
  "finish tr = Inr (0, tr)"

definition andthen :: "script \<Rightarrow> script \<Rightarrow> script" where
  "andthen f g tr = bind_res (f tr) (\<lambda>(r, tr'). if r \<noteq> 0 then Inr (r, tr') else g tr')"

fun script :: "nat \<Rightarrow> sys \<Rightarrow> string list \<Rightarrow> script" where
  "script cap sys [] = finish"
| "script cap sys (c # cs) = andthen (shell cap sys c) (script cap sys cs)"

text \<open>\<^verbatim>\<open>/bin/sh -c '...'\<close>\<close>

definition sh :: "string \<Rightarrow> string" where
  "sh body = ''/bin/sh -c '' @ [CHR 0x27] @ body @ [CHR 0x27]"

lemma length_sh [simp]: "length (sh body) = length body + 13"
  by (simp add: sh_def)

lemma sh_inj [simp]: "sh a = sh b \<longleftrightarrow> a = b"
  by (simp add: sh_def)

lemma andthen_finish_left [simp]: "andthen finish g = g"
  by (simp add: finish_def andthen_def fun_eq_iff)

lemma andthen_finish [simp]: "andthen f finish = f"
  by (auto simp: andthen_def finish_def fun_eq_iff bind_res_def split: sum.splits)

lemma andthen_assoc: "andthen (andthen f g) h = andthen f (andthen g h)"
  by (auto simp: andthen_def fun_eq_iff bind_res_def split: sum.splits)

lemma script_append: "script cap sys (cs @ ds) = andthen (script cap sys cs) (script cap sys ds)"
  by (induction cs) (simp_all add: andthen_assoc)

text \<open>
  A script whose commands fit the buffer does not fault. It runs a prefix of its commands in
  order: all of them succeeded except possibly the last one, whose value is returned.
\<close>

lemma script_runs_prefix:
  assumes "\<forall>c \<in> set cs. length c < cap"
  obtains r n where "n \<le> length cs" and "script cap sys cs tr = Inr (r, tr @ take n cs)"
    and "\<And>i. i < n \<Longrightarrow> i + 1 < n \<or> r = 0 \<Longrightarrow> sys (tr @ take i cs) (cs ! i) = 0"
    and "r = 0 \<Longrightarrow> n = length cs"
    and "r \<noteq> 0 \<Longrightarrow> 0 < n \<and> sys (tr @ take (n - 1) cs) (cs ! (n - 1)) = r"
proof -
  have "\<exists>r n. n \<le> length cs \<and> script cap sys cs tr = Inr (r, tr @ take n cs)
    \<and> (\<forall>i < n. i + 1 < n \<or> r = 0 \<longrightarrow> sys (tr @ take i cs) (cs ! i) = 0) \<and> (r = 0 \<longrightarrow> n = length cs)
    \<and> (r \<noteq> 0 \<longrightarrow> 0 < n \<and> sys (tr @ take (n - 1) cs) (cs ! (n - 1)) = r)"
    using assms
  proof (induction cs arbitrary: tr)
    case Nil
    then show ?case by (simp add: finish_def)
  next
    case (Cons c cs)
    show ?case
    proof (cases "sys tr c = 0")
      case False
      then show ?thesis
        using Cons.prems
        by (intro exI [of _ "sys tr c"] exI [of _ 1]) (simp add: andthen_def shell_def fmt_def)
    next
      case True
      obtain r n where rn: "n \<le> length cs" "script cap sys cs (tr @ [c]) = Inr (r, (tr @ [c]) @ take n cs)"
        "\<forall>i < n. i + 1 < n \<or> r = 0 \<longrightarrow> sys ((tr @ [c]) @ take i cs) (cs ! i) = 0" "r = 0 \<longrightarrow> n = length cs"
        "r \<noteq> 0 \<longrightarrow> 0 < n \<and> sys ((tr @ [c]) @ take (n - 1) cs) (cs ! (n - 1)) = r"
        using Cons.IH [of "tr @ [c]"] Cons.prems by auto
      have "sys (tr @ take i (c # cs)) ((c # cs) ! i) = 0" if "i < Suc n" "i + 1 < Suc n \<or> r = 0" for i
        using rn(3) True that by (cases i) auto
      moreover have "r \<noteq> 0 \<longrightarrow> sys (tr @ take n (c # cs)) ((c # cs) ! n) = r"
        using rn(5) by (cases n) auto
      ultimately show ?thesis
        using rn True Cons.prems
        by (intro exI [of _ r] exI [of _ "Suc n"]) (auto simp: andthen_def shell_def fmt_def)
    qed
  qed
  then show ?thesis
    using that by blast
qed

lemma script_all_ok:
  assumes "\<forall>c \<in> set cs. length c < cap" and "\<And>tr c. c \<in> set cs \<Longrightarrow> sys tr c = 0"
  shows "script cap sys cs tr = Inr (0, tr @ cs)"
  using assms by (induction cs arbitrary: tr) (auto simp: andthen_def shell_def fmt_def finish_def)

end
