(* ===== verification/Utils.thy ===== *)
theory Utils
  imports Conf Subnet Shell
begin

text \<open>
  src/utils.c: the commands that set up the interface, the routes and the address translation,
  dropping privileges and going to the background. A function is a script over the commands it
  runs (theory Shell). The loops of \<^verbatim>\<open>route\<close> keep their 32-bit and 64-bit arithmetic; they are
  partial functions, so that their termination is a theorem.
\<close>

section \<open>The interface\<close>

definition ifconfig_cmds :: "target \<Rightarrow> string \<Rightarrow> int \<Rightarrow> string \<Rightarrow> string \<Rightarrow> string \<Rightarrow> string list" where
  "ifconfig_cmds tgt tunif mtu address peer address6 =
     (case tgt of
        Linux \<Rightarrow>
          [sh (''ip link set '' @ tunif @ '' up''),
           sh (''ip link set '' @ tunif @ '' mtu '' @ show_int mtu)]
          @ (if address \<noteq> [] then [sh (''ip addr add '' @ address @ '' dev '' @ tunif)] else [])
          @ (if address6 \<noteq> [] then [sh (''ip -6 addr add '' @ address6 @ '' dev '' @ tunif)] else [])
      | Darwin \<Rightarrow>
          [sh (''ifconfig '' @ tunif @ '' up''),
           sh (''ifconfig '' @ tunif @ '' mtu '' @ show_int mtu)]
          @ (if address \<noteq> [] then [sh (''ifconfig '' @ tunif @ '' '' @ address @ '' '' @ peer)] else [])
          @ (if address6 \<noteq> [] then [sh (''ipconfig set '' @ tunif @ '' MANUAL-V6 '' @ address6)] else []))"

definition ifconfig :: "target \<Rightarrow> sys \<Rightarrow> string \<Rightarrow> int \<Rightarrow> string \<Rightarrow> string \<Rightarrow> string \<Rightarrow> script" where
  "ifconfig tgt sys tunif mtu address peer address6 =
     script 256 sys (ifconfig_cmds tgt tunif mtu address peer address6)"

section \<open>Routes\<close>

definition route_cmd :: "target \<Rightarrow> string \<Rightarrow> string \<Rightarrow> string" where
  "route_cmd tgt tunif subnet =
     (case tgt of
        Linux \<Rightarrow> sh (''ip route add '' @ subnet @ '' dev '' @ tunif)
      | Darwin \<Rightarrow> sh (''route add '' @ subnet @ '' -interface '' @ tunif @ '' >/dev/null''))"

definition route6_cmd :: "target \<Rightarrow> string \<Rightarrow> string" where
  "route6_cmd tgt tunif =
     (case tgt of
        Linux \<Rightarrow> sh (''ip -6 route add ::/0 dev '' @ tunif)
      | Darwin \<Rightarrow> sh (''route add -inet6 ::/0 -interface '' @ tunif @ '' >/dev/null''))"

text \<open>One pass through the body of a loop: the subnet into \<^verbatim>\<open>subnet[32]\<close>, the command into \<^verbatim>\<open>cmd[256]\<close>.\<close>

definition add_route :: "target \<Rightarrow> string \<Rightarrow> sys \<Rightarrow> cidr \<Rightarrow> script" where
  "add_route tgt tunif sys c tr =
     bind_res (fmt 32 (cidr_text c)) (\<lambda>subnet. shell 256 sys (route_cmd tgt tunif subnet) tr)"

text \<open>\<open>1U << (32 - mask)\<close>\<close>

definition block :: "nat \<Rightarrow> u32" where
  "block m = push_bit (32 - m) 1"

partial_function (option) low_loop ::
  "target \<Rightarrow> string \<Rightarrow> sys \<Rightarrow> u32 \<Rightarrow> u32 \<Rightarrow> nat \<Rightarrow> string list \<Rightarrow> (int \<times> string list) res option" where
  [code]: "low_loop tgt tunif sys ip start m tr =
     (if m \<le> 32 then
        if (ucast start :: u64) + ucast (block m) - 1 < ucast ip then
          (case add_route tgt tunif sys (Cidr start m) tr of
             Inl e \<Rightarrow> Some (Inl e)
           | Inr rt \<Rightarrow>
               if fst rt \<noteq> 0 then Some (Inr rt)
               else low_loop tgt tunif sys ip (start + block m) m (snd rt))
        else low_loop tgt tunif sys ip start (m + 1) tr
      else Some (finish tr))"

partial_function (option) high_loop ::
  "target \<Rightarrow> string \<Rightarrow> sys \<Rightarrow> u32 \<Rightarrow> u32 \<Rightarrow> nat \<Rightarrow> string list \<Rightarrow> (int \<times> string list) res option" where
  [code]: "high_loop tgt tunif sys ip ip_end m tr =
     (if m \<le> 32 then
        if (ucast ip_end :: u64) - ucast (block m) + 1 > ucast ip then
          (case add_route tgt tunif sys (Cidr (ip_end - block m + 1) m) tr of
             Inl e \<Rightarrow> Some (Inl e)
           | Inr rt \<Rightarrow>
               if fst rt \<noteq> 0 then Some (Inr rt)
               else high_loop tgt tunif sys ip (ip_end - block m) m (snd rt))
        else high_loop tgt tunif sys ip ip_end (m + 1) tr
      else Some (finish tr))"

text \<open>
  \<open>resolve\<close> stands for \<^verbatim>\<open>ipremote\<close>, \<^verbatim>\<open>ipaddrstr\<close> and \<^verbatim>\<open>inet_pton\<close>: the IPv4 address of a
  server as a number, or \<open>None\<close> when \<^verbatim>\<open>errno\<close> is set.
\<close>

definition route :: "target \<Rightarrow> sys \<Rightarrow> (string \<Rightarrow> u32 option) \<Rightarrow> string \<Rightarrow> string \<Rightarrow> bool \<Rightarrow> bool
    \<Rightarrow> string list \<Rightarrow> (int \<times> string list) res option" where
  "route tgt sys resolve tunif host ipv4 ipv6 tr =
     (let v6 = (\<lambda>tr. if ipv6 then Some (shell 256 sys (route6_cmd tgt tunif) tr) else Some (finish tr)) in
      if \<not> ipv4 then v6 tr
      else case resolve host of
          None \<Rightarrow> Some (Inr (-1, tr))
        | Some ip \<Rightarrow>
            (case low_loop tgt tunif sys ip 0 1 tr of
               None \<Rightarrow> None
             | Some (Inl e) \<Rightarrow> Some (Inl e)
             | Some (Inr (r, tr1)) \<Rightarrow>
                 if r \<noteq> 0 then Some (Inr (r, tr1))
                 else (case high_loop tgt tunif sys ip (- 1) 1 tr1 of
                     None \<Rightarrow> None
                   | Some (Inl e) \<Rightarrow> Some (Inl e)
                   | Some (Inr (r, tr2)) \<Rightarrow> if r \<noteq> 0 then Some (Inr (r, tr2)) else v6 tr2)))"

section \<open>Address translation\<close>

definition tcpmss :: string where
  "tcpmss = '' -p tcp -m tcp --tcp-flags SYN,RST SYN -j TCPMSS --clamp-mss-to-pmtu''"

definition nat_on_cmds :: "string \<Rightarrow> string list" where
  "nat_on_cmds a =
     [sh ''sysctl -w net.ipv4.ip_forward=1 >/dev/null'',
      sh (''iptables -t nat -A POSTROUTING -s '' @ a @ '' -j MASQUERADE''),
      sh (''iptables -A FORWARD -s '' @ a @ '' -j ACCEPT''),
      sh (''iptables -A FORWARD -d '' @ a @ '' -j ACCEPT''),
      sh (''iptables -t mangle -A FORWARD -s '' @ a @ tcpmss),
      sh (''iptables -t mangle -A FORWARD -d '' @ a @ tcpmss)]"

definition nat_off_cmds :: "string \<Rightarrow> string list" where
  "nat_off_cmds a =
     [sh (''iptables -t nat -D POSTROUTING -s '' @ a @ '' ! -d '' @ a @ '' -j MASQUERADE''),
      sh (''iptables -D FORWARD -s '' @ a @ '' -j ACCEPT''),
      sh (''iptables -D FORWARD -d '' @ a @ '' -j ACCEPT''),
      sh (''iptables -t mangle -D FORWARD -s '' @ a @ tcpmss),
      sh (''iptables -t mangle -D FORWARD -d '' @ a @ tcpmss)]"

definition nat_rules :: "sys \<Rightarrow> string \<Rightarrow> bool \<Rightarrow> script" where
  "nat_rules sys a on = script 200 sys (if on then nat_on_cmds a else nat_off_cmds a)"

section \<open>What the loops of \<open>route\<close> run\<close>

lemma prefix_bound:
  assumes "n \<le> 32"
  shows "unat (ip :: u32) div 2 ^ n * 2 ^ n + 2 ^ n \<le> 2 ^ 32"
proof -
  have "unat ip div 2 ^ n < 2 ^ (32 - n)"
    using unat_u32 [of ip] assms by (simp add: less_mult_imp_div_less flip: power_add)
  then have "(unat ip div 2 ^ n + 1) * 2 ^ n \<le> 2 ^ (32 - n) * 2 ^ n"
    by (intro mult_right_mono) simp_all
  then show ?thesis
    using assms by (simp add: flip: power_add)
qed

text \<open>The tests of the loops, at the values their variables have.\<close>

lemma half_cases:
  fixes x :: nat
  obtains q r where "x div 2 ^ k = 2 * (x div 2 ^ Suc k) + q" "x = (2 * (x div 2 ^ Suc k) + q) * 2 ^ k + r"
    "r < 2 ^ k" "q < 2" "odd (x div 2 ^ k) \<longleftrightarrow> q = 1"
proof (rule that [of "x div 2 ^ k mod 2" "x mod 2 ^ k"])
  have "x div 2 ^ Suc k = x div 2 ^ k div 2"
    unfolding power_Suc2 by (rule div_mult2_eq)
  then show q: "x div 2 ^ k = 2 * (x div 2 ^ Suc k) + x div 2 ^ k mod 2"
    by simp
  show "x = (2 * (x div 2 ^ Suc k) + x div 2 ^ k mod 2) * 2 ^ k + x mod 2 ^ k"
    unfolding q [symmetric] by (rule div_mult_mod_eq [symmetric])
qed (auto simp: odd_iff_mod_2_eq_one)

lemma low_test: "unat (prefix_of (Suc k) ip) + 2 ^ k \<le> unat ip \<longleftrightarrow> bit ip k"
proof -
  obtain q r where x: "unat ip = (2 * (unat ip div 2 ^ Suc k) + q) * 2 ^ k + r" "r < 2 ^ k" "q < 2"
    and q: "odd (unat ip div 2 ^ k) \<longleftrightarrow> q = 1"
    by (rule half_cases)
  have "unat ip = unat (prefix_of (Suc k) ip) + q * 2 ^ k + r"
    using x(1) by (simp add: unat_prefix algebra_simps)
  then show ?thesis
    using x(2,3) q by (cases "q = 0") (auto simp: bit_unat less_2_cases_iff)
qed

lemma low_test_again: "\<not> unat (prefix_of k ip) + 2 ^ k \<le> unat ip"
proof -
  have "unat ip mod 2 ^ k < 2 ^ k"
    by simp
  then show ?thesis
    using div_mult_mod_eq [of "unat ip" "2 ^ k"] unfolding unat_prefix by linarith
qed

definition last_of :: "nat \<Rightarrow> u32 \<Rightarrow> u32" where
  "last_of n ip = prefix_of n ip + push_bit n 1 - 1"

lemma unat_last: "n \<le> 32 \<Longrightarrow> unat (last_of n ip) + 1 = unat ip div 2 ^ n * 2 ^ n + 2 ^ n"
proof -
  assume n: "n \<le> 32"
  let ?x = "unat ip div 2 ^ n * 2 ^ n + 2 ^ n - 1"
  have pos: "1 \<le> unat ip div 2 ^ n * 2 ^ n + (2::nat) ^ n"
    by (simp add: add_increasing)
  have "prefix_of n ip = of_nat (unat ip div 2 ^ n * 2 ^ n)"
    by (simp only: unat_prefix [symmetric] of_nat_unat ucast_id)
  moreover have "push_bit n (1 :: u32) = of_nat (2 ^ n)"
    by (simp add: push_bit_eq_mult)
  ultimately have "last_of n ip = of_nat (unat ip div 2 ^ n * 2 ^ n) + of_nat (2 ^ n) - of_nat 1"
    by (simp only: last_of_def of_nat_1)
  also have "\<dots> = of_nat ?x"
    by (simp only: of_nat_add [symmetric] of_nat_diff [OF pos, symmetric])
  finally have "last_of n ip = of_nat ?x" .
  moreover have "?x < 2 ^ 32"
    using prefix_bound [OF n, of ip] pos by linarith
  ultimately have "unat (last_of n ip) = ?x"
    by (simp only: unat_of_nat) simp
  then show ?thesis
    using pos by linarith
qed

lemma high_test:
  assumes "k < 32"
  shows "unat ip + 2 ^ k < unat (last_of (Suc k) ip) + 1 \<longleftrightarrow> \<not> bit ip k"
proof -
  obtain q r where x: "unat ip = (2 * (unat ip div 2 ^ Suc k) + q) * 2 ^ k + r" "r < 2 ^ k" "q < 2"
    and q: "odd (unat ip div 2 ^ k) \<longleftrightarrow> q = 1"
    by (rule half_cases)
  have "unat (last_of (Suc k) ip) + 1 + q * 2 ^ k + r = unat ip + 2 * 2 ^ k"
    using unat_last [of "Suc k" ip] assms x(1) by (simp add: algebra_simps)
  then show ?thesis
    using x(2,3) q by (cases "q = 0") (auto simp: bit_unat less_2_cases_iff)
qed

lemma high_test_again: "k < 32 \<Longrightarrow> \<not> unat ip + 2 ^ k < unat (last_of k ip) + 1"
  using unat_last [of k ip] div_times_less_eq_dividend [of "unat ip" "2 ^ k"] by linarith

lemma last_step:
  assumes "k < 32"
  shows "last_of k ip = (if bit ip k then last_of (Suc k) ip else last_of (Suc k) ip - push_bit k 1)"
    and "\<not> bit ip k \<Longrightarrow> last_of (Suc k) ip - push_bit k 1 + 1 = sibling k ip"
  using prefix_step [OF assms, of ip] sibling_high [OF assms, of ip]
  by (simp_all add: last_of_def)

text \<open>The commands for a list of subnets.\<close>

definition route_cmds :: "target \<Rightarrow> string \<Rightarrow> cidr list \<Rightarrow> string list" where
  "route_cmds tgt tunif cs = map (\<lambda>c. route_cmd tgt tunif (cidr_text c)) cs"

lemma route_cmds_simps [simp]:
  "route_cmds tgt tunif [] = []"
  "route_cmds tgt tunif (c # cs) = route_cmd tgt tunif (cidr_text c) # route_cmds tgt tunif cs"
  "route_cmds tgt tunif (cs @ ds) = route_cmds tgt tunif cs @ route_cmds tgt tunif ds"
  by (simp_all add: route_cmds_def)

lemma length_route_cmd:
  "length (route_cmd tgt tunif subnet) \<le> length tunif + length subnet + 60"
  by (simp add: route_cmd_def split: target.split)

lemma add_route_shell:
  "cidr_len c \<le> 32 \<Longrightarrow> add_route tgt tunif sys c tr = shell 256 sys (route_cmd tgt tunif (cidr_text c)) tr"
  using length_cidr_text [of c] by (simp add: add_route_def fmt_def)

text \<open>One iteration that adds a route and then goes on with \<open>rest\<close>.\<close>

lemma script_step:
  "(case shell cap sys c tr of Inl e \<Rightarrow> Some (Inl e)
     | Inr rt \<Rightarrow> if fst rt \<noteq> 0 then Some (Inr rt) else Some (script cap sys cs (snd rt)))
   = Some (script cap sys (c # cs) tr)"
  by (auto simp: andthen_def bind_res_def split: sum.splits)

lemma below_step:
  assumes "k < 32"
  shows "lower_branches ip (32 - k) = (if bit ip k then [branch ip (32 - k)] else []) @ lower_branches ip (Suc (32 - k))"
    and "upper_branches ip (32 - k) = (if bit ip k then [] else [branch ip (32 - k)]) @ upper_branches ip (Suc (32 - k))"
  using assms by (simp_all add: lower_branches_def upper_branches_def upt_conv_Cons)

lemma below_end [simp]: "lower_branches ip 33 = []" "upper_branches ip 33 = []"
  by (simp_all add: lower_branches_def upper_branches_def)

lemma low_loop_script:
  "n \<le> 32 \<Longrightarrow> low_loop tgt tunif sys ip (prefix_of n ip) (33 - n) tr
     = Some (script 256 sys (route_cmds tgt tunif (lower_branches ip (33 - n))) tr)"
proof (induction n arbitrary: tr)
  case 0
  show ?case
    by (subst low_loop.simps) simp
next
  case (Suc k)
  then have k: "k < 32" and m: "33 - Suc k = 32 - k" "32 - k \<le> 32" "32 - (32 - k) = k" "32 - k + 1 = 33 - k" "Suc (32 - k) = 33 - k"
    by simp_all
  have test: "(ucast s :: u64) + ucast (block (32 - k)) - 1 < ucast ip \<longleftrightarrow> unat s + 2 ^ k \<le> unat ip" for s :: u32
    unfolding block_def m by (rule low_cond [OF k])
  have IH: "low_loop tgt tunif sys ip (prefix_of k ip) (33 - k) tr
      = Some (script 256 sys (route_cmds tgt tunif (lower_branches ip (33 - k))) tr)" for tr
    using Suc k by simp
  have again: "low_loop tgt tunif sys ip (prefix_of k ip) (32 - k) tr
      = Some (script 256 sys (route_cmds tgt tunif (lower_branches ip (33 - k))) tr)" for tr
    by (subst low_loop.simps) (simp only: test low_test_again m IH if_True if_False)
  show ?case
  proof (cases "bit ip k")
    case False
    then have "prefix_of (Suc k) ip = prefix_of k ip"
      using prefix_step [OF k, of ip] by simp
    then show ?thesis
      using False by (simp only: m below_step [OF k] again if_False append_Nil)
  next
    case True
    have p: "prefix_of (Suc k) ip + block (32 - k) = prefix_of k ip"
      using prefix_step [OF k, of ip] True by (simp add: block_def m(3))
    have c: "Cidr (prefix_of (Suc k) ip) (32 - k) = branch ip (32 - k)"
      using sibling_low [OF k True] by (simp add: branch_def m(3))
    have "low_loop tgt tunif sys ip (prefix_of (Suc k) ip) (32 - k) tr
        = Some (script 256 sys (route_cmd tgt tunif (cidr_text (branch ip (32 - k)))
            # route_cmds tgt tunif (lower_branches ip (33 - k))) tr)"
      unfolding script_step [symmetric]
      by (subst low_loop.simps)
        (simp only: test low_test True m if_True p c again add_route_shell branch_def cidr.sel)
    then show ?thesis
      using True by (simp only: m below_step [OF k] if_True append_Cons append_Nil route_cmds_simps)
  qed
qed

lemma high_loop_script:
  "n \<le> 32 \<Longrightarrow> high_loop tgt tunif sys ip (last_of n ip) (33 - n) tr
     = Some (script 256 sys (route_cmds tgt tunif (upper_branches ip (33 - n))) tr)"
proof (induction n arbitrary: tr)
  case 0
  show ?case
    by (subst high_loop.simps) simp
next
  case (Suc k)
  then have k: "k < 32" and m: "33 - Suc k = 32 - k" "32 - k \<le> 32" "32 - (32 - k) = k" "32 - k + 1 = 33 - k" "Suc (32 - k) = 33 - k"
    by simp_all
  have "2 ^ k \<le> unat (last_of n ip) + 1" if "k \<le> n" "n \<le> 32" for n
    using unat_last [OF that(2), of ip] power_increasing [OF that(1), of "2::nat"]
    by (simp add: trans_le_add2)
  then have test: "(ucast (last_of n ip) :: u64) - ucast (block (32 - k)) + 1 > ucast ip
      \<longleftrightarrow> unat ip + 2 ^ k < unat (last_of n ip) + 1" if "n \<in> {k, Suc k}" for n
    unfolding block_def m using k that by (intro high_cond) auto
  have tests: "(ucast (last_of (Suc k) ip) :: u64) - ucast (block (32 - k)) + 1 > ucast ip \<longleftrightarrow> \<not> bit ip k"
    "\<not> (ucast (last_of k ip) :: u64) - ucast (block (32 - k)) + 1 > ucast ip"
    using test [of k] test [of "Suc k"] high_test [OF k, of ip] high_test_again [OF k, of ip] by simp_all
  have IH: "high_loop tgt tunif sys ip (last_of k ip) (33 - k) tr
      = Some (script 256 sys (route_cmds tgt tunif (upper_branches ip (33 - k))) tr)" for tr
    using Suc k by simp
  have again: "high_loop tgt tunif sys ip (last_of k ip) (32 - k) tr
      = Some (script 256 sys (route_cmds tgt tunif (upper_branches ip (33 - k))) tr)" for tr
    by (subst high_loop.simps) (simp only: tests m IH if_True if_False)
  show ?case
  proof (cases "bit ip k")
    case True
    then have "last_of (Suc k) ip = last_of k ip"
      using last_step(1) [OF k, of ip] by simp
    then show ?thesis
      using True by (simp only: m below_step [OF k] again if_True append_Nil)
  next
    case False
    have p: "last_of (Suc k) ip - block (32 - k) = last_of k ip"
      using last_step(1) [OF k, of ip] False by (simp add: block_def m(3))
    have c: "Cidr (last_of k ip + 1) (32 - k) = branch ip (32 - k)"
      using last_step [OF k, of ip] False by (simp add: branch_def m(3))
    have "high_loop tgt tunif sys ip (last_of (Suc k) ip) (32 - k) tr
        = Some (script 256 sys (route_cmd tgt tunif (cidr_text (branch ip (32 - k)))
            # route_cmds tgt tunif (upper_branches ip (33 - k))) tr)"
      unfolding script_step [symmetric]
      by (subst high_loop.simps)
        (simp only: tests False not_False_eq_True m if_True p c again add_route_shell branch_def cidr.sel)
    then show ?thesis
      using False by (simp only: m below_step [OF k] if_False append_Cons append_Nil route_cmds_simps)
  qed
qed

lemma prefix_32: "prefix_of 32 ip = 0" "last_of 32 ip = - 1"
proof -
  show p: "prefix_of 32 ip = 0"
    by (rule bit_word_eqI) (simp add: bit_prefix)
  have "push_bit 32 (1 :: u32) = 0"
    by simp
  then show "last_of 32 ip = - 1"
    unfolding last_of_def p by simp
qed

lemma route_script:
  assumes "\<not> ipv4 \<or> resolve host = Some ip"
  shows "route tgt sys resolve tunif host ipv4 ipv6 tr =
    Some (script 256 sys ((if ipv4 then route_cmds tgt tunif (subnets_without ip) else [])
      @ (if ipv6 then [route6_cmd tgt tunif] else [])) tr)"
proof -
  have v6: "(if ipv6 then Some (shell 256 sys (route6_cmd tgt tunif) tr) else Some (finish tr))
      = Some (script 256 sys (if ipv6 then [route6_cmd tgt tunif] else []) tr)" for tr
    by simp
  have low: "low_loop tgt tunif sys ip 0 1 tr = Some (script 256 sys (route_cmds tgt tunif (lower_branches ip 1)) tr)" for tr
    using low_loop_script [of 32] by (simp add: prefix_32)
  have high: "high_loop tgt tunif sys ip (- 1) 1 tr = Some (script 256 sys (route_cmds tgt tunif (upper_branches ip 1)) tr)" for tr
    using high_loop_script [of 32] by (simp add: prefix_32)
  show ?thesis
  proof (cases ipv4)
    case False
    then show ?thesis
      unfolding route_def Let_def v6 by simp
  next
    case True
    then have "resolve host = Some ip"
      using assms by simp
    then show ?thesis
      using True unfolding route_def Let_def v6
      by (simp add: low [simplified] high [simplified] subnets_without_def script_append andthen_def
          bind_res_def finish_def split: sum.splits)
  qed
qed

text \<open>Every command of \<^verbatim>\<open>route\<close> and of the others fits its buffer.\<close>

lemma route_cmds_fit:
  assumes "length tunif < 16" and "\<forall>c \<in> set cs. cidr_len c \<le> 32"
  shows "\<forall>x \<in> set (route_cmds tgt tunif cs). length x < 256"
proof
  fix x assume "x \<in> set (route_cmds tgt tunif cs)"
  then obtain c where c: "c \<in> set cs" "x = route_cmd tgt tunif (cidr_text c)"
    by (auto simp: route_cmds_def)
  then have "length x \<le> length tunif + 18 + 60"
    using assms(2) length_cidr_text [of c] length_route_cmd [of tgt tunif "cidr_text c"] by fastforce
  then show "length x < 256"
    using assms(1) by simp
qed

lemma subnets_len: "\<forall>c \<in> set (subnets_without ip). cidr_len c \<le> 32"
  by (auto simp: set_subnets_without branch_def)

definition route_all_cmds :: "target \<Rightarrow> string \<Rightarrow> u32 \<Rightarrow> bool \<Rightarrow> bool \<Rightarrow> string list" where
  "route_all_cmds tgt tunif ip ipv4 ipv6 =
     (if ipv4 then route_cmds tgt tunif (subnets_without ip) else [])
      @ (if ipv6 then [route6_cmd tgt tunif] else [])"

lemma route_all_fit:
  assumes "length tunif < 16"
  shows "\<forall>x \<in> set (route_all_cmds tgt tunif ip ipv4 ipv6). length x < 256"
  using route_cmds_fit [OF assms subnets_len, of tgt ip] assms
  by (auto simp: route_all_cmds_def route6_cmd_def split: target.split)

text \<open>
  C17. The routes that \<^verbatim>\<open>route\<close> adds send every IPv4 address into the tunnel except the
  server's own: when all commands succeed they are exactly 32 routes to subnets aligned to their
  prefix, printed so that they read back as the same subnets; every address other than the
  server's lies in exactly one of them and the server's in none. The routes below the server
  are added in ascending order, those above it in descending order.
\<close>

theorem route_covers_all_but_server:
  assumes "resolve host = Some ip" and "length tunif < 16" and "\<And>tr c. sys tr c = 0"
  shows "\<exists>lo hi. route tgt sys resolve tunif host True False tr =
      Some (Inr (0, tr @ map (\<lambda>c. route_cmd tgt tunif (cidr_text c)) (lo @ hi)))
    \<and> length (lo @ hi) = 32
    \<and> (\<forall>c \<in> set (lo @ hi). aligned c \<and> read_cidr (cidr_text c) = Some c \<and> \<not> covers c ip)
    \<and> (\<forall>a. a \<noteq> ip \<longrightarrow> (\<exists>!c. c \<in> set (lo @ hi) \<and> covers c a))
    \<and> sorted_wrt (<) lo \<and> sorted_wrt (>) hi"
proof -
  let ?lo = "lower_branches ip 1" and ?hi = "upper_branches ip 1"
  have cs: "?lo @ ?hi = subnets_without ip"
    by (simp add: subnets_without_def)
  have "route tgt sys resolve tunif host True False tr
      = Some (script 256 sys (route_cmds tgt tunif (subnets_without ip)) tr)"
    using route_script [of True resolve host ip tgt sys tunif False tr] assms(1) by simp
  also have "\<dots> = Some (Inr (0, tr @ route_cmds tgt tunif (subnets_without ip)))"
    using script_all_ok [OF route_cmds_fit [OF assms(2) subnets_len] assms(3)] by simp
  finally have "route tgt sys resolve tunif host True False tr
      = Some (Inr (0, tr @ map (\<lambda>c. route_cmd tgt tunif (cidr_text c)) (?lo @ ?hi)))"
    unfolding cs route_cmds_def .
  moreover have "\<forall>c \<in> set (?lo @ ?hi). aligned c \<and> read_cidr (cidr_text c) = Some c \<and> \<not> covers c ip"
    unfolding cs using subnets_spare_server branch_aligned read_cidr_text
    by (auto simp: set_subnets_without)
  ultimately show ?thesis
    using length_subnets_without [of ip] subnets_partition [of _ ip] below_ascending [of ip] above_descending [of ip]
    by (intro exI [of _ ?lo] exI [of _ ?hi]) (simp only: cs, blast)
qed

theorem route_covers_all_but_server_witness:
  "\<exists>lo hi. route Linux (\<lambda>tr c. 0) (\<lambda>h. Some 0xC6336407) ''vpn0'' ''198.51.100.7'' True False [] =
      Some (Inr (0, [] @ map (\<lambda>c. route_cmd Linux ''vpn0'' (cidr_text c)) (lo @ hi)))
    \<and> length (lo @ hi) = 32
    \<and> (\<forall>c \<in> set (lo @ hi). aligned c \<and> read_cidr (cidr_text c) = Some c \<and> \<not> covers c 0xC6336407)
    \<and> (\<forall>a. a \<noteq> 0xC6336407 \<longrightarrow> (\<exists>!c. c \<in> set (lo @ hi) \<and> covers c a))
    \<and> sorted_wrt (<) lo \<and> sorted_wrt (>) hi"
  by (rule route_covers_all_but_server) simp_all

text \<open>
  C29. \<^verbatim>\<open>route\<close> always returns: whatever the server's address and however the commands fail, its
  two loops end without a wrap-around of their counters and without overrunning \<^verbatim>\<open>subnet\<close> or
  \<^verbatim>\<open>cmd\<close>; it has run a prefix of its at most 33 commands, all of them successfully when it
  returns 0, and otherwise it stopped at the first one that failed and returns its value.
\<close>

theorem route_returns:
  assumes "\<not> ipv4 \<or> resolve host = Some ip" and "length tunif < 16"
  shows "\<exists>r n. let cmds = route_all_cmds tgt tunif ip ipv4 ipv6 in
      route tgt sys resolve tunif host ipv4 ipv6 tr = Some (Inr (r, tr @ take n cmds))
      \<and> length cmds \<le> 33 \<and> n \<le> length cmds
      \<and> (\<forall>i < n. i + 1 < n \<or> r = 0 \<longrightarrow> sys (tr @ take i cmds) (cmds ! i) = 0)
      \<and> (r = 0 \<longrightarrow> n = length cmds)
      \<and> (r \<noteq> 0 \<longrightarrow> 0 < n \<and> sys (tr @ take (n - 1) cmds) (cmds ! (n - 1)) = r)"
proof -
  let ?cmds = "route_all_cmds tgt tunif ip ipv4 ipv6"
  obtain r n where "n \<le> length ?cmds" "script 256 sys ?cmds tr = Inr (r, tr @ take n ?cmds)"
    "\<forall>i < n. i + 1 < n \<or> r = 0 \<longrightarrow> sys (tr @ take i ?cmds) (?cmds ! i) = 0" "r = 0 \<longrightarrow> n = length ?cmds"
    "r \<noteq> 0 \<longrightarrow> 0 < n \<and> sys (tr @ take (n - 1) ?cmds) (?cmds ! (n - 1)) = r"
    using script_runs_prefix [OF route_all_fit [OF assms(2)]] by metis
  moreover have "length ?cmds \<le> 33"
    by (simp add: route_all_cmds_def route_cmds_def length_subnets_without)
  ultimately show ?thesis
    using route_script [of ipv4 resolve host ip tgt sys tunif ipv6 tr, OF assms(1)] unfolding route_all_cmds_def [symmetric] Let_def
    by (intro exI [of _ r] exI [of _ n]) simp
qed

theorem route_returns_witness:
  "\<exists>r n. let cmds = route_all_cmds Darwin ''utun0'' 0xC6336407 True True;
          sys = (\<lambda>tr c. if length tr = 2 then 7 else 0) in
      route Darwin sys (\<lambda>h. Some 0xC6336407) ''utun0'' ''198.51.100.7'' True True [] = Some (Inr (r, [] @ take n cmds))
      \<and> length cmds \<le> 33 \<and> n \<le> length cmds
      \<and> (\<forall>i < n. i + 1 < n \<or> r = 0 \<longrightarrow> sys ([] @ take i cmds) (cmds ! i) = 0)
      \<and> (r = 0 \<longrightarrow> n = length cmds)
      \<and> (r \<noteq> 0 \<longrightarrow> 0 < n \<and> sys ([] @ take (n - 1) cmds) (cmds ! (n - 1)) = r)"
  unfolding Let_def by (rule route_returns [unfolded Let_def]) simp_all

section \<open>Interface and address translation\<close>

lemma ifconfig_fit:
  assumes "length tunif < 16" "length address < 20" "length peer < 20" "length address6 < 64"
    and "\<bar>mtu\<bar> \<le> 2 ^ 31"
  shows "\<forall>x \<in> set (ifconfig_cmds tgt tunif mtu address peer address6). length x < 256"
  using assms length_show_int [OF assms(5)] by (simp add: ifconfig_cmds_def split: target.split)

lemma nat_fit:
  assumes "length a < 20"
  shows "\<forall>x \<in> set (nat_on_cmds a) \<union> set (nat_off_cmds a). length x < 200"
  using assms by (simp add: nat_on_cmds_def nat_off_cmds_def tcpmss_def)

text \<open>
  With a configuration that keeps the invariant, setting up the interface and the address
  translation never overruns the command buffers: both return, having run a prefix of their
  commands.
\<close>

lemma setup_commands_fit:
  assumes "conf_wf c"
  shows "(\<exists>r n. ifconfig tgt sys (cstr (cf_tunif c)) (cf_mtu c) (cstr (cf_address c)) (cstr (cf_peer c))
        (cstr (cf_address6 c)) tr = Inr (r, tr @ take n (ifconfig_cmds tgt (cstr (cf_tunif c)) (cf_mtu c)
        (cstr (cf_address c)) (cstr (cf_peer c)) (cstr (cf_address6 c)))))
    \<and> (\<exists>r n. nat_rules sys (cstr (cf_address c)) on tr = Inr (r, tr @ take n
        (if on then nat_on_cmds (cstr (cf_address c)) else nat_off_cmds (cstr (cf_address c)))))"
proof
  have f: "length (cstr (cf_tunif c)) < 16" "length (cstr (cf_address c)) < 20"
    "length (cstr (cf_peer c)) < 20" "length (cstr (cf_address6 c)) < 64" "\<bar>cf_mtu c\<bar> \<le> 2 ^ 31"
    using assms by (auto simp: conf_wf_def length_cstr)
  show "\<exists>r n. ifconfig tgt sys (cstr (cf_tunif c)) (cf_mtu c) (cstr (cf_address c)) (cstr (cf_peer c))
      (cstr (cf_address6 c)) tr = Inr (r, tr @ take n (ifconfig_cmds tgt (cstr (cf_tunif c)) (cf_mtu c)
      (cstr (cf_address c)) (cstr (cf_peer c)) (cstr (cf_address6 c))))"
    using script_runs_prefix [OF ifconfig_fit [OF f]] unfolding ifconfig_def by metis
  have "\<forall>x \<in> set (if on then nat_on_cmds (cstr (cf_address c)) else nat_off_cmds (cstr (cf_address c))). length x < 200"
    using nat_fit [OF f(2)] by auto
  from script_runs_prefix [OF this]
  show "\<exists>r n. nat_rules sys (cstr (cf_address c)) on tr = Inr (r, tr @ take n
      (if on then nat_on_cmds (cstr (cf_address c)) else nat_off_cmds (cstr (cf_address c))))"
    unfolding nat_rules_def by metis
qed

lemma setup_commands_fit_example:
  "(\<exists>r n. ifconfig Linux (\<lambda>_ _. 0) [] 0 [] [] [] [] = Inr (r, [] @ take n (ifconfig_cmds Linux [] 0 [] [] [])))
   \<and> (\<exists>r n. nat_rules (\<lambda>_ _. 0) [] True [] = Inr (r, [] @ take n (nat_on_cmds [])))"
proof -
  have e: "cstr (cf_tunif zero_conf) = []" "cstr (cf_address zero_conf) = []" "cstr (cf_peer zero_conf) = []"
    "cstr (cf_address6 zero_conf) = []" "cf_mtu zero_conf = 0"
    by (simp_all add: zero_conf_def cstr_def numeral_eq_Suc)
  show ?thesis
    using setup_commands_fit [OF conf_wf_zero, of Linux "\<lambda>_ _. 0" "[]" True] unfolding e by simp
qed

text \<open>The first rule \<^verbatim>\<open>nat(address, 0)\<close> deletes, and the command that would have added it.\<close>

definition masquerade_rule :: "string \<Rightarrow> string" where
  "masquerade_rule a = ''POSTROUTING -s '' @ a @ '' ! -d '' @ a @ '' -j MASQUERADE''"

lemma masquerade_never_added: "sh (''iptables -t nat -A '' @ masquerade_rule a) \<notin> set (nat_on_cmds a)"
proof
  assume "sh (''iptables -t nat -A '' @ masquerade_rule a) \<in> set (nat_on_cmds a)"
  then have "''iptables -t nat -A '' @ masquerade_rule a = ''iptables -t nat -A POSTROUTING -s '' @ a @ '' -j MASQUERADE''"
    by (auto simp: nat_on_cmds_def masquerade_rule_def)
  from arg_cong [OF this, of length] show False
    by (simp add: masquerade_rule_def)
qed

text \<open>
  Turning the address translation off leaves the rules of turning it on behind. \<^verbatim>\<open>nat\<close>
  deletes a MASQUERADE rule with \<^verbatim>\<open>! -d\<close> that it never added. Provided that \<^verbatim>\<open>iptables -D\<close>
  fails on a rule no command has added (its documented behaviour) and that the commands of
  turning on succeed, turning off stops at this first command and none of the other four
  rules is deleted.
\<close>

lemma nat_off_stops_at_first_rule:
  assumes on: "\<And>tr c. c \<in> set (nat_on_cmds a) \<Longrightarrow> sys tr c = 0"
    and delete: "\<And>tr. sh (''iptables -t nat -A '' @ masquerade_rule a) \<notin> set tr
      \<Longrightarrow> sys tr (sh (''iptables -t nat -D '' @ masquerade_rule a)) \<noteq> 0"
    and "length a < 20"
  shows "\<exists>r. r \<noteq> 0 \<and> andthen (nat_rules sys a True) (nat_rules sys a False) []
    = Inr (r, nat_on_cmds a @ [sh (''iptables -t nat -D '' @ masquerade_rule a)])"
proof -
  let ?d = "sh (''iptables -t nat -D '' @ masquerade_rule a)"
  have on': "nat_rules sys a True [] = Inr (0, nat_on_cmds a)"
    using script_all_ok [of "nat_on_cmds a" 200 sys "[]"] nat_fit [OF assms(3)] on by (simp add: nat_rules_def)
  obtain cs where cs: "nat_off_cmds a = ?d # cs" "length ?d < 200"
    using assms(3) by (simp add: nat_off_cmds_def masquerade_rule_def)
  have "sys (nat_on_cmds a) ?d \<noteq> 0"
    by (rule delete [OF masquerade_never_added])
  then have "nat_rules sys a False (nat_on_cmds a) = Inr (sys (nat_on_cmds a) ?d, nat_on_cmds a @ [?d])"
    using cs by (simp add: nat_rules_def andthen_def shell_def fmt_def)
  then show ?thesis
    using on' \<open>sys (nat_on_cmds a) ?d \<noteq> 0\<close> by (simp add: andthen_def)
qed

text \<open>A \<^verbatim>\<open>system\<close> with that behaviour of \<^verbatim>\<open>iptables -D\<close>; everything else succeeds.\<close>

definition demo_sys :: "string \<Rightarrow> sys" where
  "demo_sys a tr c =
     (if c = sh (''iptables -t nat -D '' @ masquerade_rule a)
         \<and> sh (''iptables -t nat -A '' @ masquerade_rule a) \<notin> set tr then 1 else 0)"

lemma nat_off_stops_at_first_rule_example:
  "\<exists>r. r \<noteq> 0 \<and> andthen (nat_rules (demo_sys ''10.0.0.1/24'') ''10.0.0.1/24'' True)
        (nat_rules (demo_sys ''10.0.0.1/24'') ''10.0.0.1/24'' False) []
    = Inr (r, nat_on_cmds ''10.0.0.1/24'' @ [sh (''iptables -t nat -D '' @ masquerade_rule ''10.0.0.1/24'')])"
  by (rule nat_off_stops_at_first_rule)
    (auto simp: demo_sys_def nat_on_cmds_def masquerade_rule_def tcpmss_def)

section \<open>Privileges\<close>

record creds =
  euid :: nat
  egid :: nat

text \<open>
  \<open>getpwnam\<close> looks a user up (uid and gid); \<open>may_setegid\<close> and \<open>may_seteuid\<close> say whether the
  system call succeeds for a process with these credentials.
\<close>

definition runas :: "(string \<Rightarrow> (nat \<times> nat) option) \<Rightarrow> (creds \<Rightarrow> nat \<Rightarrow> bool) \<Rightarrow> (creds \<Rightarrow> nat \<Rightarrow> bool)
    \<Rightarrow> string \<Rightarrow> creds \<Rightarrow> int \<times> creds" where
  "runas getpwnam may_setegid may_seteuid user cr =
     (case getpwnam user of
        None \<Rightarrow> (0, cr)
      | Some (uid, gid) \<Rightarrow>
          if \<not> may_setegid cr gid then (-1, cr)
          else let cr1 = cr\<lparr>egid := gid\<rparr> in
            if \<not> may_seteuid cr1 uid then (-1, cr1)
            else (0, cr1\<lparr>euid := uid\<rparr>))"

text \<open>
  Success only means dropped privileges for a user the system knows; for an unknown one \<^verbatim>\<open>runas\<close>
  returns 0 and keeps the credentials.
\<close>

lemma runas_known:
  "getpwnam user = Some (uid, gid) \<Longrightarrow> runas getpwnam may_setegid may_seteuid user cr = (0, cr') \<Longrightarrow>
     euid cr' = uid \<and> egid cr' = gid"
  by (auto simp: runas_def Let_def split: if_splits)

lemma runas_unknown: "getpwnam user = None \<Longrightarrow> runas getpwnam may_setegid may_seteuid user cr = (0, cr)"
  by (simp add: runas_def)

section \<open>Going to the background\<close>

text \<open>
  What the system answers to \<^verbatim>\<open>daemonize\<close>: the value of \<^verbatim>\<open>fork\<close>, whether the PID file opens,
  whether \<^verbatim>\<open>setsid\<close> and the two \<^verbatim>\<open>freopen\<close> succeed.
\<close>

record daemon_env =
  fork_result :: int
  pidfile_opens :: bool
  setsid_ok :: bool
  stdout_reopens :: bool
  stderr_reopens :: bool

text \<open>How the call ends: it returns a value, or the process exits, with the text of the PID file.\<close>

datatype daemon_end = Returned int | Exited int "string option"

definition daemonize :: "daemon_env \<Rightarrow> daemon_end" where
  "daemonize e =
     (let pid = fork_result e in
      if pid < 0 then Returned (-1)
      else if pid > 0 then Exited 0 (if pidfile_opens e then Some (show_int pid) else None)
      else if \<not> setsid_ok e then Returned (-1)
      else if \<not> stdout_reopens e then Returned (-1)
      else if \<not> stderr_reopens e then Returned (-1)
      else Returned 0)"

lemma daemonize_continues:
  "daemonize e = Returned 0 \<longleftrightarrow> fork_result e = 0 \<and> setsid_ok e \<and> stdout_reopens e \<and> stderr_reopens e"
  by (simp add: daemonize_def Let_def)

end
