(* ===== verification/Tunif.thy ===== *)
theory Tunif
  imports Conf
begin

text \<open>
  src/tunif.c, the tun device, and src/log.c, the log lines. What the system calls return is a
  parameter. On Linux a read or write of the device is one packet; on Darwin the packet has a
  four-byte header with the address family, which \<^verbatim>\<open>tun_read\<close> drops and \<^verbatim>\<open>tun_write\<close> adds.
\<close>

section \<open>Opening and closing\<close>

text \<open>\<^verbatim>\<open>strncpy(ifr.ifr_name, dev, IFNAMSIZ)\<close> into a zeroed field, with the last byte cleared.\<close>

definition ifr_name :: "string \<Rightarrow> char list" where
  "ifr_name dev =
     (if dev = [] then replicate 16 NUL
      else (take 16 (dev @ replicate 16 NUL))[15 := NUL])"

text \<open>The result and the descriptors closed on the way.\<close>

definition tun_new_linux :: "int \<Rightarrow> (char list \<Rightarrow> int) \<Rightarrow> string \<Rightarrow> int \<times> int list" where
  "tun_new_linux fd ioctl dev =
     (if fd < 0 then (-1, [])
      else let err = ioctl (ifr_name dev) in
        if err < 0 then (err, [fd]) else (fd, []))"

text \<open>\<^verbatim>\<open>sscanf(dev, "utun%d", &utunnum)\<close>\<close>

definition scan_utun :: "string \<Rightarrow> int option" where
  "scan_utun dev =
     (if take 4 dev \<noteq> ''utun'' then None
      else let s1 = dropWhile isspace (drop 4 dev);
               s2 = (if s1 \<noteq> [] \<and> (hd s1 = CHR ''-'' \<or> hd s1 = CHR ''+'') then tl s1 else s1)
           in if s2 = [] \<or> \<not> is_digit (hd s2) then None else Some (atoi (drop 4 dev)))"

text \<open>
  \<open>connect\<close> is given the unit number of the control socket, a \<^verbatim>\<open>u_int32_t\<close>. For \<^verbatim>\<open>INT_MAX\<close> the
  sum overflows in C; the model wraps.
\<close>

definition tun_new_darwin :: "int \<Rightarrow> int \<Rightarrow> (32 word \<Rightarrow> int) \<Rightarrow> string \<Rightarrow> int \<times> int list" where
  "tun_new_darwin fd ioctl connect dev =
     (case scan_utun dev of
        None \<Rightarrow> (-1, [])
      | Some utunnum \<Rightarrow>
          if fd = -1 then (-1, [])
          else if ioctl = -1 then (-1, [fd])
          else if connect (word_of_int (utunnum + 1)) = -1 then (-1, [fd])
          else (fd, []))"

text \<open>\<open>closed\<close> are the descriptors closed so far.\<close>

definition tun_close :: "int \<Rightarrow> int list \<Rightarrow> int list" where
  "tun_close tun closed = closed @ [tun]"

lemma ifr_name_terminated: "terminated 16 (ifr_name dev)"
  by (auto simp: terminated_def ifr_name_def set_update_memI)

lemma ifr_name_of_conf:
  assumes "terminated 16 buf"
  shows "cstr (ifr_name (cstr buf)) = cstr buf"
proof (cases "cstr buf = []")
  case True
  then show ?thesis by (simp add: ifr_name_def cstr_def numeral_eq_Suc)
next
  case False
  let ?s = "cstr buf"
  have l: "length ?s < 16"
    using assms by (rule length_cstr)
  have s: "16 - length ?s = Suc (15 - length ?s)"
    using l by simp
  have "ifr_name ?s = (?s @ NUL # replicate (15 - length ?s) NUL)[15 := NUL]"
    using False l s by (simp add: ifr_name_def)
  also have "\<dots> = ?s @ (NUL # replicate (15 - length ?s) NUL)[15 - length ?s := NUL]"
    using l by (simp add: list_update_append)
  finally have "ifr_name ?s = ?s @ (NUL # replicate (15 - length ?s) NUL)[15 - length ?s := NUL]" .
  moreover have "\<exists>t. (NUL # replicate (15 - length ?s) NUL)[15 - length ?s := NUL] = NUL # t"
    by (cases "15 - length ?s") simp_all
  ultimately obtain t where "ifr_name ?s = ?s @ NUL # t"
    by metis
  then show ?thesis
    by simp
qed

text \<open>A failing \<^verbatim>\<open>tun_new\<close> leaves no descriptor open; a succeeding one returns the open one.\<close>

lemma tun_new_linux_closes:
  "tun_new_linux fd ioctl dev = (r, closed) \<Longrightarrow> 0 \<le> fd \<Longrightarrow>
     r = fd \<and> closed = [] \<or> r < 0 \<and> closed = [fd]"
  by (auto simp: tun_new_linux_def Let_def split: if_splits)

lemma tun_new_darwin_closes:
  "tun_new_darwin fd ioctl connect dev = (r, closed) \<Longrightarrow> scan_utun dev \<noteq> None \<Longrightarrow> 0 \<le> fd \<Longrightarrow>
     r = fd \<and> closed = [] \<or> r = -1 \<and> closed = [fd]"
  by (auto simp: tun_new_darwin_def split: if_splits)

section \<open>Packets of the device\<close>

text \<open>\<^verbatim>\<open>htonl(AF_INET)\<close> and \<^verbatim>\<open>htonl(AF_INET6)\<close> as they lie in memory.\<close>

definition af_header :: "byte list \<Rightarrow> byte list" where
  "af_header ds = (if drop_bit 4 (ds ! 0) = 6 then [0, 0, 0, 30] else [0, 0, 0, 2])"

text \<open>The frame that a write of \<open>ds\<close> gives the system, and \<^verbatim>\<open>tun_write\<close>'s value when it accepts it all.\<close>

definition tun_write :: "target \<Rightarrow> byte list \<Rightarrow> byte list \<times> int" where
  "tun_write tgt ds =
     (case tgt of
        Linux \<Rightarrow> (ds, int (length ds))
      | Darwin \<Rightarrow> (af_header ds @ ds, int (length (af_header ds @ ds)) - 4))"

text \<open>
  Reading a frame with room for \<open>l\<close> bytes of the packet; \<open>None\<close> is an error of the call. The
  second component is what is stored at \<^verbatim>\<open>buf\<close>.
\<close>

definition tun_read :: "target \<Rightarrow> byte list option \<Rightarrow> nat \<Rightarrow> int \<times> byte list" where
  "tun_read tgt frame l =
     (case (tgt, frame) of
        (Linux, None) \<Rightarrow> (-1, [])
      | (Linux, Some bs) \<Rightarrow> (int (length (take l bs)), take l bs)
      | (Darwin, None) \<Rightarrow> (-1 - 4, [])
      | (Darwin, Some bs) \<Rightarrow> (int (length (take (4 + l) bs)) - 4, drop 4 (take (4 + l) bs)))"

lemma tun_read_length: "0 < fst (tun_read tgt frame l) \<Longrightarrow>
    fst (tun_read tgt frame l) = int (length (snd (tun_read tgt frame l)))
    \<and> length (snd (tun_read tgt frame l)) \<le> l"
  by (auto simp: tun_read_def split: target.splits option.splits)

lemma tun_write_read: "length ds \<le> l \<Longrightarrow> tun_read tgt (Some (fst (tun_write tgt ds))) l = (int (length ds), ds)"
  by (auto simp: tun_read_def tun_write_def af_header_def split: target.splits)

section \<open>Log lines\<close>

datatype stream = Stdout | Stderr

text \<open>
  \<^verbatim>\<open>__log\<close>: the characters written, in order, with their stream. The newline is written by
  \<^verbatim>\<open>putchar\<close>, to the standard output whatever \<open>stream\<close> is.
\<close>

definition log_line :: "stream \<Rightarrow> string \<Rightarrow> string \<Rightarrow> (stream \<times> string) list" where
  "log_line stream timestr message =
     [(stream, ''['' @ timestr @ ''] ''), (stream, message), (Stdout, [CHR 0x0A])]"

definition err_line :: "string \<Rightarrow> string \<Rightarrow> string \<Rightarrow> (stream \<times> string) list" where
  "err_line timestr msg strerror = log_line Stderr timestr (msg @ '': '' @ strerror)"

definition written :: "stream \<Rightarrow> (stream \<times> string) list \<Rightarrow> string" where
  "written s out = concat (map snd (filter (\<lambda>w. fst w = s) out))"

lemma err_lines_run_together:
  "written Stderr (err_line t1 m1 e1 @ err_line t2 m2 e2) =
     ''['' @ t1 @ ''] '' @ m1 @ '': '' @ e1 @ ''['' @ t2 @ ''] '' @ m2 @ '': '' @ e2"
  by (simp add: written_def err_line_def log_line_def)

end
