(* ===== verification/Vpn.thy ===== *)
theory Vpn
  imports Encapsulate Totp Utils Tunif
begin

text \<open>
  src/vpn.c and src/vpn.h: the state of the process and its coroutines. libmill switches
  coroutines only where one waits, so a segment between two waits is one function here: it
  takes the state and what the environment supplies (a datagram, a clock reading, random
  values, whether a socket could be bound) and gives the new state and the list of effects.

  A socket is a number that is never used twice; \<open>None\<close> is \<^verbatim>\<open>NULL\<close>. An address is its text
  and its port. The effects are in the order the code performs them.
\<close>

section \<open>The context\<close>

definition POOL :: nat where "POOL = 40"

type_synonym sock = nat
type_synonym ipaddr = "string \<times> int"

record snmp =
  sn_timestamp :: u64
  sn_uptime :: u64
  out_packets :: u64
  out_bytes :: u64
  out_packet_rate :: int
  out_byte_rate :: int
  in_packets :: u64
  in_bytes :: u64
  in_packet_rate :: int
  in_byte_rate :: int

record path =
  px_server :: "char list"
  px_start :: int
  px_range :: int
  px_alive :: int
  px_token :: int
  px_sock :: "sock option"
  px_remote :: ipaddr
  px_valid :: "int list"

record ctx =
  cx_mode :: int
  cx_mtu :: int
  cx_path_count :: int
  cx_running :: int
  cx_tun :: int
  cx_paths :: "path list"
  cx_snmp :: snmp

definition zero_snmp :: snmp where
  "zero_snmp = \<lparr>sn_timestamp = 0, sn_uptime = 0, out_packets = 0, out_bytes = 0, out_packet_rate = 0,
     out_byte_rate = 0, in_packets = 0, in_bytes = 0, in_packet_rate = 0, in_byte_rate = 0\<rparr>"

definition no_addr :: ipaddr where "no_addr = ([], 0)"

definition zero_path_ctx :: path where
  "zero_path_ctx = \<lparr>px_server = replicate 64 NUL, px_start = 0, px_range = 0, px_alive = 0, px_token = 0,
     px_sock = None, px_remote = no_addr, px_valid = replicate POOL 0\<rparr>"

definition zero_ctx :: ctx where
  "zero_ctx = \<lparr>cx_mode = 0, cx_mtu = 0, cx_path_count = 0, cx_running = 0, cx_tun = 0,
     cx_paths = replicate PATH_MAX_COUNT zero_path_ctx, cx_snmp = zero_snmp\<rparr>"

definition update_path :: "nat \<Rightarrow> (path \<Rightarrow> path) \<Rightarrow> ctx \<Rightarrow> ctx" where
  "update_path i f c = c\<lparr>cx_paths := (cx_paths c)[i := f (cx_paths c ! i)]\<rparr>"

section \<open>The state of the process\<close>

text \<open>
  A \<open>worker\<close> is one running \<^verbatim>\<open>udp_worker\<close>: its path, token and socket, its deadline (negative
  where it has none), the address of the last datagram and its packet buffer. \<open>vs_turn\<close> is the static
  variable \<^verbatim>\<open>path\<close> of \<^verbatim>\<open>udp_sender\<close>; \<open>vs_tun_buf\<close> and \<open>vs_hb_buf\<close> are the buffers of
  \<^verbatim>\<open>tun_worker\<close> and \<^verbatim>\<open>heartbeat\<close>; \<open>vs_open\<close> are the sockets not yet closed.
\<close>

record worker =
  wk_path :: nat
  wk_token :: int
  wk_sock :: sock
  wk_deadline :: int
  wk_addr :: ipaddr
  wk_buf :: pbuf

text \<open>Only a worker with a deadline ever times out.\<close>

definition wk_timed :: "worker \<Rightarrow> bool" where
  "wk_timed w \<longleftrightarrow> 0 \<le> wk_deadline w"

record vpn =
  vs_ctx :: ctx
  vs_workers :: "worker list"
  vs_open :: "sock list"
  vs_next :: sock
  vs_turn :: nat
  vs_tun_alive :: bool
  vs_tun_buf :: pbuf
  vs_hb_buf :: pbuf
  vs_last :: snmp
  vs_start :: u64

datatype effect =
    UdpSend sock ipaddr "byte list"
  | UdpClose sock
  | TunWrite "byte list"
  | Logged string

section \<open>Sending a packet on a path\<close>

text \<open>
  The common end of \<^verbatim>\<open>heartbeat\<close> and \<^verbatim>\<open>udp_sender\<close>: encapsulate, count, \<^verbatim>\<open>udpsend\<close>.
\<close>

definition send_on :: "lib \<Rightarrow> byte list \<Rightarrow> rng \<Rightarrow> sock list \<Rightarrow> path \<Rightarrow> int \<Rightarrow> pbuf \<Rightarrow> snmp
    \<Rightarrow> (pbuf \<times> snmp \<times> effect list) res" where
  "send_on L key r opened p mtu buf sn =
     bind_res (encapsulate L key r (px_token p) buf mtu) (\<lambda>(n, e).
       let sn' = sn\<lparr>out_packets := out_packets sn + 1, out_bytes := out_bytes sn + word_of_int n\<rparr>
       in case px_sock p of
            None \<Rightarrow> Inl AssertFailed
          | Some s \<Rightarrow>
              if s \<notin> set opened then Inl UseAfterFree
              else Inr (e, sn', [UdpSend s (px_remote p) (take (nat n) (pbuf_bytes e))]))"

section \<open>\<open>udp_sender\<close>\<close>

text \<open>The loop that looks for the next path, from \<open>p\<close> on and back to \<open>lst\<close>.\<close>

partial_function (option) next_path :: "(nat \<Rightarrow> bool) \<Rightarrow> nat \<Rightarrow> nat \<Rightarrow> nat \<Rightarrow> nat option" where
  [code]: "next_path alive count lst p =
     (let q = (p + 1) mod count
      in if alive q \<or> q = lst then Some q else next_path alive count lst q)"

definition alive_in :: "ctx \<Rightarrow> nat \<Rightarrow> bool" where
  "alive_in c i \<longleftrightarrow> 0 < px_alive (cx_paths c ! i)"

text \<open>The result is \<open>None\<close> where the loop would not end.\<close>

definition udp_sender :: "lib \<Rightarrow> byte list \<Rightarrow> rng \<Rightarrow> vpn \<Rightarrow> (vpn \<times> effect list) res option" where
  "udp_sender L key r s =
     (let c = vs_ctx s in
      case (if 0 < cx_path_count c
            then next_path (alive_in c) (nat (cx_path_count c)) (vs_turn s) (vs_turn s)
            else Some (vs_turn s)) of
        None \<Rightarrow> None
      | Some q \<Rightarrow>
          let p = cx_paths c ! q; s1 = s\<lparr>vs_turn := q\<rparr> in
          if px_sock p = None then Some (Inl AssertFailed)
          else if px_alive p \<le> 0 then Some (Inr (s1, []))
          else Some (bind_res (send_on L key r (vs_open s) p (cx_mtu c) (vs_tun_buf s) (cx_snmp c))
            (\<lambda>(e, sn, evs). Inr (s1\<lparr>vs_ctx := c\<lparr>cx_snmp := sn\<rparr>, vs_tun_buf := e\<rparr>, evs))))"

section \<open>\<open>tun_worker\<close>\<close>

text \<open>One round: a frame arrives, or reading fails and the coroutine ends.\<close>

definition tun_worker :: "target \<Rightarrow> lib \<Rightarrow> byte list \<Rightarrow> rng \<Rightarrow> byte list option \<Rightarrow> vpn
    \<Rightarrow> (vpn \<times> effect list) res option" where
  "tun_worker tgt L key r frame s =
     (let (n, ds) = tun_read tgt frame (nat (cx_mtu (vs_ctx s))) in
      if n \<le> 0 then Some (Inr (s\<lparr>vs_tun_alive := False\<rparr>, [Logged ''tun_read'']))
      else case mem_write PAYLOAD_OFFSET ds (vs_tun_buf s) of
          Inl e \<Rightarrow> Some (Inl e)
        | Inr b \<Rightarrow> udp_sender L key r (s\<lparr>vs_tun_buf := b\<lparr>len := word_of_int n, flag := 0\<rparr>\<rparr>))"

section \<open>\<open>udp_worker\<close>\<close>

text \<open>
  The part before the loop, with the token or port offset it is started with. \<open>remote_of\<close>
  stands for \<^verbatim>\<open>ipremote\<close>, \<open>local_of\<close> for \<^verbatim>\<open>iplocal\<close>, \<open>bound\<close> says whether \<^verbatim>\<open>udplisten\<close>
  succeeds, \<open>now_of\<close> is what \<^verbatim>\<open>now()\<close> returns, in milliseconds, when the worker of a path
  starts; the buffer is uninitialised and therefore arbitrary.
\<close>

record netenv =
  remote_of :: "string \<Rightarrow> int \<Rightarrow> ipaddr"
  local_of :: "string \<Rightarrow> int \<Rightarrow> ipaddr"
  bound :: "sock \<Rightarrow> bool"
  fresh_buf :: "sock \<Rightarrow> pbuf"
  now_of :: "nat \<Rightarrow> int"

definition worker_start :: "netenv \<Rightarrow> nat \<Rightarrow> int \<Rightarrow> int \<Rightarrow> vpn \<Rightarrow> (vpn \<times> effect list) res" where
  "worker_start N i token timeout s =
     (let deadline = (if timeout < 0 then -1 else now_of N i + timeout);
          c = vs_ctx s; p = cx_paths c ! i; pt = px_start p + token in
      if \<not> is_int32 pt then Inl IntOverflow
      else
        let c1 = (if cx_mode c = MODE_CLIENT
                  then update_path i (\<lambda>p. p\<lparr>px_remote := remote_of N (cstr (px_server p)) pt, px_token := token\<rparr>) c
                  else update_path i (\<lambda>p. p\<lparr>px_alive := 0\<rparr>) c);
            a = (if cx_mode c = MODE_CLIENT then no_addr else local_of N (cstr (px_server p)) pt);
            k = vs_next s
        in if \<not> bound N k then Inr (s\<lparr>vs_ctx := c1\<rparr>, [Logged ''failed to bind udp address''])
           else Inr (s\<lparr>vs_ctx := update_path i (\<lambda>p. p\<lparr>px_sock := Some k\<rparr>) c1,
                  vs_open := k # vs_open s, vs_next := k + 1,
                  vs_workers := vs_workers s @ [\<lparr>wk_path = i, wk_token = token, wk_sock = k,
                    wk_deadline = deadline, wk_addr = a, wk_buf = fresh_buf N k\<rparr>]\<rparr>, []))"

text \<open>
  What \<^verbatim>\<open>udprecv\<close> comes back with: a datagram from an address, the deadline, or another error;
  \<open>tw\<close> is what \<^verbatim>\<open>tun_write\<close> will return if it comes to that.
\<close>

datatype recv = Datagram ipaddr "byte list" int | TimedOut | RecvError

definition invalid_packet :: "ctx \<Rightarrow> effect list" where
  "invalid_packet c =
     [Logged (if cx_mode c = MODE_CLIENT then ''invalid packet, drop'' else ''invalid packet from'')]"

text \<open>The rest of a round once a datagram of \<open>n\<close> bytes lies in the buffer.\<close>

definition worker_packet :: "lib \<Rightarrow> byte list \<Rightarrow> worker \<Rightarrow> int \<Rightarrow> int \<Rightarrow> ctx \<Rightarrow> (ctx \<times> worker \<times> effect list) res" where
  "worker_packet L key w n tw c =
     bind_res (decapsulate L key (wk_token w) (wk_buf w) n) (\<lambda>(k, b).
       let w1 = w\<lparr>wk_buf := b\<rparr> in
       if k < 0 then Inr (c, w1, invalid_packet c)
       else
         let sn = cx_snmp c;
             c1 = c\<lparr>cx_snmp := sn\<lparr>in_packets := in_packets sn + 1, in_bytes := in_bytes sn + word_of_int k\<rparr>\<rparr>;
             c2 = (if cx_mode c = MODE_SERVER
                   then update_path (wk_path w) (\<lambda>p. p\<lparr>px_sock := Some (wk_sock w), px_remote := wk_addr w,
                          px_token := wk_token w\<rparr>) c1
                   else c1);
             c3 = update_path (wk_path w) (\<lambda>p. p\<lparr>px_alive := 5\<rparr>) c2
         in if k = 0 then Inr (c3, w1, [])
            else bind_res (mem_read PAYLOAD_OFFSET (unat (len b)) b) (\<lambda>ds.
              Inr (c3, w1, TunWrite ds # (if tw < 0 then [Logged ''tun_write''] else []))))"

text \<open>The bytes that reach the buffer: \<^verbatim>\<open>udprecv\<close> cuts a datagram off at the room it is given.\<close>

definition received :: "ctx \<Rightarrow> recv \<Rightarrow> byte list" where
  "received c rv = (case rv of Datagram a bs tw \<Rightarrow> take (nat (cx_mtu c) + PAYLOAD_OFFSET) bs | _ \<Rightarrow> [])"

text \<open>The variable \<^verbatim>\<open>addr\<close> afterwards; the client does not ask for the sender.\<close>

definition sender_addr :: "ctx \<Rightarrow> worker \<Rightarrow> recv \<Rightarrow> ipaddr" where
  "sender_addr c w rv =
     (if cx_mode c = MODE_CLIENT then wk_addr w
      else case rv of Datagram a bs tw \<Rightarrow> a | _ \<Rightarrow> wk_addr w)"

text \<open>
  One round of the loop. The worker is \<open>None\<close> when it ends. The server checks its token before
  it looks at what \<^verbatim>\<open>udprecv\<close> returned.
\<close>

definition worker_round :: "lib \<Rightarrow> byte list \<Rightarrow> worker \<Rightarrow> recv \<Rightarrow> ctx \<Rightarrow> (ctx \<times> worker option \<times> effect list) res" where
  "worker_round L key w rv c =
     bind_res (recv_into (received c rv) (wk_buf w)) (\<lambda>b.
       let w1 = w\<lparr>wk_addr := sender_addr c w rv, wk_buf := b\<rparr>; n = length (received c rv) in
       if cx_mode c \<noteq> MODE_CLIENT \<and> wk_token w \<notin> set (px_valid (cx_paths c ! wk_path w))
       then Inr (c, Some w1, if fst (wk_addr w1) \<noteq> ''127.0.0.1'' then [Logged ''invalid packet from''] else [])
       else case rv of
           TimedOut \<Rightarrow> Inr (c, None, [UdpClose (wk_sock w)])
         | RecvError \<Rightarrow> Inr (c, Some w1, [Logged ''udprecv''])
         | Datagram a bs tw \<Rightarrow>
             if n < PAYLOAD_OFFSET then Inr (c, Some w1, [])
             else bind_res (worker_packet L key w1 (int n) tw c)
               (\<lambda>(c', w2, evs). Inr (c', Some w2, evs)))"

text \<open>The round of worker number \<open>j\<close> in the process; \<^verbatim>\<open>udpclose\<close> at its end.\<close>

definition worker_step :: "lib \<Rightarrow> byte list \<Rightarrow> nat \<Rightarrow> recv \<Rightarrow> vpn \<Rightarrow> (vpn \<times> effect list) res" where
  "worker_step L key j rv s =
     (let w = vs_workers s ! j in
      bind_res (worker_round L key w rv (vs_ctx s)) (\<lambda>(c, wo, evs).
        case wo of
          Some w' \<Rightarrow> Inr (s\<lparr>vs_ctx := c, vs_workers := (vs_workers s)[j := w']\<rparr>, evs)
        | None \<Rightarrow> Inr (s\<lparr>vs_ctx := c, vs_workers := take j (vs_workers s) @ drop (Suc j) (vs_workers s),
                       vs_open := removeAll (wk_sock w) (vs_open s)\<rparr>, evs)))"

section \<open>\<open>client_hop\<close>\<close>

text \<open>A sequence of steps, in order; their effects are appended.\<close>

fun steps :: "(vpn \<Rightarrow> (vpn \<times> effect list) res) list \<Rightarrow> vpn \<Rightarrow> (vpn \<times> effect list) res" where
  "steps [] s = Inr (s, [])"
| "steps (f # fs) s = bind_res (f s) (\<lambda>(s1, evs). bind_res (steps fs s1) (\<lambda>(s2, evs'). Inr (s2, evs @ evs')))"

text \<open>\<open>clk i\<close> is the clock when \<^verbatim>\<open>totp\<close> is called for path \<open>i\<close>.\<close>

definition hop_path :: "lib \<Rightarrow> byte list \<Rightarrow> netenv \<Rightarrow> (nat \<Rightarrow> int \<times> int) \<Rightarrow> nat \<Rightarrow> vpn \<Rightarrow> (vpn \<times> effect list) res" where
  "hop_path L key N clk i s =
     bind_res (totp L key (clk i) (px_range (cx_paths (vs_ctx s) ! i)) 0) (\<lambda>token. worker_start N i token (5 * 1000) s)"

definition client_hop :: "lib \<Rightarrow> byte list \<Rightarrow> netenv \<Rightarrow> (nat \<Rightarrow> int \<times> int) \<Rightarrow> vpn \<Rightarrow> (vpn \<times> effect list) res" where
  "client_hop L key N clk s =
     steps (map (hop_path L key N clk) [0..<nat (cx_path_count (vs_ctx s))]) s"

section \<open>\<open>heartbeat\<close>\<close>

text \<open>
  The slots of \<^verbatim>\<open>valid_tokens\<close> that a round writes, each with the offset passed to \<^verbatim>\<open>totp\<close>, in
  the order of the two loops. Slot 1 is not among them.
\<close>

definition slots :: "(nat \<times> int) list" where
  "slots = map (\<lambda>i. (2 * i, int i)) [0..<POOL div 2] @ map (\<lambda>i. (2 * i + 1, - int i)) [1..<POOL div 2]"

fun fill_slots :: "lib \<Rightarrow> byte list \<Rightarrow> (nat \<Rightarrow> int \<times> int) \<Rightarrow> int \<Rightarrow> (nat \<times> int) list \<Rightarrow> int list \<Rightarrow> int list res" where
  "fill_slots L key clk rg [] v = Inr v"
| "fill_slots L key clk rg ((j, offset) # sl) v =
     bind_res (totp L key (clk j) rg offset) (\<lambda>token. fill_slots L key clk rg sl (v[j := token]))"

text \<open>\<open>clk i j\<close> is the clock when the token of slot \<open>j\<close> of path \<open>i\<close> is computed.\<close>

definition heartbeat_path :: "lib \<Rightarrow> byte list \<Rightarrow> (nat \<Rightarrow> nat \<Rightarrow> int \<times> int) \<Rightarrow> (nat \<Rightarrow> rng) \<Rightarrow> nat \<Rightarrow> vpn
    \<Rightarrow> (vpn \<times> effect list) res" where
  "heartbeat_path L key clk rs i s =
     (let c = vs_ctx s; p = cx_paths c ! i in
      bind_res (fill_slots L key (clk i) (px_range p) slots (px_valid p)) (\<lambda>v.
        let s1 = s\<lparr>vs_ctx := update_path i (\<lambda>p. p\<lparr>px_valid := v\<rparr>) c\<rparr> in
        bind_res
          (if (cx_mode c = MODE_CLIENT \<or> 0 < px_alive p) \<and> px_sock p \<noteq> None
           then bind_res (send_on L key (rs i) (vs_open s) p (cx_mtu c)
                  ((vs_hb_buf s)\<lparr>len := 0, flag := 0\<rparr>) (cx_snmp c))
                (\<lambda>(e, sn, evs). Inr (s1\<lparr>vs_ctx := (vs_ctx s1)\<lparr>cx_snmp := sn\<rparr>, vs_hb_buf := e\<rparr>, evs))
           else Inr (s1, []))
          (\<lambda>(s2, evs).
            Inr (if 0 < px_alive p
                 then s2\<lparr>vs_ctx := update_path i (\<lambda>p. p\<lparr>px_alive := px_alive p - 1\<rparr>) (vs_ctx s2)\<rparr>
                 else s2, evs))))"

definition heartbeat :: "lib \<Rightarrow> byte list \<Rightarrow> (nat \<Rightarrow> nat \<Rightarrow> int \<times> int) \<Rightarrow> (nat \<Rightarrow> rng) \<Rightarrow> vpn
    \<Rightarrow> (vpn \<times> effect list) res" where
  "heartbeat L key clk rs s =
     steps (map (heartbeat_path L key clk rs) [0..<nat (cx_path_count (vs_ctx s))]) s"

text \<open>The pause between two rounds, in milliseconds.\<close>

definition heartbeat_pause :: "rng \<Rightarrow> nat" where
  "heartbeat_pause r = TOTP_STEP * 2 div 3 + rng_uniform r (TOTP_STEP * 2 div 3)"

section \<open>\<open>snmp_logger\<close>\<close>

text \<open>\<^verbatim>\<open>(int)((a - b) * 1000 / interval)\<close> in 64 bits.\<close>

definition rate :: "u64 \<Rightarrow> u64 \<Rightarrow> u64 \<Rightarrow> int" where
  "rate a b interval = signed_take_bit 31 (uint ((a - b) * 1000 div interval))"

definition snmp_round :: "u64 \<Rightarrow> vpn \<Rightarrow> vpn res" where
  "snmp_round now s =
     (let lst = vs_last s; sn = cx_snmp (vs_ctx s); interval = now - sn_timestamp lst in
      if interval = 0 then Inl DivByZero
      else
        let sn' = sn\<lparr>sn_timestamp := now, sn_uptime := now - vs_start s,
              out_packet_rate := rate (out_packets sn) (out_packets lst) interval,
              out_byte_rate := rate (out_bytes sn) (out_bytes lst) interval,
              in_packet_rate := rate (in_packets sn) (in_packets lst) interval,
              in_byte_rate := rate (in_bytes sn) (in_bytes lst) interval\<rparr>
        in Inr (s\<lparr>vs_ctx := (vs_ctx s)\<lparr>cx_snmp := sn'\<rparr>, vs_last := sn'\<rparr>))"

section \<open>Signals\<close>

definition vpn_stop :: "vpn \<Rightarrow> vpn" where
  "vpn_stop s = s\<lparr>vs_ctx := (vs_ctx s)\<lparr>cx_running := 0\<rparr>\<rparr>"

text \<open>The lines \<^verbatim>\<open>vpn_snmp\<close> prints; the first one goes to the log.\<close>

definition vpn_snmp :: "vpn \<Rightarrow> string list" where
  "vpn_snmp s =
     (let sn = cx_snmp (vs_ctx s) in
      [''snmp:'', ''uptime: '' @ dec (unat (sn_uptime sn div 1000)) @ ''s'',
       ''out_packets: '' @ dec (unat (out_packets sn)),
       ''out_bytes: '' @ dec (unat (out_bytes sn)),
       ''out_packet_rate: '' @ show_int (out_packet_rate sn),
       ''out_byte_rate: '' @ show_int (out_byte_rate sn),
       ''in_packets: '' @ dec (unat (in_packets sn)),
       ''in_bytes: '' @ dec (unat (in_bytes sn)),
       ''in_packet_rate: '' @ show_int (in_packet_rate sn),
       ''in_byte_rate: '' @ show_int (in_byte_rate sn)])"

end
