(* ===== verification/Sender.thy ===== *)
theory Sender
  imports Vpn
begin

text \<open>
  The choice of the path in \<^verbatim>\<open>udp_sender\<close>: the loop ends and takes the first living path after
  the last one used, cyclically.
\<close>

lemma next_path_step:
  "next_path alive count lst p =
     (if alive ((p + 1) mod count) \<or> (p + 1) mod count = lst then Some ((p + 1) mod count)
      else next_path alive count lst ((p + 1) mod count))"
  by (subst next_path.simps) (simp add: Let_def)

text \<open>The search after \<open>d\<close> positions found nothing yet.\<close>

lemma next_path_from:
  assumes "lst < count" and "d < count"
  shows "\<exists>e. d < e \<and> e \<le> count \<and> next_path alive count lst ((lst + d) mod count) = Some ((lst + e) mod count)
    \<and> (alive ((lst + e) mod count) \<or> e = count) \<and> (\<forall>k. d < k \<and> k < e \<longrightarrow> \<not> alive ((lst + k) mod count))"
  using assms
proof (induction "count - d" arbitrary: d)
  case 0
  then show ?case by simp
next
  case (Suc n)
  let ?q = "(lst + Suc d) mod count"
  have q: "((lst + d) mod count + 1) mod count = ?q"
    by (simp add: mod_Suc_eq)
  have home: "?q = lst \<longleftrightarrow> Suc d = count"
  proof (cases "lst + Suc d < count")
    case True
    then show ?thesis by simp
  next
    case False
    then have "?q = lst + Suc d - count"
      using Suc.prems by (simp add: le_mod_geq)
    then show ?thesis
      using False Suc.prems by auto
  qed
  show ?case
  proof (cases "alive ?q \<or> ?q = lst")
    case True
    then show ?thesis
      using Suc.prems home unfolding next_path_step [of alive count lst "(lst + d) mod count"] q
      by (intro exI [of _ "Suc d"]) auto
  next
    case False
    then have "Suc d < count"
      using Suc.prems home by simp
    then obtain e where e: "Suc d < e" "e \<le> count" "next_path alive count lst ?q = Some ((lst + e) mod count)"
      "alive ((lst + e) mod count) \<or> e = count" "\<forall>k. Suc d < k \<and> k < e \<longrightarrow> \<not> alive ((lst + k) mod count)"
    proof -
      have "n = count - Suc d"
        using Suc.hyps(2) by simp
      from Suc.hyps(1) [OF this Suc.prems(1) \<open>Suc d < count\<close>] show ?thesis
        using that by blast
    qed
    have "\<not> alive ((lst + k) mod count)" if "d < k" "k < e" for k
      using e(5) False that by (cases "k = Suc d") auto
    then show ?thesis
      using e False unfolding next_path_step [of alive count lst "(lst + d) mod count"] q
      by (intro exI [of _ e]) auto
  qed
qed

lemma next_path_found:
  assumes "lst < count"
  obtains e where "0 < e" "e \<le> count" "next_path alive count lst lst = Some ((lst + e) mod count)"
    "alive ((lst + e) mod count) \<or> e = count" "\<And>k. 0 < k \<Longrightarrow> k < e \<Longrightarrow> \<not> alive ((lst + k) mod count)"
  using next_path_from [OF assms, of 0 alive] assms by auto

lemma mod_reach:
  assumes "(i :: nat) < count" and "lst < count"
  obtains d where "0 < d" "d \<le> count" "(lst + d) mod count = i"
proof (cases "lst < i")
  case True
  then show ?thesis
    using that [of "i - lst"] assms by simp
next
  case False
  then show ?thesis
    using that [of "count - (lst - i)"] assms by (simp add: le_mod_geq)
qed

lemma next_path_none_alive:
  assumes "lst < count" and "\<And>i. i < count \<Longrightarrow> \<not> alive i"
  shows "next_path alive count lst lst = Some lst"
proof -
  obtain e where "e \<le> count" "next_path alive count lst lst = Some ((lst + e) mod count)"
    "alive ((lst + e) mod count) \<or> e = count"
    using next_path_found [OF assms(1)] by metis
  moreover have "(lst + e) mod count < count" for e
    using assms(1) by simp
  ultimately have "next_path alive count lst lst = Some ((lst + count) mod count)"
    using assms(2) by metis
  then show ?thesis
    using assms(1) by simp
qed

text \<open>A living path is found whenever there is one.\<close>

lemma next_path_alive:
  assumes "lst < count" and "i < count" and "alive i"
  obtains q where "next_path alive count lst lst = Some q" "q < count" "alive q"
proof -
  obtain e where e: "0 < e" "e \<le> count" "next_path alive count lst lst = Some ((lst + e) mod count)"
    "alive ((lst + e) mod count) \<or> e = count" "\<And>k. 0 < k \<Longrightarrow> k < e \<Longrightarrow> \<not> alive ((lst + k) mod count)"
    using next_path_found [OF assms(1)] by metis
  obtain d where d: "0 < d" "d \<le> count" "(lst + d) mod count = i"
    using mod_reach [OF assms(2,1)] by metis
  have "e \<le> d"
    using e(5) [OF d(1)] d(3) assms(3) by force
  then have "alive ((lst + e) mod count)"
    using e(4) d assms(3) by (cases "e = d") auto
  then show ?thesis
    using that [OF e(3)] assms(1) by simp
qed

section \<open>The sender\<close>

lemma udp_sender_cases:
  assumes "0 < cx_path_count (vs_ctx s)" and "vs_turn s < nat (cx_path_count (vs_ctx s))"
  shows "\<exists>q. let c = vs_ctx s; count = nat (cx_path_count c); p = cx_paths c ! q in
      q < count
      \<and> (alive_in c q \<longleftrightarrow> (\<exists>i < count. alive_in c i))
      \<and> (\<exists>e. 0 < e \<and> e \<le> count \<and> q = (vs_turn s + e) mod count \<and> (\<forall>k. 0 < k \<and> k < e \<longrightarrow> \<not> alive_in c ((vs_turn s + k) mod count)))
      \<and> (\<not> alive_in c q \<longrightarrow> q = vs_turn s)
      \<and> udp_sender L key r s =
         (if px_sock p = None then Some (Inl AssertFailed)
          else if \<not> alive_in c q then Some (Inr (s\<lparr>vs_turn := q\<rparr>, []))
          else Some (bind_res (send_on L key r (vs_open s) p (cx_mtu c) (vs_tun_buf s) (cx_snmp c))
            (\<lambda>(e, sn, evs). Inr (s\<lparr>vs_turn := q, vs_ctx := c\<lparr>cx_snmp := sn\<rparr>, vs_tun_buf := e\<rparr>, evs))))"
proof -
  let ?c = "vs_ctx s" and ?t = "vs_turn s"
  let ?n = "nat (cx_path_count ?c)"
  obtain e where e: "0 < e" "e \<le> ?n" "next_path (alive_in ?c) ?n ?t ?t = Some ((?t + e) mod ?n)"
    "alive_in ?c ((?t + e) mod ?n) \<or> e = ?n" "\<And>k. 0 < k \<Longrightarrow> k < e \<Longrightarrow> \<not> alive_in ?c ((?t + k) mod ?n)"
    using next_path_found [OF assms(2)] by metis
  let ?q = "(?t + e) mod ?n"
  have q: "?q < ?n"
    using assms by simp
  have alive: "alive_in ?c ?q \<longleftrightarrow> (\<exists>i < ?n. alive_in ?c i)"
    using q next_path_alive [OF assms(2), of _ "alive_in ?c"] e(3) by (metis option.inject)
  have stay: "\<not> alive_in ?c ?q \<longrightarrow> ?q = ?t"
    using e(4) assms by auto
  show ?thesis
    unfolding Let_def
  proof (rule exI [of _ ?q], intro conjI q alive stay)
    show "\<exists>e. 0 < e \<and> e \<le> ?n \<and> ?q = (?t + e) mod ?n \<and> (\<forall>k. 0 < k \<and> k < e \<longrightarrow> \<not> alive_in ?c ((?t + k) mod ?n))"
      using e(1,2,5) by blast
    show "udp_sender L key r s =
         (if px_sock (cx_paths ?c ! ?q) = None then Some (Inl AssertFailed)
          else if \<not> alive_in ?c ?q then Some (Inr (s\<lparr>vs_turn := ?q\<rparr>, []))
          else Some (bind_res (send_on L key r (vs_open s) (cx_paths ?c ! ?q) (cx_mtu ?c) (vs_tun_buf s) (cx_snmp ?c))
            (\<lambda>(e, sn, evs). Inr (s\<lparr>vs_turn := ?q, vs_ctx := ?c\<lparr>cx_snmp := sn\<rparr>, vs_tun_buf := e\<rparr>, evs))))"
      unfolding udp_sender_def Let_def if_P [OF assms(1)] e(3)
      by (simp add: alive_in_def not_less)
  qed
qed

lemma udp_sender_form:
  assumes "0 < cx_path_count (vs_ctx s)" and "vs_turn s < nat (cx_path_count (vs_ctx s))"
  obtains q where "q < nat (cx_path_count (vs_ctx s))"
    "alive_in (vs_ctx s) q \<longleftrightarrow> (\<exists>i < nat (cx_path_count (vs_ctx s)). alive_in (vs_ctx s) i)"
    "udp_sender L key r s =
         (if px_sock (cx_paths (vs_ctx s) ! q) = None then Some (Inl AssertFailed)
          else if \<not> alive_in (vs_ctx s) q then Some (Inr (s\<lparr>vs_turn := q\<rparr>, []))
          else Some (bind_res (send_on L key r (vs_open s) (cx_paths (vs_ctx s) ! q) (cx_mtu (vs_ctx s)) (vs_tun_buf s)
              (cx_snmp (vs_ctx s)))
            (\<lambda>(e, sn, evs). Inr (s\<lparr>vs_turn := q, vs_ctx := (vs_ctx s)\<lparr>cx_snmp := sn\<rparr>, vs_tun_buf := e\<rparr>, evs))))"
  using udp_sender_cases [OF assms, of L key r] unfolding Let_def by blast

text \<open>
  C13. \<^verbatim>\<open>udp_sender\<close> always finishes: its search for a path ends after at most one turn around
  the paths. When some path is alive it sends the packet, once, on the first living path after
  the one used last (cyclically, and the one used last itself only when no other path is alive),
  with that path's token, socket and remote address; when none is alive nothing is sent and the
  turn stays. It aborts exactly when the path it stops at has no
  socket, even when that path is dead and nothing would be sent.
\<close>

theorem udp_sender_choice:
  assumes "0 < cx_path_count (vs_ctx s)" and "vs_turn s < nat (cx_path_count (vs_ctx s))"
  shows "\<exists>q. let c = vs_ctx s; count = nat (cx_path_count c); p = cx_paths c ! q in
      q < count
      \<and> (alive_in c q \<longleftrightarrow> (\<exists>i < count. alive_in c i))
      \<and> (\<exists>e. 0 < e \<and> e \<le> count \<and> q = (vs_turn s + e) mod count \<and> (\<forall>k. 0 < k \<and> k < e \<longrightarrow> \<not> alive_in c ((vs_turn s + k) mod count)))
      \<and> (\<not> alive_in c q \<longrightarrow> q = vs_turn s)
      \<and> udp_sender L key r s =
         (if px_sock p = None then Some (Inl AssertFailed)
          else if \<not> alive_in c q then Some (Inr (s\<lparr>vs_turn := q\<rparr>, []))
          else Some (bind_res (send_on L key r (vs_open s) p (cx_mtu c) (vs_tun_buf s) (cx_snmp c))
            (\<lambda>(e, sn, evs). Inr (s\<lparr>vs_turn := q, vs_ctx := c\<lparr>cx_snmp := sn\<rparr>, vs_tun_buf := e\<rparr>, evs))))"
  by (rule udp_sender_cases [OF assms])

text \<open>A process with two paths, of which the second is alive; nothing was sent yet.\<close>

definition demo_ctx :: ctx where
  "demo_ctx = zero_ctx\<lparr>cx_mode := MODE_CLIENT, cx_mtu := 1400, cx_path_count := 2,
     cx_paths := [zero_path_ctx\<lparr>px_sock := Some 0\<rparr>, zero_path_ctx\<lparr>px_sock := Some 1, px_alive := 5, px_start := 1205, px_range := 94\<rparr>]
       @ replicate 6 zero_path_ctx\<rparr>"

definition demo_vpn :: vpn where
  "demo_vpn = \<lparr>vs_ctx = demo_ctx, vs_workers = [], vs_open = [0, 1], vs_next = 2, vs_turn = 0,
     vs_tun_alive = True, vs_tun_buf = packet_of [1, 2, 3], vs_hb_buf = packet_of [], vs_last = zero_snmp,
     vs_start = 0\<rparr>"

definition demo_both :: ctx where
  "demo_both = demo_ctx\<lparr>cx_paths := (cx_paths demo_ctx)[0 := (cx_paths demo_ctx ! 0)\<lparr>px_alive := 3\<rparr>]\<rparr>"

text \<open>With both paths alive the packet leaves on the one that was not used last.\<close>

theorem udp_sender_choice_witness:
  "udp_sender demo_lib [1, 2] demo_rng (demo_vpn\<lparr>vs_turn := 1, vs_ctx := demo_both\<rparr>) =
     Some (bind_res (send_on demo_lib [1, 2] demo_rng [0, 1] (cx_paths demo_both ! 0) 1400 (packet_of [1, 2, 3]) zero_snmp)
       (\<lambda>(e, sn, evs). Inr (demo_vpn\<lparr>vs_turn := 0, vs_ctx := demo_both\<lparr>cx_snmp := sn\<rparr>, vs_tun_buf := e\<rparr>, evs)))"
proof -
  let ?s = "demo_vpn\<lparr>vs_turn := 1, vs_ctx := demo_both\<rparr>"
  have c: "cx_path_count demo_both = 2" "cx_mtu demo_both = 1400" "cx_snmp demo_both = zero_snmp" "px_sock (cx_paths demo_both ! 0) = Some 0"
    "vs_open demo_vpn = [0, 1]" "vs_tun_buf demo_vpn = packet_of [1, 2, 3]"
    by (simp_all add: demo_both_def demo_ctx_def demo_vpn_def zero_ctx_def)
  have alive: "alive_in demo_both 0" "alive_in demo_both 1"
    by (simp_all add: alive_in_def demo_both_def demo_ctx_def)
  have f: "vs_ctx ?s = demo_both" "vs_turn ?s = 1" "vs_open ?s = [0, 1]" "vs_tun_buf ?s = packet_of [1, 2, 3]"
    by (simp_all add: c)
  have "0 < cx_path_count (vs_ctx ?s)" "vs_turn ?s < nat (cx_path_count (vs_ctx ?s))"
    unfolding f c by simp_all
  from udp_sender_choice [OF this, of demo_lib "[1, 2]" demo_rng] show ?thesis
    unfolding Let_def f c
  proof (elim exE conjE)
    fix q e
    assume e: "0 < e" "e \<le> nat 2" "q = (1 + e) mod nat 2" "\<forall>k. 0 < k \<and> k < e \<longrightarrow> \<not> alive_in demo_both ((1 + k) mod nat 2)"
      and run: "udp_sender demo_lib [1, 2] demo_rng ?s = (if px_sock (cx_paths demo_both ! q) = None then Some (Inl AssertFailed)
          else if \<not> alive_in demo_both q then Some (Inr (?s\<lparr>vs_turn := q\<rparr>, []))
          else Some (bind_res (send_on demo_lib [1, 2] demo_rng [0, 1] (cx_paths demo_both ! q) 1400 (packet_of [1, 2, 3]) zero_snmp)
            (\<lambda>(e, sn, evs). Inr (?s\<lparr>vs_turn := q, vs_ctx := demo_both\<lparr>cx_snmp := sn\<rparr>, vs_tun_buf := e\<rparr>, evs))))"
    have "e = 1"
      using e(1,2) spec [OF e(4), of 1] alive(1) by (cases "e = 1") simp_all
    then have q: "q = 0"
      using e(3) by simp
    show ?thesis
      using run alive(1) unfolding q by (simp add: c(4) demo_vpn_def)
  qed
qed

text \<open>Where the search ends when a path \<open>d\<close> positions ahead is alive: at that path or closer.\<close>

lemma next_path_within:
  assumes "lst < count" and "0 < d" "d \<le> count" and "alive ((lst + d) mod count)"
  obtains e where "0 < e" "e \<le> d" "next_path alive count lst lst = Some ((lst + e) mod count)"
proof -
  obtain e where e: "0 < e" "e \<le> count" "next_path alive count lst lst = Some ((lst + e) mod count)"
    "\<And>k. 0 < k \<Longrightarrow> k < e \<Longrightarrow> \<not> alive ((lst + k) mod count)"
    using next_path_found [OF assms(1)] by metis
  have "e \<le> d"
    using e(4) [of d] assms by force
  then show ?thesis
    by (rule that [OF e(1) _ e(3)])
qed

end
