(* ===== verification/Heartbeat.thy ===== *)
theory Heartbeat
  imports Sender
begin

text \<open>
  The heartbeat: the tokens a round stores, the invariant of the process that the rounds rely
  on, what a round sends and how it counts down the paths, and the pause between two rounds.
\<close>

section \<open>The token slots\<close>

lemma slots_facts:
  "distinct (map fst slots)" "\<forall>(j, x) \<in> set slots. j < 40 \<and> j \<noteq> 1"
  "fst ` set slots = {0..<40} - {1}" "snd ` set slots = {-19..19}"
proof -
  have s: "slots = map (\<lambda>i. (2 * i, int i)) [0..<20] @ map (\<lambda>i. (2 * i + 1, - int i)) [1..<20]"
    by (simp add: slots_def POOL_def)
  show "distinct (map fst slots)"
    unfolding s by (auto simp: distinct_map inj_on_def comp_def) (metis even_Suc even_mult_iff even_numeral)
  show "\<forall>(j, x) \<in> set slots. j < 40 \<and> j \<noteq> 1"
    unfolding s by auto
  have "j \<in> fst ` set slots" if "j < 40" "j \<noteq> 1" for j :: nat
  proof (cases "even j")
    case True
    then have "j = 2 * (j div 2)" "j div 2 < 20"
      using that by auto
    then have "(j, int (j div 2)) \<in> set slots"
      unfolding s by (auto intro!: image_eqI [of _ _ "j div 2"])
    then show ?thesis by force
  next
    case False
    then have "j = 2 * (j div 2) + 1" "1 \<le> j div 2" "j div 2 < 20"
      using that by presburger+
    then have "(j, - int (j div 2)) \<in> set slots"
      unfolding s by (auto intro!: image_eqI [of _ _ "j div 2"])
    then show ?thesis by force
  qed
  then have "{0..<40} - {1} \<subseteq> fst ` set slots"
    by auto (metis One_nat_def)
  moreover have "fst ` set slots \<subseteq> {0..<40} - {1}"
    using \<open>\<forall>(j, x) \<in> set slots. j < 40 \<and> j \<noteq> 1\<close> by fastforce
  ultimately show "fst ` set slots = {0..<40} - {1}"
    by (rule antisym [rotated])
  have "x \<in> snd ` set slots" if "-19 \<le> x" "x \<le> 19" for x :: int
  proof (cases "0 \<le> x")
    case True
    then have "(2 * nat x, x) \<in> set slots"
      using that unfolding s by (auto intro!: image_eqI [of _ _ "nat x"])
    then show ?thesis by force
  next
    case False
    then have "(2 * nat (- x) + 1, x) \<in> set slots"
      using that unfolding s by (auto intro!: image_eqI [of _ _ "nat (- x)"])
    then show ?thesis by force
  qed
  moreover have "\<forall>x \<in> snd ` set slots. -19 \<le> x \<and> x \<le> 19"
    unfolding s by auto
  ultimately show "snd ` set slots = {-19..19}"
    by auto
qed

definition step_of :: "int \<times> int \<Rightarrow> int \<Rightarrow> u64" where
  "step_of tv offset = time_step (fst tv) (snd tv) offset"

lemma totp_step: "token_ranged rg \<Longrightarrow> totp L key tv rg x = Inr (token_of L key rg (step_of tv x))"
  using totp_token_of [of rg L key "fst tv" "snd tv" x] by (simp add: step_of_def)

lemma fill_slots_value:
  assumes "token_ranged rg" and "distinct (map fst sl)" and "\<forall>(j, x) \<in> set sl. j < length v"
  shows "\<exists>v'. fill_slots L key clk rg sl v = Inr v' \<and> length v' = length v
    \<and> (\<forall>(j, x) \<in> set sl. v' ! j = token_of L key rg (step_of (clk j) x))
    \<and> (\<forall>j. j \<notin> fst ` set sl \<longrightarrow> v' ! j = v ! j)"
  using assms(2,3)
proof (induction sl arbitrary: v)
  case Nil
  then show ?case by simp
next
  case (Cons a sl)
  obtain j x where a: "a = (j, x)"
    by (cases a)
  let ?v = "v[j := token_of L key rg (step_of (clk j) x)]"
  obtain v' where v': "fill_slots L key clk rg sl ?v = Inr v'" "length v' = length ?v"
    "\<forall>(j, x) \<in> set sl. v' ! j = token_of L key rg (step_of (clk j) x)"
    "\<forall>j. j \<notin> fst ` set sl \<longrightarrow> v' ! j = ?v ! j"
    using Cons.IH [of ?v] Cons.prems a by auto
  have "j \<notin> fst ` set sl" "j < length v"
    using Cons.prems a by auto
  then show ?case
    using v' a by (intro exI [of _ v']) (auto simp: totp_step [OF assms(1)])
qed

text \<open>The tokens after a round, as a set.\<close>

lemma fill_slots_set:
  assumes "token_ranged rg" and "length v = 40"
  obtains v' where "fill_slots L key clk rg slots v = Inr v'" "length v' = 40" "v' ! 1 = v ! 1"
    "\<forall>x. -19 \<le> x \<and> x \<le> 19 \<longrightarrow> (\<exists>j < 40. token_of L key rg (step_of (clk j) x) \<in> set v')"
    "\<forall>t \<in> set v'. t = v ! 1 \<or> (\<exists>j < 40. \<exists>x. -19 \<le> x \<and> x \<le> 19 \<and> t = token_of L key rg (step_of (clk j) x))"
proof -
  have "\<forall>(j, x) \<in> set slots. j < length v"
    using slots_facts(2) assms(2) by fastforce
  then obtain v' where v': "fill_slots L key clk rg slots v = Inr v'" "length v' = length v"
    "\<forall>(j, x) \<in> set slots. v' ! j = token_of L key rg (step_of (clk j) x)"
    "\<forall>j. j \<notin> fst ` set slots \<longrightarrow> v' ! j = v ! j"
    using fill_slots_value [OF assms(1) slots_facts(1)] by blast
  have one: "v' ! 1 = v ! 1"
    using v'(4) slots_facts(3) by simp
  have "\<exists>j < 40. token_of L key rg (step_of (clk j) x) \<in> set v'" if "-19 \<le> x" "x \<le> 19" for x
  proof -
    have "x \<in> snd ` set slots"
      using that unfolding slots_facts(4) by simp
    then obtain j where "(j, x) \<in> set slots"
      by force
    then have "j < 40" "v' ! j = token_of L key rg (step_of (clk j) x)"
      using v'(3) slots_facts(2) by auto
    then show ?thesis
      using v'(2) assms(2) nth_mem [of j v'] by auto
  qed
  moreover have "t = v ! 1 \<or> (\<exists>j < 40. \<exists>x. -19 \<le> x \<and> x \<le> 19 \<and> t = token_of L key rg (step_of (clk j) x))"
    if "t \<in> set v'" for t
  proof -
    obtain j where j: "j < 40" "t = v' ! j"
      using \<open>t \<in> set v'\<close> v'(2) assms(2) by (auto simp: in_set_conv_nth)
    show ?thesis
    proof (cases "j = 1")
      case True
      then show ?thesis using j one by simp
    next
      case False
      then have "j \<in> fst ` set slots"
        using j slots_facts(3) by simp
      then obtain x where x: "(j, x) \<in> set slots"
        by force
      then have "x \<in> snd ` set slots"
        by force
      moreover have "v' ! j = token_of L key rg (step_of (clk j) x)"
        using v'(3) x by auto
      ultimately show ?thesis
        using j unfolding slots_facts(4) by auto
    qed
  qed
  ultimately show ?thesis
    using that [OF v'(1)] v'(2) assms(2) one by auto
qed

section \<open>The invariant of the process\<close>

definition path_ok :: "path \<Rightarrow> bool" where
  "path_ok p \<longleftrightarrow> token_ranged (px_range p) \<and> 0 \<le> px_start p \<and> px_start p + px_range p < 2 ^ 31
     \<and> 0 \<le> px_alive p \<and> px_alive p \<le> 5 \<and> 0 \<le> px_token p \<and> px_token p \<le> px_range p
     \<and> length (px_valid p) = 40"

definition worker_ok :: "vpn \<Rightarrow> worker \<Rightarrow> bool" where
  "worker_ok s w \<longleftrightarrow> int (wk_path w) < cx_path_count (vs_ctx s) \<and> wf_pbuf (wk_buf w)
     \<and> 0 \<le> wk_token w \<and> wk_token w \<le> px_range (cx_paths (vs_ctx s) ! wk_path w)
     \<and> wk_sock w \<in> set (vs_open s)"

text \<open>
  What every segment keeps: the arrays have their sizes, times to live and tokens are in range,
  the buffers are well formed, workers belong to a path and own an open socket each, and
  sockets are numbered in the order they are opened.
\<close>

definition ctx_ok :: "ctx \<Rightarrow> bool" where
  "ctx_ok c \<longleftrightarrow> length (cx_paths c) = 8 \<and> 1 \<le> cx_path_count c \<and> cx_path_count c \<le> 8
     \<and> cx_mode c \<in> {MODE_SERVER, MODE_CLIENT} \<and> 1024 \<le> cx_mtu c \<and> cx_mtu c \<le> 2048
     \<and> (\<forall>p \<in> set (cx_paths c). path_ok p)"

definition vpn_ok :: "vpn \<Rightarrow> bool" where
  "vpn_ok s \<longleftrightarrow> ctx_ok (vs_ctx s) \<and> (\<forall>w \<in> set (vs_workers s). worker_ok s w)
     \<and> vs_turn s < nat (cx_path_count (vs_ctx s))
     \<and> wf_pbuf (vs_tun_buf s) \<and> wf_pbuf (vs_hb_buf s)
     \<and> distinct (map wk_sock (vs_workers s)) \<and> (\<forall>k \<in> set (vs_open s). k < vs_next s)"

lemma worker_path_bound: "worker_ok s w \<Longrightarrow> ctx_ok (vs_ctx s) \<Longrightarrow> wk_path w < 8"
  by (auto simp: worker_ok_def ctx_ok_def)

lemma worker_nth_ok: "vpn_ok s \<Longrightarrow> j < length (vs_workers s) \<Longrightarrow> worker_ok s (vs_workers s ! j)"
  by (simp add: vpn_ok_def)

text \<open>Every socket a path holds is open: what sending needs.\<close>

definition socks_ok :: "vpn \<Rightarrow> bool" where
  "socks_ok s \<longleftrightarrow> (\<forall>p \<in> set (cx_paths (vs_ctx s)). \<forall>k. px_sock p = Some k \<longrightarrow> k \<in> set (vs_open s))"

lemma path_ok_nth: "ctx_ok c \<Longrightarrow> i < 8 \<Longrightarrow> path_ok (cx_paths c ! i)"
  by (simp add: ctx_ok_def)

lemma index_bound: "ctx_ok c \<Longrightarrow> i < nat (cx_path_count c) \<Longrightarrow> i < 8"
  by (auto simp: ctx_ok_def)

lemma update_path_fields [simp]:
  "cx_mode (update_path i f c) = cx_mode c" "cx_mtu (update_path i f c) = cx_mtu c"
  "cx_path_count (update_path i f c) = cx_path_count c" "cx_snmp (update_path i f c) = cx_snmp c"
  "cx_running (update_path i f c) = cx_running c" "cx_tun (update_path i f c) = cx_tun c"
  "length (cx_paths (update_path i f c)) = length (cx_paths c)"
  by (simp_all add: update_path_def)

lemma update_path_nth:
  "i < length (cx_paths c) \<Longrightarrow> cx_paths (update_path i f c) ! j = (if j = i then f (cx_paths c ! i) else cx_paths c ! j)"
  by (simp add: update_path_def nth_list_update)

lemma update_path_other: "j \<noteq> i \<Longrightarrow> cx_paths (update_path i f c) ! j = cx_paths c ! j"
  by (simp add: update_path_def)

lemma update_path_set:
  "p \<in> set (cx_paths (update_path i f c)) \<Longrightarrow> i < length (cx_paths c) \<Longrightarrow>
     p = f (cx_paths c ! i) \<or> p \<in> set (cx_paths c)"
  using set_update_subset_insert [of "cx_paths c" i "f (cx_paths c ! i)"] by (auto simp: update_path_def)

lemma ctx_ok_update_path:
  "ctx_ok c \<Longrightarrow> i < 8 \<Longrightarrow> path_ok (f (cx_paths c ! i)) \<Longrightarrow> ctx_ok (update_path i f c)"
  by (auto simp: ctx_ok_def dest: update_path_set)

lemma ctx_ok_snmp [simp]: "ctx_ok (c\<lparr>cx_snmp := sn\<rparr>) = ctx_ok c"
  by (simp add: ctx_ok_def)

lemma update_path_snmp: "update_path i f (c\<lparr>cx_snmp := sn\<rparr>) = (update_path i f c)\<lparr>cx_snmp := sn\<rparr>"
  by (simp add: update_path_def)

section \<open>Sending succeeds\<close>

lemma send_on_ok:
  assumes "rng_ok r" and "fits buf mtu" and "px_sock p = Some k" and "k \<in> set opened"
  obtains n e sn' where "encapsulate L key r (px_token p) buf mtu = Inr (n, e)" "wf_pbuf e"
    "20 \<le> n" "n \<le> 20 + max (uint (len buf)) mtu"
    "send_on L key r opened p mtu buf sn = Inr (e, sn', [UdpSend k (px_remote p) (take (nat n) (pbuf_bytes e))])"
    "sn' = sn\<lparr>out_packets := out_packets sn + 1, out_bytes := out_bytes sn + word_of_int n\<rparr>"
proof -
  obtain n e where e: "encapsulate L key r (px_token p) buf mtu = Inr (n, e)" "wf_pbuf e" "20 \<le> n"
    "n \<le> 20 + max (uint (len buf)) mtu"
    using encapsulate_sizes [OF assms(1,2)] by metis
  then show ?thesis
    using that [OF e] assms(3,4) by (simp add: send_on_def Let_def)
qed

section \<open>A round\<close>

text \<open>The path after its part of a round, with \<open>v\<close> the new tokens.\<close>

definition beaten :: "int list \<Rightarrow> path \<Rightarrow> path" where
  "beaten v p = p\<lparr>px_valid := v, px_alive := (if 0 < px_alive p then px_alive p - 1 else px_alive p)\<rparr>"

definition filled :: "lib \<Rightarrow> byte list \<Rightarrow> (nat \<Rightarrow> int \<times> int) \<Rightarrow> path \<Rightarrow> int list" where
  "filled L key clk p = (case fill_slots L key clk (px_range p) slots (px_valid p) of Inr v \<Rightarrow> v | Inl _ \<Rightarrow> px_valid p)"

lemma filled_eq:
  assumes "path_ok p"
  shows "fill_slots L key clk (px_range p) slots (px_valid p) = Inr (filled L key clk p)"
    and "length (filled L key clk p) = 40"
proof -
  obtain v' where "fill_slots L key clk (px_range p) slots (px_valid p) = Inr v'" "length v' = 40"
  proof -
    have "token_ranged (px_range p)" "length (px_valid p) = 40"
      using assms by (simp_all add: path_ok_def)
    then show ?thesis
      using that fill_slots_set [of "px_range p" "px_valid p" L key clk] by metis
  qed
  then show "fill_slots L key clk (px_range p) slots (px_valid p) = Inr (filled L key clk p)"
    and "length (filled L key clk p) = 40"
    by (simp_all add: filled_def)
qed

lemma path_ok_beaten: "path_ok p \<Longrightarrow> length v = 40 \<Longrightarrow> path_ok (beaten v p)"
  by (auto simp: path_ok_def beaten_def)

text \<open>Whether the heartbeat of a path sends a packet.\<close>

definition beats :: "ctx \<Rightarrow> path \<Rightarrow> bool" where
  "beats c p \<longleftrightarrow> (cx_mode c = MODE_CLIENT \<or> 0 < px_alive p) \<and> px_sock p \<noteq> None"

definition same_paths_else :: "nat \<Rightarrow> ctx \<Rightarrow> ctx \<Rightarrow> bool" where
  "same_paths_else i c c' \<longleftrightarrow> (\<forall>j. j \<noteq> i \<longrightarrow> cx_paths c' ! j = cx_paths c ! j)"

lemma fits_hb:
  "wf_pbuf b \<Longrightarrow> mtu \<le> 2048 \<Longrightarrow> fits (b\<lparr>len := 0, flag := 0\<rparr>) mtu"
  by (simp add: fits_def)

text \<open>The datagram of a heartbeat: a packet without data, encapsulated with the token of the path.\<close>

definition empty_datagram :: "lib \<Rightarrow> byte list \<Rightarrow> rng \<Rightarrow> int \<Rightarrow> path \<Rightarrow> byte list \<Rightarrow> bool" where
  "empty_datagram L key r mtu p w \<longleftrightarrow> (\<exists>b n e. fits b mtu \<and> len b = 0 \<and> flag b = 0
     \<and> encapsulate L key r (px_token p) b mtu = Inr (n, e) \<and> w = take (nat n) (pbuf_bytes e))"

lemma heartbeat_path_ok:
  assumes s: "vpn_ok s" "socks_ok s" and i: "i < nat (cx_path_count (vs_ctx s))" and r: "rng_ok (rs i)"
  shows "\<exists>sn b evs. heartbeat_path L key clk rs i s =
      Inr (s\<lparr>vs_ctx := (update_path i (beaten (filled L key (clk i) (cx_paths (vs_ctx s) ! i))) (vs_ctx s))\<lparr>cx_snmp := sn\<rparr>,
             vs_hb_buf := b\<rparr>, evs) \<and> wf_pbuf b
    \<and> (if beats (vs_ctx s) (cx_paths (vs_ctx s) ! i)
       then \<exists>w. evs = [UdpSend (the (px_sock (cx_paths (vs_ctx s) ! i))) (px_remote (cx_paths (vs_ctx s) ! i)) w]
         \<and> empty_datagram L key (rs i) (cx_mtu (vs_ctx s)) (cx_paths (vs_ctx s) ! i) w
       else evs = [])"
proof -
  let ?c = "vs_ctx s" and ?p = "cx_paths (vs_ctx s) ! i"
  let ?v = "filled L key (clk i) ?p"
  have c: "ctx_ok ?c" and b: "wf_pbuf (vs_hb_buf s)"
    using s(1) by (simp_all add: vpn_ok_def)
  have i8: "i < 8" "length (cx_paths ?c) = 8" "cx_mtu ?c \<le> 2048"
    using index_bound [OF c i] c by (simp_all add: ctx_ok_def)
  have p: "path_ok ?p"
    using path_ok_nth [OF c i8(1)] .
  have upd: "update_path i (\<lambda>p. p\<lparr>px_alive := px_alive p - 1\<rparr>) ((update_path i (\<lambda>p. p\<lparr>px_valid := ?v\<rparr>) ?c)\<lparr>cx_snmp := sn\<rparr>)
      = (update_path i (beaten ?v) ?c)\<lparr>cx_snmp := sn\<rparr>" if "0 < px_alive ?p" for sn
    using that i8 by (simp add: update_path_def beaten_def)
  have upd0: "update_path i (\<lambda>p. p\<lparr>px_valid := ?v\<rparr>) ?c = update_path i (beaten ?v) ?c" if "\<not> 0 < px_alive ?p"
    using that by (simp add: update_path_def beaten_def)
  note fill = filled_eq(1) [OF p, of L key "clk i"]
  show ?thesis
  proof (cases "beats ?c ?p")
    case True
    then obtain k where k: "px_sock ?p = Some k"
      by (auto simp: beats_def)
    then have "k \<in> set (vs_open s)"
      using s(2) i8 nth_mem [of i "cx_paths ?c"] by (auto simp: socks_ok_def)
    from send_on_ok [OF r fits_hb [OF b i8(3)] k this]
    obtain n e sn where e: "wf_pbuf e"
      "encapsulate L key (rs i) (px_token ?p) ((vs_hb_buf s)\<lparr>len := 0, flag := 0\<rparr>) (cx_mtu ?c) = Inr (n, e)"
      and send: "send_on L key (rs i) (vs_open s) ?p (cx_mtu ?c) ((vs_hb_buf s)\<lparr>len := 0, flag := 0\<rparr>) (cx_snmp ?c)
        = Inr (e, sn, [UdpSend k (px_remote ?p) (take (nat n) (pbuf_bytes e))])"
      by metis
    have "empty_datagram L key (rs i) (cx_mtu ?c) ?p (take (nat n) (pbuf_bytes e))"
      unfolding empty_datagram_def
      by (intro exI [of _ "(vs_hb_buf s)\<lparr>len := 0, flag := 0\<rparr>"] exI [of _ n] exI [of _ e])
        (simp add: e(2) fits_hb [OF b i8(3)])
    then show ?thesis
      using True e(1) k i8 upd [of sn] upd0
      by (intro exI [of _ sn] exI [of _ e] exI [of _ "[UdpSend k (px_remote ?p) (take (nat n) (pbuf_bytes e))]"])
        (auto simp: heartbeat_path_def Let_def fill send beats_def)
  next
    case False
    have id: "(update_path i f ?c)\<lparr>cx_snmp := cx_snmp ?c\<rparr> = update_path i f ?c" for f
      by (simp add: update_path_def)
    have hb: "s\<lparr>vs_ctx := x, vs_hb_buf := vs_hb_buf s\<rparr> = s\<lparr>vs_ctx := x\<rparr>" for x
      by simp
    have "heartbeat_path L key clk rs i s = Inr (s\<lparr>vs_ctx := update_path i (beaten ?v) ?c\<rparr>, [])"
      using False i8 upd [of "cx_snmp ?c"] upd0
      by (auto simp: heartbeat_path_def Let_def fill beats_def id update_path_snmp [symmetric])
    then show ?thesis
      using False b by (intro exI [of _ "cx_snmp ?c"] exI [of _ "vs_hb_buf s"] exI [of _ "[]"]) (simp add: id)
  qed
qed

text \<open>A whole round: every path is beaten once, nothing else changes but counters and the buffer.\<close>

definition beaten_paths :: "lib \<Rightarrow> byte list \<Rightarrow> (nat \<Rightarrow> nat \<Rightarrow> int \<times> int) \<Rightarrow> nat \<Rightarrow> path list \<Rightarrow> path list" where
  "beaten_paths L key clk n ps =
     map (\<lambda>i. if i < n then beaten (filled L key (clk i) (ps ! i)) (ps ! i) else ps ! i) [0..<length ps]"

lemma beaten_paths_Suc:
  assumes "n < length (cx_paths c)" and "cx_paths d = beaten_paths L key clk n (cx_paths c)"
  shows "cx_paths (update_path n (beaten (filled L key (clk n) (cx_paths d ! n))) d) = beaten_paths L key clk (Suc n) (cx_paths c)"
  using assms by (auto simp: update_path_def beaten_paths_def intro!: nth_equalityI simp: nth_list_update less_Suc_eq)

lemma steps_snoc:
  "steps (fs @ [f]) s = bind_res (steps fs s) (\<lambda>(s1, evs). bind_res (f s1) (\<lambda>(s2, evs'). Inr (s2, evs @ evs')))"
proof (induction fs arbitrary: s)
  case Nil
  then show ?case by (auto simp: bind_res_def split: sum.splits)
next
  case (Cons g fs)
  then show ?case by (auto simp: bind_res_def split: sum.splits)
qed

lemma ctx_ok_beaten:
  assumes "ctx_ok c"
  shows "ctx_ok (c\<lparr>cx_paths := beaten_paths L key clk n (cx_paths c)\<rparr>)"
proof -
  have "path_ok (if i < n then beaten (filled L key (clk i) (cx_paths c ! i)) (cx_paths c ! i) else cx_paths c ! i)"
    if "i < length (cx_paths c)" for i
    using that assms path_ok_nth [OF assms, of i] filled_eq(2) path_ok_beaten by (simp add: ctx_ok_def)
  then have "\<forall>p \<in> set (beaten_paths L key clk n (cx_paths c)). path_ok p"
    unfolding beaten_paths_def set_map by fastforce
  then show ?thesis
    using assms by (simp add: ctx_ok_def) (simp add: beaten_paths_def)
qed

definition round_state :: "vpn \<Rightarrow> path list \<Rightarrow> snmp \<Rightarrow> pbuf \<Rightarrow> vpn" where
  "round_state s ps sn b = s\<lparr>vs_ctx := (vs_ctx s)\<lparr>cx_paths := ps, cx_snmp := sn\<rparr>, vs_hb_buf := b\<rparr>"

lemma vpn_ok_round:
  assumes s: "vpn_ok s" "socks_ok s" and b: "wf_pbuf b"
  shows "vpn_ok (round_state s (beaten_paths L key clk n (cx_paths (vs_ctx s))) sn b)"
    and "socks_ok (round_state s (beaten_paths L key clk n (cx_paths (vs_ctx s))) sn b)"
proof -
  let ?s = "round_state s (beaten_paths L key clk n (cx_paths (vs_ctx s))) sn b"
  have c: "ctx_ok (vs_ctx s)" and l: "length (cx_paths (vs_ctx s)) = 8"
    using s(1) by (simp_all add: vpn_ok_def ctx_ok_def)
  have nth: "px_range (cx_paths (vs_ctx ?s) ! i) = px_range (cx_paths (vs_ctx s) ! i)" if "i < 8" for i
    using that l by (simp add: round_state_def beaten_paths_def beaten_def)
  have "worker_ok ?s w" if "worker_ok s w" for w
  proof -
    have "wk_path w < 8"
      by (rule worker_path_bound [OF that c])
    then show ?thesis
      using that nth [of "wk_path w"] by (simp add: worker_ok_def) (simp add: round_state_def)
  qed
  moreover have "ctx_ok (vs_ctx ?s)"
    using ctx_ok_beaten [OF c, of L key clk n] by (simp add: round_state_def ctx_ok_def)
  ultimately show "vpn_ok ?s"
    using s b by (simp add: vpn_ok_def) (simp add: round_state_def)
  have "px_sock p \<in> px_sock ` set (cx_paths (vs_ctx s))"
    if "p \<in> set (beaten_paths L key clk n (cx_paths (vs_ctx s)))" for p
    using that l by (auto simp: beaten_paths_def beaten_def split: if_splits)
  then show "socks_ok ?s"
    using s(2) unfolding socks_ok_def round_state_def by fastforce
qed

definition sends_on_path :: "lib \<Rightarrow> byte list \<Rightarrow> rng \<Rightarrow> int \<Rightarrow> path \<Rightarrow> effect list \<Rightarrow> bool" where
  "sends_on_path L key r mtu p evs \<longleftrightarrow>
     (\<exists>w. empty_datagram L key r mtu p w \<and> UdpSend (the (px_sock p)) (px_remote p) w \<in> set evs)"

lemma heartbeat_prefix:
  assumes s: "vpn_ok s" "socks_ok s" and n: "n \<le> nat (cx_path_count (vs_ctx s))"
    and r: "\<And>i. rng_ok (rs i)"
  shows "\<exists>sn b evs. steps (map (heartbeat_path L key clk rs) [0..<n]) s
      = Inr (round_state s (beaten_paths L key clk n (cx_paths (vs_ctx s))) sn b, evs) \<and> wf_pbuf b
    \<and> length evs = length (filter (\<lambda>i. beats (vs_ctx s) (cx_paths (vs_ctx s) ! i)) [0..<n])
    \<and> (\<forall>i < n. beats (vs_ctx s) (cx_paths (vs_ctx s) ! i) \<longrightarrow> sends_on_path L key (rs i) (cx_mtu (vs_ctx s)) (cx_paths (vs_ctx s) ! i) evs)"
  using n
proof (induction n)
  case 0
  have "beaten_paths L key clk 0 (cx_paths (vs_ctx s)) = cx_paths (vs_ctx s)"
    by (simp add: beaten_paths_def map_nth)
  then show ?case
    using s(1) by (intro exI [of _ "cx_snmp (vs_ctx s)"] exI [of _ "vs_hb_buf s"] exI [of _ "[]"])
      (simp add: round_state_def vpn_ok_def)
next
  case (Suc n)
  let ?c = "vs_ctx s"
  obtain sn b evs where IH: "steps (map (heartbeat_path L key clk rs) [0..<n]) s
      = Inr (round_state s (beaten_paths L key clk n (cx_paths ?c)) sn b, evs)" "wf_pbuf b"
    "length evs = length (filter (\<lambda>i. beats ?c (cx_paths ?c ! i)) [0..<n])"
    "\<forall>i < n. beats ?c (cx_paths ?c ! i) \<longrightarrow> sends_on_path L key (rs i) (cx_mtu ?c) (cx_paths ?c ! i) evs"
    using Suc by auto
  define s1 where "s1 = round_state s (beaten_paths L key clk n (cx_paths ?c)) sn b"
  have ok1: "vpn_ok s1" "socks_ok s1"
    unfolding s1_def by (rule vpn_ok_round [OF s IH(2)])+
  have l: "n < length (cx_paths ?c)"
    using Suc.prems s(1) by (auto simp: vpn_ok_def ctx_ok_def)
  have same: "cx_paths (vs_ctx s1) ! n = cx_paths ?c ! n"
    using l by (simp add: s1_def round_state_def beaten_paths_def)
  have beats: "beats (vs_ctx s1) p = beats ?c p" and mtu: "cx_mtu (vs_ctx s1) = cx_mtu ?c" for p
    by (simp_all add: beats_def s1_def round_state_def)
  obtain sn' b' evs' where st: "heartbeat_path L key clk rs n s1 =
      Inr (s1\<lparr>vs_ctx := (update_path n (beaten (filled L key (clk n) (cx_paths ?c ! n))) (vs_ctx s1))\<lparr>cx_snmp := sn'\<rparr>,
             vs_hb_buf := b'\<rparr>, evs')" "wf_pbuf b'"
    and evs': "if beats ?c (cx_paths ?c ! n)
       then \<exists>w. evs' = [UdpSend (the (px_sock (cx_paths ?c ! n))) (px_remote (cx_paths ?c ! n)) w]
         \<and> empty_datagram L key (rs n) (cx_mtu ?c) (cx_paths ?c ! n) w
       else evs' = []"
    using heartbeat_path_ok [where s=s1 and i=n and rs=rs and L=L and key=key and clk=clk, OF ok1 _ r] Suc.prems
    unfolding same beats mtu by (auto simp: s1_def round_state_def)
  have "cx_paths (update_path n (beaten (filled L key (clk n) (cx_paths ?c ! n))) (vs_ctx s1))
      = beaten_paths L key clk (Suc n) (cx_paths ?c)"
    using beaten_paths_Suc [OF l, of "vs_ctx s1" L key clk] same by (simp add: s1_def round_state_def)
  then have "s1\<lparr>vs_ctx := (update_path n (beaten (filled L key (clk n) (cx_paths ?c ! n))) (vs_ctx s1))\<lparr>cx_snmp := sn'\<rparr>,
      vs_hb_buf := b'\<rparr> = round_state s (beaten_paths L key clk (Suc n) (cx_paths ?c)) sn' b'"
    by (simp add: s1_def round_state_def update_path_def)
  then have run: "steps (map (heartbeat_path L key clk rs) [0..<Suc n]) s
      = Inr (round_state s (beaten_paths L key clk (Suc n) (cx_paths ?c)) sn' b', evs @ evs')"
    using st(1) by (simp add: steps_snoc IH(1) s1_def [symmetric])
  have "sends_on_path L key (rs i) (cx_mtu ?c) (cx_paths ?c ! i) (evs @ evs')" if "i < Suc n" "beats ?c (cx_paths ?c ! i)" for i
  proof (cases "i = n")
    case True
    then show ?thesis
      using that(2) evs' by (auto simp: sends_on_path_def)
  next
    case False
    then have "sends_on_path L key (rs i) (cx_mtu ?c) (cx_paths ?c ! i) evs"
      using that IH(4) by simp
    then show ?thesis
      unfolding sends_on_path_def by auto
  qed
  moreover have "length (evs @ evs') = length (filter (\<lambda>i. beats ?c (cx_paths ?c ! i)) [0..<Suc n])"
    using IH(3) evs' by (auto split: if_splits)
  ultimately show ?case
    using run st(2) by blast
qed

lemma heartbeat_ok:
  assumes "vpn_ok s" "socks_ok s" and "\<And>i. rng_ok (rs i)"
  obtains sn b evs s' where "heartbeat L key clk rs s = Inr (s', evs)" "vpn_ok s'" "socks_ok s'"
    "s' = round_state s (beaten_paths L key clk (nat (cx_path_count (vs_ctx s))) (cx_paths (vs_ctx s))) sn b"
    "length evs = length (filter (\<lambda>i. beats (vs_ctx s) (cx_paths (vs_ctx s) ! i)) [0..<nat (cx_path_count (vs_ctx s))])"
    "\<forall>i < nat (cx_path_count (vs_ctx s)). beats (vs_ctx s) (cx_paths (vs_ctx s) ! i) \<longrightarrow>
      sends_on_path L key (rs i) (cx_mtu (vs_ctx s)) (cx_paths (vs_ctx s) ! i) evs"
proof -
  let ?n = "nat (cx_path_count (vs_ctx s))"
  obtain sn b evs where run: "steps (map (heartbeat_path L key clk rs) [0..<?n]) s
      = Inr (round_state s (beaten_paths L key clk ?n (cx_paths (vs_ctx s))) sn b, evs)" and b: "wf_pbuf b"
    and evs: "length evs = length (filter (\<lambda>i. beats (vs_ctx s) (cx_paths (vs_ctx s) ! i)) [0..<?n])"
    "\<forall>i < ?n. beats (vs_ctx s) (cx_paths (vs_ctx s) ! i) \<longrightarrow> sends_on_path L key (rs i) (cx_mtu (vs_ctx s)) (cx_paths (vs_ctx s) ! i) evs"
    using heartbeat_prefix [where rs=rs and L=L and key=key and clk=clk, OF assms(1,2) order.refl assms(3)] by blast
  show ?thesis
    by (rule that [OF _ vpn_ok_round [OF assms(1,2) b] refl evs]) (simp add: heartbeat_def run)
qed

lemma round_path:
  assumes "ctx_ok (vs_ctx s)" and "i < nat (cx_path_count (vs_ctx s))"
  shows "cx_paths (vs_ctx (round_state s (beaten_paths L key clk (nat (cx_path_count (vs_ctx s))) (cx_paths (vs_ctx s))) sn b)) ! i
    = beaten (filled L key (clk i) (cx_paths (vs_ctx s) ! i)) (cx_paths (vs_ctx s) ! i)"
  using assms index_bound [OF assms] by (simp add: round_state_def beaten_paths_def ctx_ok_def)

section \<open>Properties\<close>

text \<open>
  C14. The window of accepted tokens. After a heartbeat round whose clock readings for a path
  all fall in the half second number \<open>T\<close>, the stored tokens of that path are exactly those of
  the 39 half seconds from \<open>T - 19\<close> to \<open>T + 19\<close> and, in slot 1, the value that was there before:
  no round ever writes that slot, so it keeps the 0 of the initialisation and offset 0 of the
  port range is accepted for ever.
\<close>

theorem heartbeat_token_window:
  assumes "vpn_ok s" "socks_ok s" "\<And>i. rng_ok (rs i)"
    and i: "i < nat (cx_path_count (vs_ctx s))" and clk: "\<And>j. j < 40 \<Longrightarrow> step_of (clk i j) 0 = T"
  shows "\<exists>s' evs. heartbeat L key clk rs s = Inr (s', evs) \<and> vpn_ok s'
    \<and> set (px_valid (cx_paths (vs_ctx s') ! i)) =
        insert (px_valid (cx_paths (vs_ctx s) ! i) ! 1)
          ((\<lambda>x. token_of L key (px_range (cx_paths (vs_ctx s) ! i)) (T + word_of_int x)) ` {-19..19})
    \<and> px_valid (cx_paths (vs_ctx s') ! i) ! 1 = px_valid (cx_paths (vs_ctx s) ! i) ! 1"
proof -
  let ?p = "cx_paths (vs_ctx s) ! i"
  obtain sn b evs s' where s': "heartbeat L key clk rs s = Inr (s', evs)" "vpn_ok s'"
    "s' = round_state s (beaten_paths L key clk (nat (cx_path_count (vs_ctx s))) (cx_paths (vs_ctx s))) sn b"
    by (rule heartbeat_ok [where rs=rs and L=L and key=key and clk=clk, OF assms(1-3)])
  have c: "ctx_ok (vs_ctx s)"
    using assms(1) by (simp add: vpn_ok_def)
  have p: "path_ok ?p"
    by (rule path_ok_nth [OF c index_bound [OF c i]])
  then have pr: "token_ranged (px_range ?p)" "length (px_valid ?p) = 40"
    by (simp_all add: path_ok_def)
  obtain v where v: "fill_slots L key (clk i) (px_range ?p) slots (px_valid ?p) = Inr v" "length v = 40" "v ! 1 = px_valid ?p ! 1"
    "\<forall>x. -19 \<le> x \<and> x \<le> 19 \<longrightarrow> (\<exists>j < 40. token_of L key (px_range ?p) (step_of (clk i j) x) \<in> set v)"
    "\<forall>t \<in> set v. t = px_valid ?p ! 1 \<or>
       (\<exists>j < 40. \<exists>x. -19 \<le> x \<and> x \<le> 19 \<and> t = token_of L key (px_range ?p) (step_of (clk i j) x))"
    by (rule fill_slots_set [where L=L and key=key and clk="clk i", OF pr])
  have step: "step_of (clk i j) x = T + word_of_int x" if "j < 40" for j x
    using clk [OF that] time_step_offset [of "fst (clk i j)" "snd (clk i j)" x] by (simp add: step_of_def)
  have valid: "px_valid (cx_paths (vs_ctx s') ! i) = v"
    using round_path [OF c i] v(1) by (simp add: s'(3) beaten_def filled_def)
  have "set v = insert (px_valid ?p ! 1) ((\<lambda>x. token_of L key (px_range ?p) (T + word_of_int x)) ` {-19..19})"
    (is "_ = ?R")
  proof
    show "set v \<subseteq> ?R"
    proof
      fix t assume "t \<in> set v"
      then show "t \<in> ?R"
        using v(5) step by force
    qed
    have "px_valid ?p ! 1 \<in> set v"
      using v(2,3) by (metis nth_mem numeral_One numeral_less_iff semiring_norm(76,78))
    moreover have "token_of L key (px_range ?p) (T + word_of_int x) \<in> set v" if "x \<in> {-19..19}" for x
      using v(4) step [of _ x] that by auto
    ultimately show "?R \<subseteq> set v"
      by auto
  qed
  then show ?thesis
    using s' v(3) valid by (intro exI [of _ s'] exI [of _ evs]) simp
qed

lemma demo_vpn_ok: "vpn_ok demo_vpn" "socks_ok demo_vpn"
  by (simp_all add: vpn_ok_def ctx_ok_def path_ok_def socks_ok_def demo_vpn_def demo_ctx_def zero_ctx_def
      zero_path_ctx_def token_ranged_def packet_of_fields POOL_def MODE_CLIENT_def)

theorem heartbeat_token_window_witness:
  "\<exists>s' evs. heartbeat demo_lib [1, 2] (\<lambda>_ _. (1500000000, 250000)) (\<lambda>_. demo_rng) demo_vpn = Inr (s', evs)
    \<and> set (px_valid (cx_paths (vs_ctx s') ! 1)) =
        insert 0 ((\<lambda>x. token_of demo_lib [1, 2] 94 (step_of (1500000000, 250000) 0 + word_of_int x)) ` {-19..19})"
proof -
  have "1 < nat (cx_path_count (vs_ctx demo_vpn))" "px_range (cx_paths (vs_ctx demo_vpn) ! 1) = 94"
    "px_valid (cx_paths (vs_ctx demo_vpn) ! 1) ! 1 = 0"
    by (simp_all add: demo_vpn_def demo_ctx_def zero_path_ctx_def POOL_def)
  then show ?thesis
    using heartbeat_token_window [OF demo_vpn_ok, of "\<lambda>_. demo_rng" 1 "\<lambda>_ _. (1500000000, 250000)"
        "step_of (1500000000, 250000) 0" demo_lib "[1, 2]"] demo_rng_ok by auto
qed

text \<open>The pause between two rounds lies between a third and two thirds of a second.\<close>

lemma heartbeat_pause_bounds: "rng_ok r \<Longrightarrow> 333 \<le> heartbeat_pause r \<and> heartbeat_pause r \<le> 665"
  using rng_okD [of r 333] by (simp add: heartbeat_pause_def TOTP_STEP_def)

lemma pauses_bound: "(\<And>r. r \<in> set rs \<Longrightarrow> rng_ok r) \<Longrightarrow> sum_list (map heartbeat_pause rs) \<le> 665 * length rs"
proof (induction rs)
  case (Cons r rs)
  have "heartbeat_pause r \<le> 665" "sum_list (map heartbeat_pause rs) \<le> 665 * length rs"
    using heartbeat_pause_bounds Cons by simp_all
  then show ?case by simp
qed simp

end
