(* ===== verification/Process.thy ===== *)
theory Process
  imports Vpn
begin

text \<open>
  The life of the process: \<^verbatim>\<open>vpn_init\<close> and \<^verbatim>\<open>vpn_run\<close> of src/vpn.c and src/main.c. What the
  system supplies is a record; the state that starting touches is the context, the static key,
  the commands run so far, the credentials, the log and the descriptors closed so far.
\<close>

section \<open>Setting up\<close>

record sysenv =
  se_target :: target
  se_sys :: sys
  se_resolve :: "string \<Rightarrow> u32 option"
  se_sodium :: int
  se_open :: int
  se_ioctl :: "char list \<Rightarrow> int"
  se_connect :: "32 word \<Rightarrow> int"
  se_getpwnam :: "string \<Rightarrow> (nat \<times> nat) option"
  se_may_setegid :: "creds \<Rightarrow> nat \<Rightarrow> bool"
  se_may_seteuid :: "creds \<Rightarrow> nat \<Rightarrow> bool"

record boot_state =
  su_ctx :: ctx
  su_key :: "byte list"
  su_trace :: "string list"
  su_creds :: creds
  su_log :: "string list"
  su_closed :: "int list"

text \<open>
  The tun device of the target: \<open>se_open\<close> is the descriptor that \<^verbatim>\<open>open\<close> or \<^verbatim>\<open>socket\<close> returns,
  \<open>se_ioctl\<close> the result of \<^verbatim>\<open>ioctl\<close> for the name in the request (none on Darwin).
\<close>

definition tun_new :: "sysenv \<Rightarrow> string \<Rightarrow> int \<times> int list" where
  "tun_new E dev = (case se_target E of
     Linux \<Rightarrow> tun_new_linux (se_open E) (se_ioctl E) dev
   | Darwin \<Rightarrow> tun_new_darwin (se_open E) (se_ioctl E []) (se_connect E) dev)"

abbreviation tun_of :: "sysenv \<Rightarrow> conf \<Rightarrow> int" where
  "tun_of E c \<equiv> fst (tun_new E (cstr (cf_tunif c)))"

text \<open>The copy of one server and the difference of its ports, which is computed in \<^verbatim>\<open>int\<close>.\<close>

definition init_path :: "path_conf \<Rightarrow> path \<Rightarrow> path res" where
  "init_path pc p =
     (let rg = snd (port pc) - fst (port pc) in
      if \<not> is_int32 rg then Inl IntOverflow
      else Inr (p\<lparr>px_server := write_at 0 (cstr (server pc) @ [NUL]) (px_server p),
             px_start := fst (port pc), px_range := rg\<rparr>))"

fun init_paths :: "path_conf list \<Rightarrow> path list \<Rightarrow> path list res" where
  "init_paths [] ps = Inr ps"
| "init_paths (pc # pcs) [] = Inl OutOfBounds"
| "init_paths (pc # pcs) (p # ps) =
     bind_res (init_path pc p) (\<lambda>p'. bind_res (init_paths pcs ps) (\<lambda>ps'. Inr (p' # ps')))"

definition init_ctx :: "conf \<Rightarrow> ctx res" where
  "init_ctx c =
     bind_res (init_paths (take (nat (cf_path_count c)) (cf_paths c)) (cx_paths zero_ctx)) (\<lambda>ps.
       Inr (zero_ctx\<lparr>cx_mode := cf_mode c, cx_mtu := cf_mtu c, cx_path_count := cf_path_count c,
              cx_paths := ps\<rparr>))"

text \<open>A command script run on the state of the process while it starts; its value is returned.\<close>

definition run_script :: "script \<Rightarrow> boot_state \<Rightarrow> (int \<times> boot_state) res" where
  "run_script f su = bind_res (f (su_trace su)) (\<lambda>(r, tr). Inr (r, su\<lparr>su_trace := tr\<rparr>))"

definition log_if :: "bool \<Rightarrow> string \<Rightarrow> boot_state \<Rightarrow> boot_state" where
  "log_if b m su = (if b then su\<lparr>su_log := su_log su @ [m]\<rparr> else su)"

text \<open>\<open>None\<close> is a loop of \<^verbatim>\<open>route\<close> that does not end.\<close>

definition bind_opt :: "'a res option \<Rightarrow> ('a \<Rightarrow> 'b res option) \<Rightarrow> 'b res option" where
  "bind_opt m f = (case m of None \<Rightarrow> None | Some (Inl e) \<Rightarrow> Some (Inl e) | Some (Inr x) \<Rightarrow> f x)"

fun init_routes :: "sysenv \<Rightarrow> conf \<Rightarrow> path list \<Rightarrow> boot_state \<Rightarrow> boot_state res option" where
  "init_routes E c [] su = Some (Inr su)"
| "init_routes E c (p # ps) su =
     bind_opt (route (se_target E) (se_sys E) (se_resolve E) (cstr (cf_tunif c)) (cstr (px_server p))
         (cstr (cf_address c) \<noteq> []) (cstr (cf_address6 c) \<noteq> []) (su_trace su))
       (\<lambda>(r, tr). init_routes E c ps (log_if (r \<noteq> 0) ''failed to setup route'' (su\<lparr>su_trace := tr\<rparr>)))"

definition drop_privileges :: "sysenv \<Rightarrow> string \<Rightarrow> boot_state \<Rightarrow> boot_state" where
  "drop_privileges E user su =
     (let (r, cr) = runas (se_getpwnam E) (se_may_setegid E) (se_may_seteuid E) user (su_creds su)
      in log_if (r \<noteq> 0) ''runas'' (su\<lparr>su_creds := cr\<rparr>))"

text \<open>Two lines of the log.\<close>

definition starting_line :: "int \<Rightarrow> string" where
  "starting_line mode = ''starting muon '' @ (if mode = MODE_SERVER then ''server'' else ''client'')"

definition using_line :: "string \<Rightarrow> string" where
  "using_line tunif = ''using tun device: '' @ tunif"

text \<open>
  \<^verbatim>\<open>vpn_init\<close>: the returned value and the state. An address \<open>[]\<close> is the test
  \<^verbatim>\<open>address[0] == '\0'\<close>.
\<close>

definition vpn_init :: "sysenv \<Rightarrow> lib \<Rightarrow> conf \<Rightarrow> boot_state \<Rightarrow> (int \<times> boot_state) res option" where
  "vpn_init E L c su =
     bind_opt (Some (init_ctx c)) (\<lambda>ctx0.
       let su0 = su\<lparr>su_ctx := ctx0\<rparr>;
           hello = log_if True (starting_line (cx_mode ctx0)) su0;
           (kr, key) = crypto_init L (se_sodium E) (cf_key c) (su_key hello)
       in if kr \<noteq> 0 then Some (Inr (-1, hello))
          else
            let (tun, closed) = tun_new E (cstr (cf_tunif c));
                su1 = hello\<lparr>su_key := key, su_ctx := ctx0\<lparr>cx_tun := tun\<rparr>, su_closed := su_closed hello @ closed\<rparr>
            in if tun < 0 then Some (Inr (-1, log_if True ''failed to init tun device'' su1))
               else
                 bind_opt (Some (run_script (ifconfig (se_target E) (se_sys E) (cstr (cf_tunif c)) (cx_mtu ctx0)
                     (cstr (cf_address c)) (cstr (cf_peer c)) (cstr (cf_address6 c)))
                     (log_if True (using_line (cstr (cf_tunif c))) su1)))
                   (\<lambda>(r, su2).
                     let su3 = log_if (r \<noteq> 0) ''failed to add address on tun device'' su2 in
                     if cx_mode ctx0 \<noteq> MODE_CLIENT \<and> se_target E = Darwin
                     then Some (Inr (-1, log_if True ''server mode is not supported on Mac OS X'' su3))
                     else bind_opt
                       (if cx_mode ctx0 = MODE_CLIENT
                        then if cf_route c \<noteq> 0
                             then init_routes E c (take (nat (cx_path_count ctx0)) (cx_paths ctx0)) su3
                             else Some (Inr su3)
                        else if cf_nat c \<noteq> 0 \<and> cstr (cf_address c) \<noteq> []
                             then Some (bind_res (run_script (nat_rules (se_sys E) (cstr (cf_address c)) True) su3)
                               (\<lambda>(r, su). Inr (log_if (r \<noteq> 0) ''failed to turn on NAT'' su)))
                             else Some (Inr su3))
                       (\<lambda>su4. Some (Inr (0,
                          if cstr (cf_user c) \<noteq> [] then drop_privileges E (cstr (cf_user c)) su4 else su4)))))"

section \<open>Running\<close>

text \<open>
  The coroutines \<^verbatim>\<open>vpn_run\<close> starts, each up to its first wait: the workers of all ports or the
  first hop, the tun device (nothing to do), the first heartbeat and the first line of counters.
\<close>

definition server_workers :: "netenv \<Rightarrow> ctx \<Rightarrow> (vpn \<Rightarrow> (vpn \<times> effect list) res) list" where
  "server_workers N c =
     concat (map (\<lambda>i. map (\<lambda>j. worker_start N i (int j) (-1)) [0..<nat (px_range (cx_paths c ! i) + 1)])
       [0..<nat (cx_path_count c)])"

definition boot :: "ctx \<Rightarrow> pbuf \<Rightarrow> pbuf \<Rightarrow> u64 \<Rightarrow> vpn" where
  "boot c tun_buf hb_buf now = \<lparr>vs_ctx = c, vs_workers = [], vs_open = [], vs_next = 0, vs_turn = 0,
     vs_tun_alive = True, vs_tun_buf = tun_buf, vs_hb_buf = hb_buf, vs_last = zero_snmp, vs_start = now\<rparr>"

definition run_start :: "lib \<Rightarrow> byte list \<Rightarrow> netenv \<Rightarrow> (nat \<Rightarrow> int \<times> int) \<Rightarrow> (nat \<Rightarrow> nat \<Rightarrow> int \<times> int)
    \<Rightarrow> (nat \<Rightarrow> rng) \<Rightarrow> u64 \<Rightarrow> vpn \<Rightarrow> (vpn \<times> effect list) res" where
  "run_start L key N clk1 clk2 rs now s =
     bind_res (if cx_mode (vs_ctx s) = MODE_CLIENT then client_hop L key N clk1 s
               else steps (server_workers N (vs_ctx s)) s) (\<lambda>(s1, evs1).
     bind_res (heartbeat L key clk2 rs s1) (\<lambda>(s2, evs2).
     bind_res (snmp_round now s2) (\<lambda>s3.
       Inr (s3\<lparr>vs_ctx := (vs_ctx s3)\<lparr>cx_running := 1\<rparr>\<rparr>, evs1 @ evs2))))"

text \<open>
  The loop of \<^verbatim>\<open>vpn_run\<close>, where \<open>view n\<close> is the state that its test of \<open>cx_running\<close> sees after
  \<open>n\<close> waits: the number of waits, or \<open>None\<close> when it never ends.
\<close>

partial_function (option) main_loop :: "(nat \<Rightarrow> vpn) \<Rightarrow> nat \<Rightarrow> nat option" where
  "main_loop view n = (if cx_running (vs_ctx (view n)) = 0 then Some n else main_loop view (n + 1))"

text \<open>What \<^verbatim>\<open>vpn_run\<close> does when its loop sees \<open>cx_running = 0\<close>, and the value it returns.\<close>

definition run_end :: "sysenv \<Rightarrow> conf \<Rightarrow> boot_state \<Rightarrow> (int \<times> boot_state) res" where
  "run_end E c su =
     bind_res
       (if se_target E = Linux \<and> cx_mode (su_ctx su) = MODE_SERVER \<and> cf_nat c \<noteq> 0
        then let su1 = (if cstr (cf_user c) \<noteq> [] then drop_privileges E ''root'' su else su)
             in bind_res (run_script (nat_rules (se_sys E) (cstr (cf_address c)) False) su1)
               (\<lambda>(r, su2). Inr (log_if (r \<noteq> 0) ''failed to turn off NAT'' su2))
        else Inr su)
       (\<lambda>su'. Inr (if cx_running (su_ctx su') = 0 then 0 else 1,
          log_if True ''exit'' (log_if True ''close tun device''
            (su'\<lparr>su_closed := tun_close (cx_tun (su_ctx su')) (su_closed su')\<rparr>))))"

section \<open>\<open>main\<close>\<close>

datatype signal = SIGUSR1 | SIGINT | SIGTERM | SIGHUP

text \<open>\<^verbatim>\<open>signal_cb\<close>: the new state and the lines printed.\<close>

definition signal_cb :: "signal \<Rightarrow> vpn \<Rightarrow> vpn \<times> string list" where
  "signal_cb sg s = (if sg = SIGUSR1 then (s, vpn_snmp s) else (vpn_stop s, []))"

text \<open>How the start ends: the process exits with a status, or \<^verbatim>\<open>vpn_run\<close> is entered.\<close>

datatype startup = Exit int | Serve conf boot_state

definition main :: "sysenv \<Rightarrow> lib \<Rightarrow> (string \<Rightarrow> string option) \<Rightarrow> daemon_env \<Rightarrow> string list \<Rightarrow> boot_state
    \<Rightarrow> startup res option" where
  "main E L fs D args su =
     (case parse_args (se_target E) fs args of
        Inl (Fault e) \<Rightarrow> Some (Inl e)
      | Inl _ \<Rightarrow> Some (Inr (Exit 1))
      | Inr c \<Rightarrow>
          let go = bind_opt (vpn_init E L c su) (\<lambda>(r, su').
                Some (Inr (if r \<noteq> 0 then Exit 1 else Serve c su')))
          in if cf_daemon c = 0 then go
             else case daemonize D of
                Exited status pidfile \<Rightarrow> Some (Inr (Exit status))
              | Returned r \<Rightarrow> if r \<noteq> 0 then Some (Inr (Exit 1)) else go)"

end
