(* ===== verification/Invariant.thy ===== *)
theory Invariant
  imports Heartbeat Process
begin

text \<open>
  The process as a transition system: its steps, the states it can reach, and what holds in all
  of them.
\<close>

section \<open>Every segment keeps the invariant\<close>

text \<open>What a segment may change without touching what workers rely on.\<close>

definition grows :: "vpn \<Rightarrow> vpn \<Rightarrow> bool" where
  "grows s s' \<longleftrightarrow> cx_path_count (vs_ctx s') = cx_path_count (vs_ctx s)
     \<and> (\<forall>i < 8. px_range (cx_paths (vs_ctx s') ! i) = px_range (cx_paths (vs_ctx s) ! i))
     \<and> set (vs_open s) \<subseteq> set (vs_open s')"

lemma worker_ok_grows:
  assumes "grows s s'" and "ctx_ok (vs_ctx s)" and "worker_ok s w"
  shows "worker_ok s' w"
proof -
  have "wk_path w < 8"
    by (rule worker_path_bound [OF assms(3,2)])
  then show ?thesis
    using assms(1,3) by (auto simp: worker_ok_def grows_def)
qed

lemma nth_update_path_range:
  "px_range (f (cx_paths c ! i)) = px_range (cx_paths c ! i) \<Longrightarrow>
     px_range (cx_paths (update_path i f c) ! j) = px_range (cx_paths c ! j)"
  by (cases "i < length (cx_paths c)") (auto simp: update_path_def nth_list_update list_update_beyond)

subsection \<open>The tun device and the sender\<close>

lemma send_on_cases:
  assumes "send_on L key r opened p mtu buf sn = Inr (e, sn', evs)" and "rng_ok r" and "fits buf mtu"
  shows "wf_pbuf e"
proof -
  obtain n e' where "encapsulate L key r (px_token p) buf mtu = Inr (n, e')" "wf_pbuf e'"
    using encapsulate_sizes [OF assms(2,3)] by metis
  then show ?thesis
    using assms(1) by (auto simp: send_on_def Let_def split: option.splits if_splits)
qed

lemma vpn_ok_sent:
  assumes "vpn_ok s" and "q < nat (cx_path_count (vs_ctx s))" and "wf_pbuf e"
  shows "vpn_ok (s\<lparr>vs_turn := q, vs_ctx := (vs_ctx s)\<lparr>cx_snmp := sn\<rparr>, vs_tun_buf := e\<rparr>)"
  using assms by (simp add: vpn_ok_def worker_ok_def)

lemma udp_sender_ok:
  assumes s: "vpn_ok s" and r: "rng_ok r" and fit: "fits (vs_tun_buf s) (cx_mtu (vs_ctx s))"
    and run: "udp_sender L key r s = Some (Inr (s', evs))"
  obtains q sn e where "s' = s\<lparr>vs_turn := q, vs_ctx := (vs_ctx s)\<lparr>cx_snmp := sn\<rparr>, vs_tun_buf := e\<rparr>"
    "q < nat (cx_path_count (vs_ctx s))" "wf_pbuf e"
proof -
  let ?c = "vs_ctx s"
  have "0 < cx_path_count ?c" "vs_turn s < nat (cx_path_count ?c)"
    using s by (auto simp: vpn_ok_def ctx_ok_def)
  from udp_sender_cases [OF this, of L key r] obtain q where q: "q < nat (cx_path_count ?c)"
    "udp_sender L key r s =
         (if px_sock (cx_paths ?c ! q) = None then Some (Inl AssertFailed)
          else if \<not> alive_in ?c q then Some (Inr (s\<lparr>vs_turn := q\<rparr>, []))
          else Some (bind_res (send_on L key r (vs_open s) (cx_paths ?c ! q) (cx_mtu ?c) (vs_tun_buf s) (cx_snmp ?c))
            (\<lambda>(e, sn, evs). Inr (s\<lparr>vs_turn := q, vs_ctx := ?c\<lparr>cx_snmp := sn\<rparr>, vs_tun_buf := e\<rparr>, evs))))"
    by (auto simp: Let_def)
  show ?thesis
  proof (cases "alive_in ?c q")
    case True
    then have "bind_res (send_on L key r (vs_open s) (cx_paths ?c ! q) (cx_mtu ?c) (vs_tun_buf s) (cx_snmp ?c))
            (\<lambda>(e, sn, evs). Inr (s\<lparr>vs_turn := q, vs_ctx := ?c\<lparr>cx_snmp := sn\<rparr>, vs_tun_buf := e\<rparr>, evs)) = Inr (s', evs)"
      using q(2) run by (simp split: if_splits)
    then obtain e sn where "send_on L key r (vs_open s) (cx_paths ?c ! q) (cx_mtu ?c) (vs_tun_buf s) (cx_snmp ?c) = Inr (e, sn, evs)"
      "s' = s\<lparr>vs_turn := q, vs_ctx := ?c\<lparr>cx_snmp := sn\<rparr>, vs_tun_buf := e\<rparr>"
      by (auto simp: bind_res_eq_Inr)
    then show ?thesis
      using that q(1) send_on_cases [OF _ r fit] by metis
  next
    case False
    then have "s' = s\<lparr>vs_turn := q\<rparr>"
      using q(2) run by (auto split: if_splits)
    then show ?thesis
      using that [where q=q and sn="cx_snmp ?c" and e="vs_tun_buf s"] q(1) s by (simp add: vpn_ok_def)
  qed
qed

text \<open>A frame that is read lies in the buffer as a packet when \<^verbatim>\<open>udp_sender\<close> is called.\<close>

lemma tun_worker_form:
  assumes s: "vpn_ok s"
  obtains "tun_worker tgt L key r frame s = Some (Inr (s\<lparr>vs_tun_alive := False\<rparr>, [Logged ''tun_read'']))"
      "fst (tun_read tgt frame (nat (cx_mtu (vs_ctx s)))) \<le> 0"
  | ds b where "tun_read tgt frame (nat (cx_mtu (vs_ctx s))) = (int (length ds), ds)" "ds \<noteq> []"
      "int (length ds) \<le> cx_mtu (vs_ctx s)" "vpn_ok (s\<lparr>vs_tun_buf := b\<rparr>)" "fits b (cx_mtu (vs_ctx s))" "flag b = 0"
      "contents b = ds" "unat (len b) = length ds"
      "tun_worker tgt L key r frame s = udp_sender L key r (s\<lparr>vs_tun_buf := b\<rparr>)"
proof -
  let ?c = "vs_ctx s"
  obtain n ds where rd: "tun_read tgt frame (nat (cx_mtu ?c)) = (n, ds)"
    by fastforce
  have c: "cx_mtu ?c \<le> 2048" "1024 \<le> cx_mtu ?c" and wf: "wf_pbuf (vs_tun_buf s)"
    using s by (simp_all add: vpn_ok_def ctx_ok_def)
  show ?thesis
  proof (cases "n \<le> 0")
    case True
    then show ?thesis
      using that(1) by (simp add: tun_worker_def rd)
  next
    case False
    then have n: "n = int (length ds)" "length ds \<le> nat (cx_mtu ?c)"
      using tun_read_length [of tgt frame "nat (cx_mtu ?c)"] rd by auto
    then have l: "length ds \<le> 2048"
      using c by simp
    define b where "b = (vs_tun_buf s)\<lparr>payload := write_at 0 ds (payload (vs_tun_buf s)), len := word_of_int n, flag := 0\<rparr>"
    have "mem_write PAYLOAD_OFFSET ds (vs_tun_buf s) = Inr ((vs_tun_buf s)\<lparr>payload := write_at 0 ds (payload (vs_tun_buf s))\<rparr>)"
      using mem_write_front [OF wf l] .
    then have run: "tun_worker tgt L key r frame s = udp_sender L key r (s\<lparr>vs_tun_buf := b\<rparr>)"
      using False by (simp add: tun_worker_def rd b_def)
    have lb: "unat (len b) = length ds"
      using n l by (simp add: b_def unat_of_nat)
    then have fit: "fits b (cx_mtu ?c)"
      using wf l c by (simp add: fits_def b_def wf_pbuf_def)
    have cont: "contents b = ds"
      unfolding contents_def lb by (simp add: b_def write_at_def)
    have ok: "vpn_ok (s\<lparr>vs_tun_buf := b\<rparr>)"
      using s fit by (simp add: vpn_ok_def worker_ok_def fits_def)
    show ?thesis
      by (rule that(2) [OF _ _ _ ok fit _ cont lb run])
        (use rd n False c in \<open>auto simp: b_def\<close>)
  qed
qed

lemma tun_worker_ok:
  assumes s: "vpn_ok s" and r: "rng_ok r" and run: "tun_worker tgt L key r frame s = Some (Inr (s', evs))"
  shows "vpn_ok s'" and "cx_paths (vs_ctx s') = cx_paths (vs_ctx s)"
    and "cx_mode (vs_ctx s') = cx_mode (vs_ctx s)" and "vs_workers s' = vs_workers s" and "vs_open s' = vs_open s"
    and "cx_path_count (vs_ctx s') = cx_path_count (vs_ctx s)"
proof -
  have "vpn_ok s' \<and> cx_paths (vs_ctx s') = cx_paths (vs_ctx s) \<and> cx_mode (vs_ctx s') = cx_mode (vs_ctx s)
    \<and> vs_workers s' = vs_workers s \<and> vs_open s' = vs_open s \<and> cx_path_count (vs_ctx s') = cx_path_count (vs_ctx s)"
  proof (rule tun_worker_form [where tgt=tgt and L=L and key=key and r=r and frame=frame, OF s])
    assume "tun_worker tgt L key r frame s = Some (Inr (s\<lparr>vs_tun_alive := False\<rparr>, [Logged ''tun_read'']))"
    then have "s' = s\<lparr>vs_tun_alive := False\<rparr>"
      using run by simp
    then show ?thesis
      using s by (simp add: vpn_ok_def worker_ok_def)
  next
    fix ds b
    assume ok: "vpn_ok (s\<lparr>vs_tun_buf := b\<rparr>)" and fit: "fits b (cx_mtu (vs_ctx s))"
      and form: "tun_worker tgt L key r frame s = udp_sender L key r (s\<lparr>vs_tun_buf := b\<rparr>)"
    have fit': "fits (vs_tun_buf (s\<lparr>vs_tun_buf := b\<rparr>)) (cx_mtu (vs_ctx (s\<lparr>vs_tun_buf := b\<rparr>)))"
      using fit by simp
    obtain q sn e where "s' = s\<lparr>vs_tun_buf := b\<rparr>\<lparr>vs_turn := q, vs_ctx := (vs_ctx (s\<lparr>vs_tun_buf := b\<rparr>))\<lparr>cx_snmp := sn\<rparr>, vs_tun_buf := e\<rparr>"
      "q < nat (cx_path_count (vs_ctx (s\<lparr>vs_tun_buf := b\<rparr>)))" "wf_pbuf e"
      by (rule udp_sender_ok [OF ok r fit' run [unfolded form]])
    then show ?thesis
      using vpn_ok_sent [OF ok, of q e sn] by simp
  qed
  then show "vpn_ok s'" and "cx_paths (vs_ctx s') = cx_paths (vs_ctx s)"
    and "cx_mode (vs_ctx s') = cx_mode (vs_ctx s)" and "vs_workers s' = vs_workers s" and "vs_open s' = vs_open s"
    and "cx_path_count (vs_ctx s') = cx_path_count (vs_ctx s)"
    by simp_all
qed

subsection \<open>The workers\<close>

text \<open>What the round of a worker with socket \<open>k\<close> may do to the context: only a server's worker changes
  the socket of a path.\<close>

definition evolves :: "sock \<Rightarrow> ctx \<Rightarrow> ctx \<Rightarrow> bool" where
  "evolves k c c' \<longleftrightarrow> ctx_ok c' \<and> cx_path_count c' = cx_path_count c \<and> cx_mode c' = cx_mode c \<and> cx_mtu c' = cx_mtu c
     \<and> (\<forall>i < 8. px_range (cx_paths c' ! i) = px_range (cx_paths c ! i)
          \<and> (px_sock (cx_paths c' ! i) = px_sock (cx_paths c ! i) \<or> px_sock (cx_paths c' ! i) = Some k \<and> cx_mode c = MODE_SERVER))"

lemma evolves_refl: "ctx_ok c \<Longrightarrow> evolves k c c"
  by (simp add: evolves_def)

text \<open>The decapsulated packet of a worker: a result inside the payload, and its memory.\<close>

lemma decapsulate_ok:
  assumes "lz4_ok L" "wf_pbuf q" "8 \<le> n" "n \<le> 2072" and "decapsulate L key token q n = Inr (k, p')"
  shows "wf_pbuf p'" and "k = -1 \<or> k = 0 \<or> k = uint (len p') \<and> 1 \<le> k \<and> k \<le> 2048"
  using decapsulate_outcome [OF assms(1-4), of key token] assms(5) by auto

lemma worker_packet_ok:
  assumes c: "ctx_ok c" and i: "int (wk_path w) < cx_path_count c" and b: "wf_pbuf (wk_buf w)"
    and tok: "0 \<le> wk_token w" "wk_token w \<le> px_range (cx_paths c ! wk_path w)"
    and n: "8 \<le> n" "n \<le> 2072" and lz4: "lz4_ok L"
    and run: "worker_packet L key w n tw c = Inr (c', w', evs)"
  shows "evolves (wk_sock w) c c'" and "\<exists>b. w' = w\<lparr>wk_buf := b\<rparr> \<and> wf_pbuf b"
proof -
  obtain k b' where d: "decapsulate L key (wk_token w) (wk_buf w) n = Inr (k, b')"
    and rest: "(if k < 0 then Inr (c, w\<lparr>wk_buf := b'\<rparr>, invalid_packet c)
       else
         let sn = cx_snmp c;
             c1 = c\<lparr>cx_snmp := sn\<lparr>in_packets := in_packets sn + 1, in_bytes := in_bytes sn + word_of_int k\<rparr>\<rparr>;
             c2 = (if cx_mode c = MODE_SERVER
                   then update_path (wk_path w) (\<lambda>p. p\<lparr>px_sock := Some (wk_sock w), px_remote := wk_addr w,
                          px_token := wk_token w\<rparr>) c1
                   else c1);
             c3 = update_path (wk_path w) (\<lambda>p. p\<lparr>px_alive := 5\<rparr>) c2
         in if k = 0 then Inr (c3, w\<lparr>wk_buf := b'\<rparr>, [])
            else bind_res (mem_read PAYLOAD_OFFSET (unat (len b')) b') (\<lambda>ds.
              Inr (c3, w\<lparr>wk_buf := b'\<rparr>, TunWrite ds # (if tw < 0 then [Logged ''tun_write''] else [])))) = Inr (c', w', evs)"
    using run by (auto simp: worker_packet_def Let_def bind_res_eq_Inr)
  have wf: "wf_pbuf b'"
    by (rule decapsulate_ok [OF lz4 b n d])
  have i8: "wk_path w < 8" "length (cx_paths c) = 8"
    using c i by (auto simp: ctx_ok_def)
  have p: "path_ok (cx_paths c ! wk_path w)"
    by (rule path_ok_nth [OF c i8(1)])
  let ?f = "\<lambda>p. p\<lparr>px_sock := Some (wk_sock w), px_remote := wk_addr w, px_token := wk_token w\<rparr>"
  let ?g = "\<lambda>p. p\<lparr>px_alive := 5\<rparr> :: path"
  have e1: "evolves (wk_sock w) c (update_path (wk_path w) ?g (c\<lparr>cx_snmp := sn\<rparr>))" for sn
    using c i8 p by (auto simp: evolves_def update_path_snmp update_path_nth path_ok_def intro!: ctx_ok_update_path)
  have e2: "evolves (wk_sock w) c (update_path (wk_path w) ?g (update_path (wk_path w) ?f (c\<lparr>cx_snmp := sn\<rparr>)))"
    if "cx_mode c = MODE_SERVER" for sn
  proof -
    have "update_path (wk_path w) ?g (update_path (wk_path w) ?f d) = update_path (wk_path w) (\<lambda>p. ?g (?f p)) d"
      if "wk_path w < length (cx_paths d)" for d
      using that by (simp add: update_path_def)
    then have "update_path (wk_path w) ?g (update_path (wk_path w) ?f (c\<lparr>cx_snmp := sn\<rparr>))
        = (update_path (wk_path w) (\<lambda>p. ?g (?f p)) c)\<lparr>cx_snmp := sn\<rparr>"
      using i8 by (simp add: update_path_snmp)
    then show ?thesis
      using c i8 p tok that by (auto simp: evolves_def update_path_nth path_ok_def intro!: ctx_ok_update_path)
  qed
  show "evolves (wk_sock w) c c'"
    using rest e1 e2 evolves_refl [OF c] by (auto simp: Let_def bind_res_eq_Inr split: if_splits)
  show "\<exists>b. w' = w\<lparr>wk_buf := b\<rparr> \<and> wf_pbuf b"
    using rest wf by (auto simp: Let_def bind_res_eq_Inr split: if_splits)
qed

lemma recv_into_ok:
  assumes "wf_pbuf q" and "length bs \<le> 2072"
  obtains q' where "recv_into bs q = Inr q'" "wf_pbuf q'"
proof -
  have "length (bs @ drop (length bs) (pbuf_bytes q)) = 2072"
    using assms by simp
  then show ?thesis
    using that recv_into_eq [OF assms(2), of q] wf_pbuf_of by metis
qed

lemma worker_round_ok:
  assumes c: "ctx_ok c" and i: "int (wk_path w) < cx_path_count c" and b: "wf_pbuf (wk_buf w)"
    and tok: "0 \<le> wk_token w" "wk_token w \<le> px_range (cx_paths c ! wk_path w)" and lz4: "lz4_ok L"
    and run: "worker_round L key w rv c = Inr (c', wo, evs)"
  shows "evolves (wk_sock w) c c'"
    and "wo = None \<and> rv = TimedOut \<and> c' = c \<or> (\<exists>a b. wo = Some (w\<lparr>wk_addr := a, wk_buf := b\<rparr>) \<and> wf_pbuf b)"
proof -
  have l: "length (received c rv) \<le> 2072"
    using c by (auto simp: received_def ctx_ok_def layout_defs split: recv.split)
  then obtain b1 where b1: "recv_into (received c rv) (wk_buf w) = Inr b1" "wf_pbuf b1"
    by (rule recv_into_ok [OF b])
  let ?w = "w\<lparr>wk_addr := sender_addr c w rv, wk_buf := b1\<rparr>"
  note run' = run [unfolded worker_round_def Let_def b1(1) bind_res_Inr]
  have keep: "evolves (wk_sock w) c c" "\<exists>a b. Some ?w = Some (w\<lparr>wk_addr := a, wk_buf := b\<rparr>) \<and> wf_pbuf b"
    using evolves_refl [OF c] b1(2) by blast+
  have goal: "evolves (wk_sock w) c c' \<and>
    (wo = None \<and> rv = TimedOut \<and> c' = c \<or> (\<exists>a b. wo = Some (w\<lparr>wk_addr := a, wk_buf := b\<rparr>) \<and> wf_pbuf b))"
  proof (cases "cx_mode c \<noteq> MODE_CLIENT \<and> wk_token w \<notin> set (px_valid (cx_paths c ! wk_path w))")
    case True
    then show ?thesis
      using run' keep by auto
  next
    case False
    show ?thesis
    proof (cases rv)
      case (Datagram a bs tw)
      show ?thesis
      proof (cases "length (received c rv) < PAYLOAD_OFFSET")
        case True
        then show ?thesis
          using run' False keep Datagram by auto
      next
        case big: False
        then obtain w2 where w2: "worker_packet L key ?w (int (length (received c rv))) tw c = Inr (c', w2, evs)" "wo = Some w2"
          using run' False Datagram by (auto simp: bind_res_eq_Inr)
        have "8 \<le> int (length (received c rv))" "int (length (received c rv)) \<le> 2072"
          using big l by (auto simp: layout_defs)
        note pk = worker_packet_ok [OF c _ _ _ _ this lz4 w2(1)]
        have "evolves (wk_sock w) c c'"
          using pk(1) i b1(2) tok by simp
        moreover obtain b where "w2 = ?w\<lparr>wk_buf := b\<rparr>" "wf_pbuf b"
          using pk(2) i b1(2) tok by auto
        moreover have "?w\<lparr>wk_buf := b\<rparr> = w\<lparr>wk_addr := sender_addr c w rv, wk_buf := b\<rparr>" for b
          by simp
        ultimately show ?thesis
          using w2(2) by metis
      qed
    qed (use run' False keep in auto)
  qed
  then show "evolves (wk_sock w) c c'"
    and "wo = None \<and> rv = TimedOut \<and> c' = c \<or> (\<exists>a b. wo = Some (w\<lparr>wk_addr := a, wk_buf := b\<rparr>) \<and> wf_pbuf b)"
    by blast+
qed

lemma worker_ok_evolves:
  assumes "evolves k c c'" and "vs_ctx s = c" and "vs_ctx s' = c'" and "ctx_ok c" and "worker_ok s w"
    and "wk_sock w \<in> set (vs_open s')"
  shows "worker_ok s' w"
proof -
  have "wk_path w < 8"
    using assms(2,4,5) by (auto simp: worker_ok_def ctx_ok_def)
  then show ?thesis
    using assms by (auto simp: worker_ok_def evolves_def)
qed

lemma worker_step_ok:
  assumes s: "vpn_ok s" and j: "j < length (vs_workers s)" and lz4: "lz4_ok L"
    and run: "worker_step L key j rv s = Inr (s', evs)"
  shows "vpn_ok s'" and "evolves (wk_sock (vs_workers s ! j)) (vs_ctx s) (vs_ctx s')"
    and "vs_open s' = (if length (vs_workers s') = length (vs_workers s) then vs_open s
           else removeAll (wk_sock (vs_workers s ! j)) (vs_open s))"
    and "length (vs_workers s') = length (vs_workers s) \<or> rv = TimedOut"
    and "\<forall>w' \<in> set (vs_workers s'). \<exists>w \<in> set (vs_workers s). wk_sock w' = wk_sock w \<and> wk_deadline w' = wk_deadline w"
proof -
  let ?w = "vs_workers s ! j" and ?c = "vs_ctx s"
  have c: "ctx_ok ?c" and ws: "\<And>w. w \<in> set (vs_workers s) \<Longrightarrow> worker_ok s w"
    and dist: "distinct (map wk_sock (vs_workers s))"
    using s by (simp_all add: vpn_ok_def)
  have w: "worker_ok s ?w"
    using ws j by simp
  obtain c1 wo where rnd: "worker_round L key ?w rv ?c = Inr (c1, wo, evs)"
    and s': "s' = (case wo of
          Some w' \<Rightarrow> s\<lparr>vs_ctx := c1, vs_workers := (vs_workers s)[j := w']\<rparr>
        | None \<Rightarrow> s\<lparr>vs_ctx := c1, vs_workers := take j (vs_workers s) @ drop (Suc j) (vs_workers s),
                       vs_open := removeAll (wk_sock ?w) (vs_open s)\<rparr>)"
    using run by (auto simp: worker_step_def Let_def bind_res_eq_Inr split: option.splits)
  have ok: "evolves (wk_sock ?w) ?c c1"
    "wo = None \<and> rv = TimedOut \<and> c1 = ?c \<or> (\<exists>a b. wo = Some (?w\<lparr>wk_addr := a, wk_buf := b\<rparr>) \<and> wf_pbuf b)"
    using worker_round_ok [OF c _ _ _ _ lz4 rnd] w by (auto simp: worker_ok_def)
  have c1: "ctx_ok c1" "cx_path_count c1 = cx_path_count ?c"
    using ok(1) by (simp_all add: evolves_def)
  show "evolves (wk_sock ?w) ?c (vs_ctx s')"
    using ok(1) s' by (auto split: option.splits)
  show "length (vs_workers s') = length (vs_workers s) \<or> rv = TimedOut"
    using ok(2) s' by auto
  show "vs_open s' = (if length (vs_workers s') = length (vs_workers s) then vs_open s
           else removeAll (wk_sock ?w) (vs_open s))"
    using s' j by (auto split: option.splits)
  have state: "vpn_ok s' \<and> (\<forall>w' \<in> set (vs_workers s'). \<exists>w \<in> set (vs_workers s). wk_sock w' = wk_sock w \<and> wk_deadline w' = wk_deadline w)"
  proof (cases wo)
    case None
    let ?ws = "take j (vs_workers s) @ drop (Suc j) (vs_workers s)"
    have split: "vs_workers s = take j (vs_workers s) @ ?w # drop (Suc j) (vs_workers s)"
      using j by (rule id_take_nth_drop)
    have d: "distinct (map wk_sock ?ws)" "wk_sock ?w \<notin> wk_sock ` set ?ws"
    proof -
      have "distinct (map wk_sock (take j (vs_workers s) @ ?w # drop (Suc j) (vs_workers s)))"
        using dist by (simp only: split [symmetric])
      then show "distinct (map wk_sock ?ws)" "wk_sock ?w \<notin> wk_sock ` set ?ws"
        by auto
    qed
    have sub: "set ?ws \<subseteq> set (vs_workers s)"
      by (auto dest: in_set_takeD in_set_dropD)
    have f: "vs_workers s' = ?ws" "vs_open s' = removeAll (wk_sock ?w) (vs_open s)" "vs_ctx s' = ?c"
      "vs_turn s' = vs_turn s" "vs_tun_buf s' = vs_tun_buf s" "vs_hb_buf s' = vs_hb_buf s" "vs_next s' = vs_next s"
      using s' None ok(2) by simp_all
    have "worker_ok s' w" if "w \<in> set ?ws" for w
    proof -
      have "worker_ok s w"
        using that sub ws by blast
      moreover have "wk_sock w \<noteq> wk_sock ?w"
        using that d(2) by (metis imageI)
      ultimately have "worker_ok s w" "wk_sock w \<noteq> wk_sock ?w"
        by simp_all
      then show ?thesis
        by (simp add: worker_ok_def f)
    qed
    then show ?thesis
      using s d(1) sub by (auto simp: vpn_ok_def f)
  next
    case (Some w1)
    then obtain a b where w1: "w1 = ?w\<lparr>wk_addr := a, wk_buf := b\<rparr>" "wf_pbuf b"
      using ok(2) by blast
    have f: "vs_workers s' = (vs_workers s)[j := w1]" "vs_open s' = vs_open s" "vs_ctx s' = c1"
      "vs_turn s' = vs_turn s" "vs_tun_buf s' = vs_tun_buf s" "vs_hb_buf s' = vs_hb_buf s" "vs_next s' = vs_next s"
      using s' Some by simp_all
    have socks: "map wk_sock (vs_workers s') = map wk_sock (vs_workers s)"
      using j w1(1) by (simp add: f map_update list_update_same_conv)
    have old: "worker_ok s' w" if "w \<in> set (vs_workers s)" for w
      by (rule worker_ok_evolves [OF ok(1) refl f(3) c ws [OF that]])
        (use ws [OF that] in \<open>simp add: f worker_ok_def\<close>)
    have "worker_ok s' w1"
      using old [of ?w] j w1 by (simp add: worker_ok_def)
    then have "worker_ok s' w" if "w \<in> set (vs_workers s')" for w
      using that old set_update_subset_insert [of "vs_workers s" j w1] unfolding f by blast
    moreover have "\<exists>w \<in> set (vs_workers s). wk_sock w' = wk_sock w \<and> wk_deadline w' = wk_deadline w"
      if "w' \<in> set (vs_workers s')" for w'
    proof -
      have "w' = w1 \<or> w' \<in> set (vs_workers s)"
        using that set_update_subset_insert [of "vs_workers s" j w1] unfolding f by blast
      moreover have "wk_sock w1 = wk_sock ?w" "wk_deadline w1 = wk_deadline ?w" "?w \<in> set (vs_workers s)"
        using w1(1) j by simp_all
      ultimately show ?thesis
        by blast
    qed
    ultimately show ?thesis
      using s c1 socks dist by (simp add: vpn_ok_def f)
  qed
  then show "vpn_ok s'"
    and "\<forall>w' \<in> set (vs_workers s'). \<exists>w \<in> set (vs_workers s). wk_sock w' = wk_sock w \<and> wk_deadline w' = wk_deadline w"
    by blast+
qed

subsection \<open>Starting workers, hopping, the heartbeat and the counters\<close>

lemma steps_keep:
  assumes "steps fs s = Inr (s', evs)" and "P s"
    and "\<And>f s s' evs. f \<in> set fs \<Longrightarrow> P s \<Longrightarrow> f s = Inr (s', evs) \<Longrightarrow> P s'"
  shows "P s'"
  using assms
proof (induction fs arbitrary: s evs)
  case Nil
  then show ?case by simp
next
  case (Cons f fs)
  obtain s1 evs1 evs2 where "f s = Inr (s1, evs1)" "steps fs s1 = Inr (s', evs2)"
    using Cons.prems(1) by (auto simp: bind_res_eq_Inr)
  then show ?case
    using Cons.IH [of s1 evs2] Cons.prems(2,3) by auto
qed

text \<open>The fixed part of a state that the start of workers refers to.\<close>

definition same_shape :: "vpn \<Rightarrow> vpn \<Rightarrow> bool" where
  "same_shape s s' \<longleftrightarrow> cx_mode (vs_ctx s') = cx_mode (vs_ctx s)
     \<and> cx_path_count (vs_ctx s') = cx_path_count (vs_ctx s)
     \<and> (\<forall>i < 8. px_range (cx_paths (vs_ctx s') ! i) = px_range (cx_paths (vs_ctx s) ! i))"

lemma same_shape_refl [simp]: "same_shape s s"
  by (simp add: same_shape_def)

lemma same_shape_trans: "same_shape s t \<Longrightarrow> same_shape t u \<Longrightarrow> same_shape s u"
  by (simp add: same_shape_def)

lemma worker_start_ok:
  assumes s: "vpn_ok s" and i: "i < nat (cx_path_count (vs_ctx s))"
    and tok: "0 \<le> token" "token \<le> px_range (cx_paths (vs_ctx s) ! i)" and buf: "\<And>k. wf_pbuf (fresh_buf N k)"
    and run: "worker_start N i token timeout s = Inr (s', evs)"
  shows "vpn_ok s'" and "same_shape s s'" and "set (vs_open s) \<subseteq> set (vs_open s')"
    and "socks_ok s \<Longrightarrow> socks_ok s'"
    and "\<forall>w \<in> set (vs_workers s'). w \<in> set (vs_workers s) \<or> wk_deadline w = (if timeout < 0 then -1 else now_of N i + timeout)"
proof -
  let ?c = "vs_ctx s" and ?k = "vs_next s"
  have c: "ctx_ok ?c"
    using s by (simp add: vpn_ok_def)
  have i8: "i < 8" "length (cx_paths ?c) = 8"
    using index_bound [OF c i] c by (simp_all add: ctx_ok_def)
  have p: "path_ok (cx_paths ?c ! i)"
    by (rule path_ok_nth [OF c i8(1)])
  let ?pt = "px_start (cx_paths ?c ! i) + token"
  define c1 where "c1 = (if cx_mode ?c = MODE_CLIENT
     then update_path i (\<lambda>p. p\<lparr>px_remote := remote_of N (cstr (px_server p)) ?pt, px_token := token\<rparr>) ?c
     else update_path i (\<lambda>p. p\<lparr>px_alive := 0\<rparr>) ?c)"
  have c1: "ctx_ok c1" "length (cx_paths c1) = 8" "cx_path_count c1 = cx_path_count ?c" "cx_mode c1 = cx_mode ?c"
    "path_ok (cx_paths c1 ! i)"
    using c i8 p tok by (auto simp: c1_def update_path_nth path_ok_def intro!: ctx_ok_update_path)
  have nth1: "px_range (cx_paths c1 ! j) = px_range (cx_paths ?c ! j)" "px_sock (cx_paths c1 ! j) = px_sock (cx_paths ?c ! j)"
    for j using i8 by (auto simp: c1_def update_path_nth)
  have sk: "px_sock (cx_paths ?c ! j) \<in> px_sock ` set (cx_paths ?c)" if "j < 8" for j
    using that i8 by simp
  have old: "worker_ok t w" if "w \<in> set (vs_workers s)" "cx_path_count (vs_ctx t) = cx_path_count ?c"
    "\<And>j. px_range (cx_paths (vs_ctx t) ! j) = px_range (cx_paths ?c ! j)" "set (vs_open s) \<subseteq> set (vs_open t)" for t w
    using s that by (auto simp: vpn_ok_def worker_ok_def)
  have "vpn_ok s' \<and> same_shape s s' \<and> set (vs_open s) \<subseteq> set (vs_open s') \<and> (socks_ok s \<longrightarrow> socks_ok s')
    \<and> (\<forall>w \<in> set (vs_workers s'). w \<in> set (vs_workers s) \<or> wk_deadline w = (if timeout < 0 then -1 else now_of N i + timeout))"
  proof (cases "bound N ?k")
    case False
    then have s': "s' = s\<lparr>vs_ctx := c1\<rparr>"
      using run by (auto simp: worker_start_def Let_def c1_def split: if_splits)
    have "px_sock p \<in> px_sock ` set (cx_paths ?c)" if "p \<in> set (cx_paths c1)" for p
      using that c1(2) nth1(2) sk by (metis in_set_conv_nth)
    then have "socks_ok s \<longrightarrow> socks_ok s'"
      unfolding socks_ok_def s' by fastforce
    then show ?thesis
      using s c1 nth1 old [of _ s'] by (auto simp: s' vpn_ok_def same_shape_def)
  next
    case True
    define c2 where "c2 = update_path i (\<lambda>p. p\<lparr>px_sock := Some ?k\<rparr>) c1"
    define w where "w = \<lparr>wk_path = i, wk_token = token, wk_sock = ?k, wk_deadline = (if timeout < 0 then -1 else now_of N i + timeout),
      wk_addr = (if cx_mode ?c = MODE_CLIENT then no_addr else local_of N (cstr (px_server (cx_paths ?c ! i))) ?pt),
      wk_buf = fresh_buf N ?k\<rparr>"
    have s': "s' = s\<lparr>vs_ctx := c2, vs_open := ?k # vs_open s, vs_next := ?k + 1, vs_workers := vs_workers s @ [w]\<rparr>"
      using run True by (auto simp: worker_start_def Let_def c1_def c2_def w_def split: if_splits)
    have c2: "ctx_ok c2" "cx_path_count c2 = cx_path_count ?c" "cx_mode c2 = cx_mode ?c"
      using c1 i8 by (auto simp: c2_def path_ok_def intro!: ctx_ok_update_path)
    have nth2: "px_range (cx_paths c2 ! j) = px_range (cx_paths ?c ! j)"
      "px_sock (cx_paths c2 ! j) = (if j = i then Some ?k else px_sock (cx_paths ?c ! j))" for j
      using i8 c1(2) nth1 by (auto simp: c2_def update_path_nth)
    have "worker_ok s' w"
      using i tok nth2 c2 buf by (auto simp: worker_ok_def w_def s')
    then have "\<forall>w' \<in> set (vs_workers s'). worker_ok s' w'"
      using old [of _ s'] c2 nth2 by (auto simp: s')
    moreover have "wk_sock w' < ?k" if "w' \<in> set (vs_workers s)" for w'
      using s that by (auto simp: vpn_ok_def worker_ok_def)
    then have "distinct (map wk_sock (vs_workers s'))"
      using s by (fastforce simp: vpn_ok_def s' w_def)
    moreover have "px_sock p = Some ?k \<or> px_sock p \<in> px_sock ` set (cx_paths ?c)" if mem: "p \<in> set (cx_paths c2)" for p
      proof -
      obtain j where "j < 8" "p = cx_paths c2 ! j"
        using mem c1(2) by (auto simp: in_set_conv_nth c2_def)
      then show ?thesis
        using nth2(2) [of j] sk [of j] by auto
    qed
    then have "socks_ok s \<longrightarrow> socks_ok s'"
      unfolding socks_ok_def s' by fastforce
    ultimately show ?thesis
      using s c2 nth2 by (auto simp: s' vpn_ok_def same_shape_def w_def)
  qed
  then show "vpn_ok s'" and "same_shape s s'" and "set (vs_open s) \<subseteq> set (vs_open s')"
    and "socks_ok s \<Longrightarrow> socks_ok s'" and "\<forall>w \<in> set (vs_workers s'). w \<in> set (vs_workers s) \<or> wk_deadline w = (if timeout < 0 then -1 else now_of N i + timeout)"
    by blast+
qed

lemma hop_path_ok:
  assumes s: "vpn_ok s" and i: "i < nat (cx_path_count (vs_ctx s))" and buf: "\<And>k. wf_pbuf (fresh_buf N k)"
    and run: "hop_path L key N clk i s = Inr (s', evs)"
  shows "vpn_ok s'" and "same_shape s s'"
proof -
  have c: "ctx_ok (vs_ctx s)"
    using s by (simp add: vpn_ok_def)
  have rg: "token_ranged (px_range (cx_paths (vs_ctx s) ! i))"
    using path_ok_nth [OF c index_bound [OF c i]] by (simp add: path_ok_def)
  have "worker_start N i (token_of L key (px_range (cx_paths (vs_ctx s) ! i)) (step_of (clk i) 0)) (5 * 1000) s = Inr (s', evs)"
    using run by (simp add: hop_path_def totp_step [OF rg])
  from worker_start_ok [OF s i _ _ buf this] token_of_bounds [OF rg]
  show "vpn_ok s'" and "same_shape s s'" by auto
qed

lemma client_hop_ok:
  assumes s: "vpn_ok s" and buf: "\<And>k. wf_pbuf (fresh_buf N k)" and run: "client_hop L key N clk s = Inr (s', evs)"
  shows "vpn_ok s'" and "same_shape s s'"
proof -
  have "vpn_ok s' \<and> same_shape s s'"
    using run unfolding client_hop_def
  proof (rule steps_keep [where P = "\<lambda>t. vpn_ok t \<and> same_shape s t"])
    fix f t t' evs
    assume f: "f \<in> set (map (hop_path L key N clk) [0..<nat (cx_path_count (vs_ctx s))])"
      and t: "vpn_ok t \<and> same_shape s t" and step: "f t = Inr (t', evs)"
    then obtain i where i: "f = hop_path L key N clk i" "i < nat (cx_path_count (vs_ctx t))"
      by (auto simp: same_shape_def)
    then show "vpn_ok t' \<and> same_shape s t'"
      using hop_path_ok [OF _ i(2) buf] t step same_shape_trans by blast
  qed (simp add: s)
  then show "vpn_ok s'" and "same_shape s s'" by simp_all
qed

lemma heartbeat_path_form:
  assumes s: "vpn_ok s" and i: "i < nat (cx_path_count (vs_ctx s))" and r: "rng_ok (rs i)"
    and run: "heartbeat_path L key clk rs i s = Inr (s', evs)"
  obtains sn b where "wf_pbuf b"
    "s' = s\<lparr>vs_ctx := (update_path i (beaten (filled L key (clk i) (cx_paths (vs_ctx s) ! i))) (vs_ctx s))\<lparr>cx_snmp := sn\<rparr>,
       vs_hb_buf := b\<rparr>"
proof -
  let ?c = "vs_ctx s" and ?p = "cx_paths (vs_ctx s) ! i"
  let ?v = "filled L key (clk i) ?p"
  have c: "ctx_ok ?c" and b: "wf_pbuf (vs_hb_buf s)"
    using s by (simp_all add: vpn_ok_def)
  have i8: "i < 8" "length (cx_paths ?c) = 8" "cx_mtu ?c \<le> 2048"
    using index_bound [OF c i] c by (simp_all add: ctx_ok_def)
  have p: "path_ok ?p"
    by (rule path_ok_nth [OF c i8(1)])
  have upd: "update_path i (\<lambda>p. p\<lparr>px_alive := px_alive p - 1\<rparr>) ((update_path i (\<lambda>p. p\<lparr>px_valid := ?v\<rparr>) ?c)\<lparr>cx_snmp := sn\<rparr>)
      = (update_path i (beaten ?v) ?c)\<lparr>cx_snmp := sn\<rparr>" if "0 < px_alive ?p" for sn
    using that i8 by (simp add: update_path_def beaten_def)
  have upd0: "update_path i (\<lambda>p. p\<lparr>px_valid := ?v\<rparr>) ?c = update_path i (beaten ?v) ?c" if "\<not> 0 < px_alive ?p"
    using that by (simp add: update_path_def beaten_def)
  have id: "(update_path i f ?c)\<lparr>cx_snmp := cx_snmp ?c\<rparr> = update_path i f ?c" for f
    by (simp add: update_path_def)
  note fill = filled_eq(1) [OF p, of L key "clk i"]
  note run' = run [unfolded heartbeat_path_def Let_def fill bind_res_Inr]
  show ?thesis
  proof (cases "beats ?c ?p")
    case True
    then obtain e sn where e: "send_on L key (rs i) (vs_open s) ?p (cx_mtu ?c) ((vs_hb_buf s)\<lparr>len := 0, flag := 0\<rparr>) (cx_snmp ?c)
        = Inr (e, sn, evs)"
      using run' by (auto simp: beats_def bind_res_eq_Inr)
    have "wf_pbuf e"
      by (rule send_on_cases [OF e r fits_hb [OF b i8(3)]])
    then show ?thesis
      using run' True e upd upd0 by (intro that [of e sn]) (auto simp: beats_def)
  next
    case False
    then show ?thesis
      using run' upd [of "cx_snmp ?c"] upd0 b id
      by (intro that [of "vs_hb_buf s" "cx_snmp ?c"]) (auto simp: beats_def update_path_snmp [symmetric])
  qed
qed

lemma heartbeat_path_keeps:
  assumes s: "vpn_ok s" and i: "i < nat (cx_path_count (vs_ctx s))" and r: "rng_ok (rs i)"
    and run: "heartbeat_path L key clk rs i s = Inr (s', evs)"
  shows "vpn_ok s'" and "same_shape s s'" and "vs_open s' = vs_open s" and "vs_workers s' = vs_workers s"
    and "socks_ok s \<Longrightarrow> socks_ok s'"
proof -
  let ?c = "vs_ctx s"
  let ?u = "update_path i (beaten (filled L key (clk i) (cx_paths ?c ! i))) ?c"
  obtain sn b where b: "wf_pbuf b" and s': "s' = s\<lparr>vs_ctx := ?u\<lparr>cx_snmp := sn\<rparr>, vs_hb_buf := b\<rparr>"
    by (rule heartbeat_path_form [OF s i r run])
  have c: "ctx_ok ?c"
    using s by (simp add: vpn_ok_def)
  have i8: "i < 8" "length (cx_paths ?c) = 8"
    using index_bound [OF c i] c by (simp_all add: ctx_ok_def)
  have p: "path_ok (cx_paths ?c ! i)"
    by (rule path_ok_nth [OF c i8(1)])
  have u: "ctx_ok ?u"
    by (rule ctx_ok_update_path [OF c i8(1)]) (rule path_ok_beaten [OF p filled_eq(2) [OF p]])
  have rg: "px_range (cx_paths ?u ! j) = px_range (cx_paths ?c ! j)" for j
    using i8 by (auto simp: update_path_nth beaten_def)
  then show "same_shape s s'"
    by (simp add: same_shape_def s')
  have "worker_ok s' w" if "w \<in> set (vs_workers s)" for w
    using s that rg by (simp add: vpn_ok_def worker_ok_def s')
  then show "vpn_ok s'"
    using s u b by (simp add: vpn_ok_def s')
  show "vs_open s' = vs_open s" and "vs_workers s' = vs_workers s"
    by (simp_all add: s')
  show "socks_ok s'" if "socks_ok s"
  proof -
    have "px_sock p \<in> px_sock ` set (cx_paths ?c)" if mem: "p \<in> set (cx_paths ?u)" for p
      using update_path_set [OF mem] i8 by (auto simp: beaten_def)
    then show ?thesis
      using that unfolding socks_ok_def s' by fastforce
  qed
qed

lemma heartbeat_keeps:
  assumes s: "vpn_ok s" and r: "\<And>i. rng_ok (rs i)" and run: "heartbeat L key clk rs s = Inr (s', evs)"
  shows "vpn_ok s'" and "same_shape s s'" and "vs_open s' = vs_open s" and "vs_workers s' = vs_workers s"
    and "socks_ok s \<Longrightarrow> socks_ok s'"
proof -
  let ?P = "\<lambda>t. vpn_ok t \<and> same_shape s t \<and> vs_open t = vs_open s \<and> vs_workers t = vs_workers s \<and> (socks_ok s \<longrightarrow> socks_ok t)"
  have "?P s'"
    using run unfolding heartbeat_def
  proof (rule steps_keep [where P = ?P])
    fix f t t' evs
    assume f: "f \<in> set (map (heartbeat_path L key clk rs) [0..<nat (cx_path_count (vs_ctx s))])"
      and t: "?P t" and step: "f t = Inr (t', evs)"
    then obtain i where i: "f = heartbeat_path L key clk rs i" "i < nat (cx_path_count (vs_ctx t))"
      by (auto simp: same_shape_def)
    have ok: "vpn_ok t" "heartbeat_path L key clk rs i t = Inr (t', evs)"
      using t step i(1) by simp_all
    show "?P t'"
      using heartbeat_path_keeps [OF ok(1) i(2) r ok(2)] t same_shape_trans by auto
  qed (simp add: s)
  then show "vpn_ok s'" and "same_shape s s'" and "vs_open s' = vs_open s" and "vs_workers s' = vs_workers s"
    and "socks_ok s \<Longrightarrow> socks_ok s'" by simp_all
qed

lemma snmp_round_ok:
  assumes "vpn_ok s" and "snmp_round now s = Inr s'"
  shows "vpn_ok s'" and "same_shape s s'" and "vs_open s' = vs_open s" and "vs_workers s' = vs_workers s"
    and "socks_ok s' = socks_ok s"
proof -
  obtain sn where "s' = s\<lparr>vs_ctx := (vs_ctx s)\<lparr>cx_snmp := sn\<rparr>, vs_last := sn\<rparr>"
    using assms(2) by (auto simp: snmp_round_def Let_def split: if_splits)
  then show "vpn_ok s'" and "same_shape s s'" and "vs_open s' = vs_open s" and "vs_workers s' = vs_workers s"
    and "socks_ok s' = socks_ok s"
    using assms(1) by (simp_all add: vpn_ok_def worker_ok_def same_shape_def socks_ok_def)
qed

end
