(* ===== verification/System.thy ===== *)
theory System
  imports Transition Invariant
begin

text \<open>
  The running process as a transition system. An input is what ends the wait of one coroutine;
  the step is the segment of code that follows. The initial states are those of \<^verbatim>\<open>vpn_run\<close>
  after it has started its coroutines, for a configuration that \<^verbatim>\<open>parse_args\<close> accepts.
\<close>

section \<open>Inputs and steps\<close>

datatype input =
    Frame "byte list option" rng
  | Net nat recv
  | Hop "nat \<Rightarrow> int \<times> int" netenv
  | Beat "nat \<Rightarrow> nat \<Rightarrow> int \<times> int" "nat \<Rightarrow> rng"
  | Tick u64
  | Signalled signal

definition vpn_step :: "target \<Rightarrow> lib \<Rightarrow> byte list \<Rightarrow> input \<Rightarrow> vpn \<Rightarrow> (vpn \<times> effect list) res option" where
  "vpn_step tgt L key i s = (case i of
     Frame frame r \<Rightarrow> tun_worker tgt L key r frame s
   | Net j rv \<Rightarrow> Some (worker_step L key j rv s)
   | Hop clk N \<Rightarrow> Some (client_hop L key N clk s)
   | Beat clk rs \<Rightarrow> Some (heartbeat L key clk rs s)
   | Tick now \<Rightarrow> Some (bind_res (snmp_round now s) (\<lambda>s'. Inr (s', [])))
   | Signalled sg \<Rightarrow> Some (Inr (fst (signal_cb sg s), [])))"

text \<open>
  When an input can occur: the coroutine runs, only a socket with a deadline times out, the
  random numbers are in range, and uninitialised buffers have the size of a buffer.
\<close>

definition input_ok :: "vpn \<Rightarrow> input \<Rightarrow> bool" where
  "input_ok s i = (case i of
     Frame frame r \<Rightarrow> vs_tun_alive s \<and> rng_ok r
   | Net j rv \<Rightarrow> j < length (vs_workers s) \<and> (rv = TimedOut \<longrightarrow> wk_timed (vs_workers s ! j))
   | Hop clk N \<Rightarrow> cx_mode (vs_ctx s) = MODE_CLIENT \<and> (\<forall>k. wf_pbuf (fresh_buf N k))
   | Beat clk rs \<Rightarrow> \<forall>i. rng_ok (rs i)
   | Tick now \<Rightarrow> True
   | Signalled sg \<Rightarrow> True)"

inductive vpn_trans :: "target \<Rightarrow> lib \<Rightarrow> byte list \<Rightarrow> vpn \<Rightarrow> vpn \<Rightarrow> bool" for tgt L key where
  segment: "input_ok s i \<Longrightarrow> vpn_step tgt L key i s = Some (Inr (s', evs)) \<Longrightarrow> vpn_trans tgt L key s s'"

inductive_cases vpn_transE: "vpn_trans tgt L key s s'"

section \<open>Steps keep the invariant\<close>

lemma signal_cb_ok:
  "vpn_ok (fst (signal_cb sg s)) = vpn_ok s" "socks_ok (fst (signal_cb sg s)) = socks_ok s"
  "same_shape s (fst (signal_cb sg s))" "vs_workers (fst (signal_cb sg s)) = vs_workers s"
  by (simp_all add: signal_cb_def vpn_stop_def vpn_ok_def ctx_ok_def worker_ok_def socks_ok_def same_shape_def)

lemma vpn_step_ok:
  assumes lz4: "lz4_ok L" and s: "vpn_ok s" and i: "input_ok s i"
    and run: "vpn_step tgt L key i s = Some (Inr (s', evs))"
  shows "vpn_ok s'" and "cx_mode (vs_ctx s') = cx_mode (vs_ctx s)"
proof -
  have "vpn_ok s' \<and> cx_mode (vs_ctx s') = cx_mode (vs_ctx s)"
  proof (cases i)
    case (Frame frame r)
    then have "rng_ok r" "tun_worker tgt L key r frame s = Some (Inr (s', evs))"
      using i run by (simp_all add: input_ok_def vpn_step_def)
    then show ?thesis
      using tun_worker_ok(1,3) [OF s] by blast
  next
    case (Net j rv)
    then have "j < length (vs_workers s)" "worker_step L key j rv s = Inr (s', evs)"
      using i run by (simp_all add: input_ok_def vpn_step_def)
    then show ?thesis
      using worker_step_ok(1,2) [OF s _ lz4] by (auto simp: evolves_def)
  next
    case (Hop clk N)
    then have h: "\<And>k. wf_pbuf (fresh_buf N k)" "client_hop L key N clk s = Inr (s', evs)"
      using i run by (simp_all add: input_ok_def vpn_step_def)
    show ?thesis
      using client_hop_ok [OF s h] by (simp add: same_shape_def)
  next
    case (Beat clk rs)
    then have h: "\<And>i. rng_ok (rs i)" "heartbeat L key clk rs s = Inr (s', evs)"
      using i run by (simp_all add: input_ok_def vpn_step_def)
    show ?thesis
      using heartbeat_keeps(1,2) [OF s h] by (simp add: same_shape_def)
  next
    case (Tick now)
    then have "snmp_round now s = Inr s'"
      using run by (simp add: vpn_step_def bind_res_eq_Inr)
    then show ?thesis
      using snmp_round_ok(1,2) [OF s] by (auto simp: same_shape_def)
  next
    case (Signalled sg)
    then show ?thesis
      using s run signal_cb_ok(1,3) [where sg=sg and s=s] by (auto simp: vpn_step_def same_shape_def)
  qed
  then show "vpn_ok s'" and "cx_mode (vs_ctx s') = cx_mode (vs_ctx s)" by simp_all
qed

text \<open>What holds of a server in addition: its workers never time out and no socket is ever closed.\<close>

definition server_state :: "vpn \<Rightarrow> bool" where
  "server_state s \<longleftrightarrow> vpn_ok s \<and> socks_ok s \<and> cx_mode (vs_ctx s) = MODE_SERVER
     \<and> (\<forall>w \<in> set (vs_workers s). \<not> wk_timed w)"

lemma socks_ok_evolves:
  assumes "evolves k (vs_ctx s) (vs_ctx s')" and "ctx_ok (vs_ctx s)" and "socks_ok s"
    and "k \<in> set (vs_open s')" and "vs_open s' = vs_open s"
  shows "socks_ok s'"
  unfolding socks_ok_def
proof (intro ballI allI impI)
  fix p k' assume p: "p \<in> set (cx_paths (vs_ctx s'))" and k': "px_sock p = Some k'"
  have l: "length (cx_paths (vs_ctx s')) = 8" "length (cx_paths (vs_ctx s)) = 8"
    using assms(1,2) by (simp_all add: evolves_def ctx_ok_def)
  then obtain j where j: "j < 8" "p = cx_paths (vs_ctx s') ! j"
    using p by (auto simp: in_set_conv_nth)
  then have "px_sock p = px_sock (cx_paths (vs_ctx s) ! j) \<or> px_sock p = Some k"
    using assms(1) unfolding evolves_def by blast
  moreover have "cx_paths (vs_ctx s) ! j \<in> set (cx_paths (vs_ctx s))"
    using j(1) l by simp
  ultimately show "k' \<in> set (vs_open s')"
    using k' assms(3-5) by (auto simp: socks_ok_def)
qed

lemma server_step_ok:
  assumes lz4: "lz4_ok L" and s: "server_state s" and i: "input_ok s i"
    and run: "vpn_step tgt L key i s = Some (Inr (s', evs))"
  shows "server_state s'"
proof -
  note ok = vpn_step_ok [OF lz4 _ i run]
  have ok': "vpn_ok s'" "cx_mode (vs_ctx s') = MODE_SERVER" and inv: "vpn_ok s" "socks_ok s"
    and untimed: "\<forall>w \<in> set (vs_workers s). \<not> wk_timed w" and mode: "cx_mode (vs_ctx s) = MODE_SERVER"
    using ok s by (simp_all add: server_state_def)
  have "socks_ok s' \<and> (\<forall>w \<in> set (vs_workers s'). \<not> wk_timed w)"
  proof (cases i)
    case (Frame frame r)
    then have "rng_ok r" "tun_worker tgt L key r frame s = Some (Inr (s', evs))"
      using i run by (simp_all add: input_ok_def vpn_step_def)
    then show ?thesis
      using tun_worker_ok(2,4,5) [OF inv(1)] inv(2) untimed by (simp add: socks_ok_def)
  next
    case (Net j rv)
    then have j: "j < length (vs_workers s)" "worker_step L key j rv s = Inr (s', evs)"
      and tm: "rv = TimedOut \<longrightarrow> wk_timed (vs_workers s ! j)"
      using i run by (simp_all add: input_ok_def vpn_step_def)
    note st = worker_step_ok [OF inv(1) j(1) lz4 j(2)]
    have "rv \<noteq> TimedOut"
      using tm untimed j(1) by auto
    then have "vs_open s' = vs_open s"
      using st(3,4) by auto
    moreover have "wk_sock (vs_workers s ! j) \<in> set (vs_open s)"
      using inv(1) j(1) by (simp add: vpn_ok_def worker_ok_def)
    moreover have "ctx_ok (vs_ctx s)"
      using inv(1) by (simp add: vpn_ok_def)
    ultimately have "socks_ok s'"
      using socks_ok_evolves [OF st(2)] inv(2) by simp
    then show ?thesis
      using st(5) untimed unfolding wk_timed_def by metis
  next
    case (Hop clk N)
    then show ?thesis
      using i mode by (simp add: input_ok_def MODE_CLIENT_def MODE_SERVER_def)
  next
    case (Beat clk rs)
    then have h: "\<And>i. rng_ok (rs i)" "heartbeat L key clk rs s = Inr (s', evs)"
      using i run by (simp_all add: input_ok_def vpn_step_def)
    show ?thesis
      using heartbeat_keeps(4,5) [OF inv(1) h] inv(2) untimed by simp
  next
    case (Tick now)
    then have "snmp_round now s = Inr s'"
      using run by (simp add: vpn_step_def bind_res_eq_Inr)
    then show ?thesis
      using snmp_round_ok(4,5) [OF inv(1)] inv(2) untimed by metis
  next
    case (Signalled sg)
    then show ?thesis
      using run inv(2) untimed signal_cb_ok(2,4) [where sg=sg and s=s] by (auto simp: vpn_step_def)
  qed
  then show ?thesis
    using ok' by (simp add: server_state_def)
qed

section \<open>The initial states\<close>

text \<open>
  What a configuration must satisfy beyond the checks of the program: real port numbers, and an
  MTU for which no padding can leave the packet buffer.
\<close>

definition usable :: "target \<Rightarrow> conf \<Rightarrow> bool" where
  "usable tgt c \<longleftrightarrow> conf_ready tgt c \<and> cf_mtu c \<le> 2048
     \<and> (\<forall>p \<in> set (cf_paths c). 0 \<le> fst (port p) \<and> snd (port p) \<le> 65535)"

definition initial :: "lib \<Rightarrow> byte list \<Rightarrow> conf \<Rightarrow> vpn \<Rightarrow> bool" where
  "initial L key c s \<longleftrightarrow> (\<exists>ctx0 tun N clk1 clk2 rs now0 now tb hb evs.
     init_ctx c = Inr ctx0 \<and> (\<forall>k. wf_pbuf (fresh_buf N k)) \<and> (\<forall>i. rng_ok (rs i)) \<and> wf_pbuf tb \<and> wf_pbuf hb
     \<and> run_start L key N clk1 clk2 rs now (boot (ctx0\<lparr>cx_tun := tun\<rparr>) tb hb now0) = Inr (s, evs))"

lemma initialI:
  "init_ctx c = Inr ctx0 \<Longrightarrow> \<forall>k. wf_pbuf (fresh_buf N k) \<Longrightarrow> \<forall>i. rng_ok (rs i) \<Longrightarrow> wf_pbuf tb \<Longrightarrow> wf_pbuf hb \<Longrightarrow>
   run_start L key N clk1 clk2 rs now (boot (ctx0\<lparr>cx_tun := tun\<rparr>) tb hb now0) = Inr (s, evs) \<Longrightarrow> initial L key c s"
  unfolding initial_def by blast

definition fresh_path :: "path \<Rightarrow> bool" where
  "fresh_path p \<longleftrightarrow> path_ok p \<and> px_sock p = None \<and> px_alive p = 0"

lemma init_paths_ok:
  assumes "length pcs \<le> length ps" and "\<forall>pc \<in> set pcs. path_wf pc \<and> 0 \<le> fst (port pc) \<and> snd (port pc) \<le> 65535"
    and "\<forall>p \<in> set ps. p = zero_path_ctx"
  shows "\<exists>ps'. init_paths pcs ps = Inr ps' \<and> length ps' = length ps \<and> (\<forall>p \<in> set ps'. fresh_path p)"
  using assms
proof (induction pcs ps rule: init_paths.induct)
  case (1 ps)
  have "fresh_path zero_path_ctx"
    by (simp add: fresh_path_def path_ok_def zero_path_ctx_def token_ranged_def POOL_def)
  then show ?case
    using 1 by auto
next
  case (2 pc pcs)
  then show ?case by simp
next
  case (3 pc pcs p ps)
  obtain p' where p': "init_path pc p = Inr p'" "fresh_path p'"
    using 3(3,4) by (auto simp: init_path_def Let_def is_int32_def fresh_path_def path_ok_def zero_path_ctx_def
        token_ranged_def POOL_def path_wf_def)
  have "\<exists>ps'. init_paths pcs ps = Inr ps' \<and> length ps' = length ps \<and> (\<forall>p \<in> set ps'. fresh_path p)"
    using 3(1) 3(2-4) by simp
  then show ?case
    using p' by auto
qed

lemma init_ctx_ok:
  assumes "usable tgt c"
  obtains c0 where "init_ctx c = Inr c0" "ctx_ok c0" "\<forall>p \<in> set (cx_paths c0). fresh_path p"
    "cx_mode c0 = cf_mode c"
proof -
  have wf: "conf_wf c" and u: "1 \<le> cf_path_count c" "cf_mode c \<in> {MODE_SERVER, MODE_CLIENT}" "1024 \<le> cf_mtu c" "cf_mtu c \<le> 2048"
    "\<forall>p \<in> set (cf_paths c). 0 \<le> fst (port p) \<and> snd (port p) \<le> 65535"
    using assms by (auto simp: usable_def conf_ready_def)
  then have n: "cf_path_count c \<le> 8" "length (cf_paths c) = 8" "\<forall>p \<in> set (cf_paths c). path_wf p"
    by (auto simp: conf_wf_def)
  have "\<forall>pc \<in> set (take (nat (cf_path_count c)) (cf_paths c)). path_wf pc \<and> 0 \<le> fst (port pc) \<and> snd (port pc) \<le> 65535"
    using n(3) u(5) by (blast dest: in_set_takeD)
  moreover have "length (take (nat (cf_path_count c)) (cf_paths c)) \<le> length (cx_paths zero_ctx)"
    "\<forall>p \<in> set (cx_paths zero_ctx). p = zero_path_ctx"
    using n by (simp_all add: zero_ctx_def PATH_MAX_COUNT_def)
  ultimately obtain ps where ps: "init_paths (take (nat (cf_path_count c)) (cf_paths c)) (cx_paths zero_ctx) = Inr ps"
    "length ps = 8" "\<forall>p \<in> set ps. fresh_path p"
    using init_paths_ok [of "take (nat (cf_path_count c)) (cf_paths c)" "cx_paths zero_ctx"]
    by (auto simp: zero_ctx_def PATH_MAX_COUNT_def)
  show ?thesis
    by (rule that [OF _ _ _]) (use ps u n in \<open>auto simp: init_ctx_def ps(1) ctx_ok_def fresh_path_def\<close>)
qed

lemma boot_ok:
  assumes "ctx_ok c" and "\<forall>p \<in> set (cx_paths c). fresh_path p" and "wf_pbuf tb" "wf_pbuf hb"
  shows "vpn_ok (boot (c\<lparr>cx_tun := tun\<rparr>) tb hb now)" and "socks_ok (boot (c\<lparr>cx_tun := tun\<rparr>) tb hb now)"
  using assms by (auto simp: vpn_ok_def boot_def ctx_ok_def socks_ok_def fresh_path_def)

lemma server_workers_ok:
  assumes s: "vpn_ok s" "socks_ok s" "vs_workers s = []" and buf: "\<And>k. wf_pbuf (fresh_buf N k)"
    and run: "steps (server_workers N (vs_ctx s)) s = Inr (s', evs)"
  shows "vpn_ok s'" and "socks_ok s'" and "same_shape s s'" and "\<forall>w \<in> set (vs_workers s'). \<not> wk_timed w"
proof -
  let ?P = "\<lambda>t. vpn_ok t \<and> socks_ok t \<and> same_shape s t \<and> (\<forall>w \<in> set (vs_workers t). \<not> wk_timed w)"
  have "?P s'"
    using run
  proof (rule steps_keep [where P = ?P])
    fix f t t' evs
    assume f: "f \<in> set (server_workers N (vs_ctx s))" and t: "?P t" and step: "f t = Inr (t', evs)"
    then obtain i j where ij: "f = worker_start N i (int j) (-1)" "i < nat (cx_path_count (vs_ctx s))"
      "int j \<le> px_range (cx_paths (vs_ctx s) ! i)"
      by (auto simp: server_workers_def)
    have "i < 8"
      using index_bound [OF _ ij(2)] s(1) by (simp add: vpn_ok_def)
    then have h: "i < nat (cx_path_count (vs_ctx t))" "int j \<le> px_range (cx_paths (vs_ctx t) ! i)" "0 \<le> int j"
      "worker_start N i (int j) (-1) t = Inr (t', evs)" "vpn_ok t"
      using ij t step by (simp_all add: same_shape_def)
    note st = worker_start_ok [OF h(5,1,3,2) buf h(4)]
    have "\<forall>w \<in> set (vs_workers t'). w \<in> set (vs_workers t) \<or> \<not> wk_timed w"
      using st(5) by (auto simp: wk_timed_def)
    then show "?P t'"
      using t st(1,2,4) same_shape_trans by blast
  qed (use s in simp)
  then show "vpn_ok s'" and "socks_ok s'" and "same_shape s s'" and "\<forall>w \<in> set (vs_workers s'). \<not> wk_timed w"
    by simp_all
qed

lemma initial_ok:
  assumes u: "usable tgt c" and init: "initial L key c s"
  shows "vpn_ok s" and "cx_mode (vs_ctx s) = cf_mode c" and "cf_mode c = MODE_SERVER \<Longrightarrow> server_state s"
proof -
  obtain ctx0 tun N clk1 clk2 rs now0 now tb hb evs where start: "init_ctx c = Inr ctx0" "\<forall>k. wf_pbuf (fresh_buf N k)"
    "\<forall>i. rng_ok (rs i)" "wf_pbuf tb" "wf_pbuf hb"
    "run_start L key N clk1 clk2 rs now (boot (ctx0\<lparr>cx_tun := tun\<rparr>) tb hb now0) = Inr (s, evs)"
    using init unfolding initial_def by blast
  have start2: "\<And>k. wf_pbuf (fresh_buf N k)" and start3: "\<And>i. rng_ok (rs i)"
    using start(2,3) by simp_all
  obtain c0 where "init_ctx c = Inr c0" "ctx_ok c0" "\<forall>p \<in> set (cx_paths c0). fresh_path p" "cx_mode c0 = cf_mode c"
    by (rule init_ctx_ok [OF u])
  then have c0: "ctx_ok ctx0" "\<forall>p \<in> set (cx_paths ctx0). fresh_path p" "cx_mode ctx0 = cf_mode c"
    using start(1) by simp_all
  define b where "b = boot (ctx0\<lparr>cx_tun := tun\<rparr>) tb hb now0"
  have b: "vpn_ok b" "socks_ok b" "vs_workers b = []" "cx_mode (vs_ctx b) = cf_mode c"
    using boot_ok [OF c0(1,2) start(4,5)] c0(3) by (simp_all add: b_def) (simp_all add: boot_def)
  obtain s1 evs1 s2 evs2 s3 where run: "(if cx_mode (vs_ctx b) = MODE_CLIENT then client_hop L key N clk1 b
               else steps (server_workers N (vs_ctx b)) b) = Inr (s1, evs1)"
    "heartbeat L key clk2 rs s1 = Inr (s2, evs2)" "snmp_round now s2 = Inr s3"
    "s = s3\<lparr>vs_ctx := (vs_ctx s3)\<lparr>cx_running := 1\<rparr>\<rparr>"
    using start(6) by (auto simp: run_start_def b_def [symmetric] bind_res_eq_Inr)
  have s1: "vpn_ok s1" "same_shape b s1"
  proof -
    have "vpn_ok s1 \<and> same_shape b s1"
    proof (cases "cx_mode (vs_ctx b) = MODE_CLIENT")
      case True
      then have h: "client_hop L key N clk1 b = Inr (s1, evs1)"
        using run(1) by simp
      show ?thesis
        using client_hop_ok [OF b(1) start2 h] by simp
    next
      case False
      then have h: "steps (server_workers N (vs_ctx b)) b = Inr (s1, evs1)"
        using run(1) by simp
      show ?thesis
        using server_workers_ok [OF b(1-3) start2 h] by simp
    qed
    then show "vpn_ok s1" "same_shape b s1" by simp_all
  qed
  note h2 = heartbeat_keeps [OF s1(1) start3 run(2)]
  note h3 = snmp_round_ok [OF h2(1) run(3)]
  have s: "vpn_ok s = vpn_ok s3" "socks_ok s = socks_ok s3" "vs_workers s = vs_workers s3" "cx_mode (vs_ctx s) = cx_mode (vs_ctx s3)"
    by (simp_all add: run(4) vpn_ok_def ctx_ok_def worker_ok_def socks_ok_def)
  show "vpn_ok s"
    using h3(1) s(1) by simp
  show mode: "cx_mode (vs_ctx s) = cf_mode c"
    using s1(2) h2(2) h3(2) b(4) s(4) by (simp add: same_shape_def)
  show "server_state s" if "cf_mode c = MODE_SERVER"
  proof -
    have h: "steps (server_workers N (vs_ctx b)) b = Inr (s1, evs1)"
      using run(1) b(4) that by (simp add: MODE_CLIENT_def MODE_SERVER_def)
    note st = server_workers_ok [OF b(1-3) start2 h]
    show ?thesis
      using st h2(4,5) h3(1,4,5) s mode that by (simp add: server_state_def)
  qed
qed

end
