(* ===== verification/Safety.thy ===== *)
theory Safety
  imports System
begin

text \<open>
  What can go wrong while the process runs: the faults of every segment in a state of the
  invariant, the interpretation of the interfaces of theory Transition on the client and the
  server, and the properties of all reachable states.
\<close>

section \<open>The faults of the segments\<close>

lemma steps_runs:
  assumes "P s" and "\<And>f t. f \<in> set fs \<Longrightarrow> P t \<Longrightarrow> \<exists>t' evs. f t = Inr (t', evs) \<and> P t'"
  shows "\<exists>s' evs. steps fs s = Inr (s', evs) \<and> P s'"
  using assms
proof (induction fs arbitrary: s)
  case Nil
  then show ?case by simp
next
  case (Cons f fs)
  obtain t evs where t: "f s = Inr (t, evs)" "P t"
    using Cons.prems(2) [OF list.set_intros(1) Cons.prems(1)] by blast
  have "\<exists>s' evs. steps fs t = Inr (s', evs) \<and> P s'"
    by (rule Cons.IH [OF t(2)]) (rule Cons.prems(2) [OF list.set_intros(2)])
  then show ?case
    using t(1) by auto
qed

lemma steps_fails:
  assumes "steps fs s = Inl e" and "P s"
    and "\<And>f t t' evs. f \<in> set fs \<Longrightarrow> P t \<Longrightarrow> f t = Inr (t', evs) \<Longrightarrow> P t'"
  shows "\<exists>f \<in> set fs. \<exists>t. P t \<and> f t = Inl e"
  using assms
proof (induction fs arbitrary: s)
  case Nil
  then show ?case by simp
next
  case (Cons f fs)
  show ?case
  proof (cases "f s")
    case (Inl e')
    then show ?thesis
      using Cons.prems(1,2) by auto
  next
    case (Inr r)
    obtain t evs where t: "f s = Inr (t, evs)"
      using Inr by (cases r) auto
    then have "steps fs t = Inl e"
      using Cons.prems(1) by (auto simp: bind_res_eq_Inl)
    moreover have "P t"
      by (rule Cons.prems(3) [OF list.set_intros(1) Cons.prems(2) t])
    ultimately have "\<exists>f \<in> set fs. \<exists>t. P t \<and> f t = Inl e"
      by (rule Cons.IH) (rule Cons.prems(3) [OF list.set_intros(2)])
    then show ?thesis
      by auto
  qed
qed

lemma send_on_fails:
  assumes "send_on L key r opened p mtu buf sn = Inl e" and "rng_ok r" and "fits buf mtu"
  shows "e = AssertFailed \<and> px_sock p = None \<or> e = UseAfterFree \<and> (\<exists>k. px_sock p = Some k \<and> k \<notin> set opened)"
proof -
  obtain n e' where "encapsulate L key r (px_token p) buf mtu = Inr (n, e')"
    using encapsulate_sizes [OF assms(2,3)] by metis
  then show ?thesis
    using assms(1) by (auto simp: send_on_def Let_def split: option.splits if_splits)
qed

lemma socks_okD: "socks_ok s \<Longrightarrow> ctx_ok (vs_ctx s) \<Longrightarrow> i < 8 \<Longrightarrow> px_sock (cx_paths (vs_ctx s) ! i) = Some k \<Longrightarrow> k \<in> set (vs_open s)"
  using nth_mem [of i "cx_paths (vs_ctx s)"] by (auto simp: socks_ok_def ctx_ok_def)

text \<open>The path the sender looks at has no socket.\<close>

definition unbound_path :: "vpn \<Rightarrow> bool" where
  "unbound_path s \<longleftrightarrow> (\<exists>i < nat (cx_path_count (vs_ctx s)). px_sock (cx_paths (vs_ctx s) ! i) = None)"

text \<open>A configured path holds a socket that is closed.\<close>

definition stale_path :: "vpn \<Rightarrow> bool" where
  "stale_path s \<longleftrightarrow> (\<exists>i < nat (cx_path_count (vs_ctx s)). \<exists>k.
     px_sock (cx_paths (vs_ctx s) ! i) = Some k \<and> k \<notin> set (vs_open s))"

lemma socks_ok_not_stale: "vpn_ok s \<Longrightarrow> socks_ok s \<Longrightarrow> \<not> stale_path s"
  unfolding stale_path_def vpn_ok_def using socks_okD index_bound by blast

lemma udp_sender_fails:
  assumes s: "vpn_ok s" and r: "rng_ok r" and fit: "fits (vs_tun_buf s) (cx_mtu (vs_ctx s))"
  shows "\<exists>x. udp_sender L key r s = Some x
    \<and> (\<forall>e. x = Inl e \<longrightarrow> e = AssertFailed \<and> unbound_path s \<or> e = UseAfterFree \<and> stale_path s)"
proof -
  let ?c = "vs_ctx s"
  have c: "ctx_ok ?c" and pre: "0 < cx_path_count ?c" "vs_turn s < nat (cx_path_count ?c)"
    using s by (auto simp: vpn_ok_def ctx_ok_def)
  from udp_sender_cases [OF pre, of L key r] obtain q where q: "q < nat (cx_path_count ?c)"
    "udp_sender L key r s =
         (if px_sock (cx_paths ?c ! q) = None then Some (Inl AssertFailed)
          else if \<not> alive_in ?c q then Some (Inr (s\<lparr>vs_turn := q\<rparr>, []))
          else Some (bind_res (send_on L key r (vs_open s) (cx_paths ?c ! q) (cx_mtu ?c) (vs_tun_buf s) (cx_snmp ?c))
            (\<lambda>(e, sn, evs). Inr (s\<lparr>vs_turn := q, vs_ctx := ?c\<lparr>cx_snmp := sn\<rparr>, vs_tun_buf := e\<rparr>, evs))))"
    by (auto simp: Let_def)
  have sent: "e = AssertFailed \<and> px_sock (cx_paths ?c ! q) = None \<or> e = UseAfterFree \<and> stale_path s"
    if "send_on L key r (vs_open s) (cx_paths ?c ! q) (cx_mtu ?c) (vs_tun_buf s) (cx_snmp ?c) = Inl e" for e
    using send_on_fails [OF that r fit] q(1) unfolding stale_path_def by blast
  show ?thesis
    using q sent by (auto simp: unbound_path_def bind_res_eq_Inl)
qed

lemma tun_worker_fails:
  assumes s: "vpn_ok s" and r: "rng_ok r"
  shows "\<exists>x. tun_worker tgt L key r frame s = Some x
    \<and> (\<forall>e. x = Inl e \<longrightarrow> e = AssertFailed \<and> unbound_path s \<or> e = UseAfterFree \<and> stale_path s)"
proof (rule tun_worker_form [where tgt=tgt and L=L and key=key and r=r and frame=frame, OF s])
  fix ds b
  assume ok: "vpn_ok (s\<lparr>vs_tun_buf := b\<rparr>)" and fit: "fits b (cx_mtu (vs_ctx s))"
    and form: "tun_worker tgt L key r frame s = udp_sender L key r (s\<lparr>vs_tun_buf := b\<rparr>)"
  have "fits (vs_tun_buf (s\<lparr>vs_tun_buf := b\<rparr>)) (cx_mtu (vs_ctx (s\<lparr>vs_tun_buf := b\<rparr>)))"
    using fit by simp
  from udp_sender_fails [OF ok r this, of L key] show ?thesis
    unfolding form by (simp add: unbound_path_def stale_path_def)
qed simp

lemma worker_packet_fails:
  assumes b: "wf_pbuf (wk_buf w)" and n: "8 \<le> n" "n \<le> 2072" and lz4: "lz4_ok L"
    and run: "worker_packet L key w n tw c = Inl e"
  shows "e = AssertFailed"
proof (cases "decapsulate L key (wk_token w) (wk_buf w) n")
  case (Inl e')
  then show ?thesis
    using decapsulate_outcome [OF lz4 b n, of key "wk_token w"] run by (auto simp: worker_packet_def)
next
  case (Inr r)
  then obtain k b' where d: "decapsulate L key (wk_token w) (wk_buf w) n = Inr (k, b')"
    by (cases r) auto
  have b': "wf_pbuf b'" "k = -1 \<or> k = 0 \<or> k = uint (len b') \<and> 1 \<le> k \<and> k \<le> 2048"
    by (rule decapsulate_ok [OF lz4 b n d])+
  have "mem_read PAYLOAD_OFFSET (unat (len b')) b' = Inr (contents b')" if "0 < k"
  proof -
    have "uint (len b') \<le> 2048"
      using b'(2) that by auto
    then have "nat (uint (len b')) \<le> nat 2048"
      by (rule nat_mono)
    then have "unat (len b') \<le> 2048"
      by simp
    then show ?thesis
      by (rule mem_read_contents [OF b'(1)])
  qed
  moreover have "k < 0 \<or> k = 0 \<or> 0 < k"
    by linarith
  ultimately have "\<exists>x. worker_packet L key w n tw c = Inr x"
    unfolding worker_packet_def d bind_res_Inr Let_def prod.case by (elim disjE) simp_all
  then show ?thesis
    using run by simp
qed

lemma worker_step_fails:
  assumes s: "vpn_ok s" and j: "j < length (vs_workers s)" and lz4: "lz4_ok L"
    and run: "worker_step L key j rv s = Inl e"
  shows "e = AssertFailed"
proof -
  let ?w = "vs_workers s ! j" and ?c = "vs_ctx s"
  have c: "ctx_ok ?c" and b: "wf_pbuf (wk_buf ?w)"
    using s j by (simp_all add: vpn_ok_def worker_ok_def)
  have l: "length (received ?c rv) \<le> 2072"
    using c by (auto simp: received_def ctx_ok_def layout_defs split: recv.split)
  then obtain b1 where b1: "recv_into (received ?c rv) (wk_buf ?w) = Inr b1" "wf_pbuf b1"
    by (rule recv_into_ok [OF b])
  have "worker_round L key ?w rv ?c = Inl e"
    using run by (auto simp: worker_step_def Let_def bind_res_eq_Inl split: option.splits)
  then obtain tw where pk: "worker_packet L key (?w\<lparr>wk_addr := sender_addr ?c ?w rv, wk_buf := b1\<rparr>)
      (int (length (received ?c rv))) tw ?c = Inl e" and n: "20 \<le> length (received ?c rv)"
    by (auto simp: worker_round_def b1(1) Let_def bind_res_eq_Inl layout_defs split: if_splits recv.splits)
  show ?thesis
    by (rule worker_packet_fails [OF _ _ _ lz4 pk]) (use b1 n l in auto)
qed

lemma worker_start_runs:
  assumes s: "vpn_ok s" and i: "i < nat (cx_path_count (vs_ctx s))"
    and tok: "0 \<le> token" "token \<le> px_range (cx_paths (vs_ctx s) ! i)"
  shows "\<exists>s' evs. worker_start N i token timeout s = Inr (s', evs)"
proof -
  have c: "ctx_ok (vs_ctx s)"
    using s by (simp add: vpn_ok_def)
  have "path_ok (cx_paths (vs_ctx s) ! i)"
    by (rule path_ok_nth [OF c index_bound [OF c i]])
  then have "is_int32 (px_start (cx_paths (vs_ctx s) ! i) + token)"
    using tok by (simp add: path_ok_def is_int32_def)
  then show ?thesis
    by (auto simp: worker_start_def Let_def)
qed

lemma hop_path_runs:
  assumes s: "vpn_ok s" and i: "i < nat (cx_path_count (vs_ctx s))"
  shows "\<exists>s' evs. hop_path L key N clk i s = Inr (s', evs)"
proof -
  have c: "ctx_ok (vs_ctx s)"
    using s by (simp add: vpn_ok_def)
  have rg: "token_ranged (px_range (cx_paths (vs_ctx s) ! i))"
    using path_ok_nth [OF c index_bound [OF c i]] by (simp add: path_ok_def)
  show ?thesis
    using worker_start_runs [OF s i] token_of_bounds [OF rg] by (simp add: hop_path_def totp_step [OF rg])
qed

lemma client_hop_runs:
  assumes s: "vpn_ok s" and buf: "\<And>k. wf_pbuf (fresh_buf N k)"
  shows "\<exists>s' evs. client_hop L key N clk s = Inr (s', evs)"
proof -
  have "\<exists>s' evs. steps (map (hop_path L key N clk) [0..<nat (cx_path_count (vs_ctx s))]) s = Inr (s', evs)
    \<and> vpn_ok s' \<and> same_shape s s'"
  proof (rule steps_runs)
    fix f t
    assume f: "f \<in> set (map (hop_path L key N clk) [0..<nat (cx_path_count (vs_ctx s))])"
      and t: "vpn_ok t \<and> same_shape s t"
    then obtain i where i: "f = hop_path L key N clk i" "i < nat (cx_path_count (vs_ctx t))" "vpn_ok t"
      by (auto simp: same_shape_def)
    obtain t' evs where run: "hop_path L key N clk i t = Inr (t', evs)"
      using hop_path_runs [OF i(3,2)] by blast
    then show "\<exists>t' evs. f t = Inr (t', evs) \<and> vpn_ok t' \<and> same_shape s t'"
      using hop_path_ok [OF i(3,2) buf run] t same_shape_trans unfolding i(1) by blast
  qed (simp add: s)
  then show ?thesis
    unfolding client_hop_def by blast
qed

lemma heartbeat_path_socks:
  assumes "vpn_ok s" and "i < nat (cx_path_count (vs_ctx s))" and "rng_ok (rs i)"
    and "heartbeat_path L key clk rs i s = Inr (s', evs)"
  shows "px_sock (cx_paths (vs_ctx s') ! j) = px_sock (cx_paths (vs_ctx s) ! j)"
proof -
  have c: "ctx_ok (vs_ctx s)"
    using assms(1) by (simp add: vpn_ok_def)
  have i8: "i < length (cx_paths (vs_ctx s))"
    using index_bound [OF c assms(2)] c by (simp add: ctx_ok_def)
  show ?thesis
    by (rule heartbeat_path_form [OF assms]) (use i8 in \<open>auto simp: update_path_nth beaten_def\<close>)
qed

lemma heartbeat_path_fails:
  assumes s: "vpn_ok s" and i: "i < nat (cx_path_count (vs_ctx s))" and r: "rng_ok (rs i)"
    and run: "heartbeat_path L key clk rs i s = Inl e"
  shows "e = UseAfterFree" and "stale_path s"
proof -
  let ?c = "vs_ctx s" and ?p = "cx_paths (vs_ctx s) ! i"
  have c: "ctx_ok ?c" and b: "wf_pbuf (vs_hb_buf s)"
    using s by (simp_all add: vpn_ok_def)
  have i8: "i < 8" "cx_mtu ?c \<le> 2048"
    using index_bound [OF c i] c by (simp_all add: ctx_ok_def)
  note fill = filled_eq(1) [OF path_ok_nth [OF c i8(1)], of L key "clk i"]
  have send: "send_on L key (rs i) (vs_open s) ?p (cx_mtu ?c) ((vs_hb_buf s)\<lparr>len := 0, flag := 0\<rparr>) (cx_snmp ?c) = Inl e"
    and sock: "px_sock ?p \<noteq> None"
    using run by (auto simp: heartbeat_path_def Let_def fill bind_res_eq_Inl split: if_splits)
  have fail: "e = UseAfterFree" "\<exists>k. px_sock ?p = Some k \<and> k \<notin> set (vs_open s)"
    using send_on_fails [OF send r fits_hb [OF b i8(2)]] sock by auto
  show "e = UseAfterFree"
    by (rule fail(1))
  show "stale_path s"
    using fail(2) i unfolding stale_path_def by blast
qed

lemma heartbeat_fails:
  assumes s: "vpn_ok s" and r: "\<And>i. rng_ok (rs i)" and run: "heartbeat L key clk rs s = Inl e"
  shows "e = UseAfterFree" and "stale_path s"
proof -
  let ?P = "\<lambda>t. vpn_ok t \<and> same_shape s t \<and> (stale_path t \<longrightarrow> stale_path s)"
  have "\<exists>f \<in> set (map (heartbeat_path L key clk rs) [0..<nat (cx_path_count (vs_ctx s))]). \<exists>t. ?P t \<and> f t = Inl e"
  proof (rule steps_fails)
    show "steps (map (heartbeat_path L key clk rs) [0..<nat (cx_path_count (vs_ctx s))]) s = Inl e"
      using run by (simp add: heartbeat_def)
    fix f t t' evs
    assume f: "f \<in> set (map (heartbeat_path L key clk rs) [0..<nat (cx_path_count (vs_ctx s))])"
      and t: "?P t" and step: "f t = Inr (t', evs)"
    then obtain i where i: "f = heartbeat_path L key clk rs i" "i < nat (cx_path_count (vs_ctx t))"
      by (auto simp: same_shape_def)
    have ok: "vpn_ok t" "heartbeat_path L key clk rs i t = Inr (t', evs)"
      using t step i(1) by simp_all
    show "?P t'"
      using heartbeat_path_keeps(1-3) [OF ok(1) i(2) r ok(2)] heartbeat_path_socks [OF ok(1) i(2) r ok(2)] t
        same_shape_trans by (auto simp: stale_path_def same_shape_def)
  qed (simp add: s)
  then obtain f t where ft: "f \<in> set (map (heartbeat_path L key clk rs) [0..<nat (cx_path_count (vs_ctx s))])" "?P t" "f t = Inl e"
    by blast
  then obtain i where i: "i < nat (cx_path_count (vs_ctx s))" "f = heartbeat_path L key clk rs i"
    by auto
  have t: "?P t" "i < nat (cx_path_count (vs_ctx s))" "heartbeat_path L key clk rs i t = Inl e"
    using ft i by simp_all
  then have "vpn_ok t" "i < nat (cx_path_count (vs_ctx t))"
    by (simp_all add: same_shape_def)
  note fail = heartbeat_path_fails [OF this r t(3)]
  show "e = UseAfterFree" by (rule fail(1))
  show "stale_path s" using fail(2) t(1) by blast
qed

section \<open>The interfaces\<close>

text \<open>The outcome of a step; \<open>None\<close> among the failures is a segment that does not end.\<close>

definition step_outcome :: "target \<Rightarrow> lib \<Rightarrow> byte list \<Rightarrow> input \<Rightarrow> vpn \<Rightarrow> fault option + vpn \<times> effect list" where
  "step_outcome tgt L key i s = (case vpn_step tgt L key i s of
     None \<Rightarrow> Inl None | Some (Inl e) \<Rightarrow> Inl (Some e) | Some (Inr r) \<Rightarrow> Inr r)"

text \<open>The failures a server may run into.\<close>

definition server_tolerates :: "vpn \<Rightarrow> input \<Rightarrow> fault option \<Rightarrow> bool" where
  "server_tolerates s i e \<longleftrightarrow> (case i of
     Frame frame r \<Rightarrow> e = Some AssertFailed \<and> unbound_path s
   | Net j rv \<Rightarrow> e = Some AssertFailed
   | Tick now \<Rightarrow> e = Some DivByZero \<and> now = sn_timestamp (vs_last s)
   | _ \<Rightarrow> False)"

text \<open>And a client in addition: the use of a socket that is closed.\<close>

definition tolerates :: "vpn \<Rightarrow> input \<Rightarrow> fault option \<Rightarrow> bool" where
  "tolerates s i e \<longleftrightarrow> server_tolerates s i e
     \<or> (case i of Frame frame r \<Rightarrow> True | Beat clk rs \<Rightarrow> True | _ \<Rightarrow> False) \<and> e = Some UseAfterFree \<and> stale_path s"

lemma step_outcome_fails:
  assumes lz4: "lz4_ok L" and s: "vpn_ok s" and i: "input_ok s i" and run: "step_outcome tgt L key i s = Inl e"
  shows "tolerates s i e"
proof (cases i)
  case (Frame frame r)
  then have "rng_ok r"
    using i by (simp add: input_ok_def)
  from tun_worker_fails [OF s this, of tgt L key frame] show ?thesis
    using run Frame by (auto simp: step_outcome_def vpn_step_def tolerates_def server_tolerates_def split: sum.splits)
next
  case (Net j rv)
  then have j: "j < length (vs_workers s)"
    using i by (simp add: input_ok_def)
  obtain e' where "worker_step L key j rv s = Inl e'" "e = Some e'"
    using run Net by (auto simp: step_outcome_def vpn_step_def split: sum.splits)
  then show ?thesis
    using worker_step_fails [OF s j lz4] Net by (simp add: tolerates_def server_tolerates_def)
next
  case (Hop clk N)
  then have "\<And>k. wf_pbuf (fresh_buf N k)"
    using i by (simp add: input_ok_def)
  from client_hop_runs [OF s this, of L key clk] show ?thesis
    using run Hop by (auto simp: step_outcome_def vpn_step_def)
next
  case (Beat clk rs)
  then have r: "\<And>i. rng_ok (rs i)"
    using i by (simp add: input_ok_def)
  obtain e' where e': "heartbeat L key clk rs s = Inl e'" "e = Some e'"
    using run Beat by (auto simp: step_outcome_def vpn_step_def split: sum.splits)
  show ?thesis
    using heartbeat_fails [OF s r e'(1)] e'(2) Beat by (simp add: tolerates_def)
next
  case (Tick now)
  then show ?thesis
    using run by (auto simp: step_outcome_def vpn_step_def snmp_round_def Let_def tolerates_def server_tolerates_def split: if_splits)
next
  case (Signalled sg)
  then show ?thesis
    using run by (simp add: step_outcome_def vpn_step_def)
qed

interpretation process: safe_system
  "\<lambda>s. lz4_ok L \<and> usable tgt c \<and> initial L key c s" "vpn_trans tgt L key" "\<lambda>s. lz4_ok L \<and> vpn_ok s"
  input_ok "step_outcome tgt L key" tolerates
  for tgt L key c
proof unfold_locales
  show "lz4_ok L \<and> vpn_ok s" if "lz4_ok L \<and> usable tgt c \<and> initial L key c s" for s
    using that initial_ok(1) by blast
  show "lz4_ok L \<and> vpn_ok t" if "lz4_ok L \<and> vpn_ok s" "vpn_trans tgt L key s t" for s t
    using that vpn_step_ok(1) by (blast elim: vpn_transE)
  show "tolerates s i e" if "lz4_ok L \<and> vpn_ok s" "input_ok s i" "step_outcome tgt L key i s = Inl e" for s i e
    using that step_outcome_fails by blast
qed

interpretation serving: safe_system
  "\<lambda>s. lz4_ok L \<and> usable tgt c \<and> cf_mode c = MODE_SERVER \<and> initial L key c s" "vpn_trans tgt L key"
  "\<lambda>s. lz4_ok L \<and> server_state s"
  input_ok "step_outcome tgt L key" server_tolerates
  for tgt L key c
proof unfold_locales
  show "lz4_ok L \<and> server_state s" if "lz4_ok L \<and> usable tgt c \<and> cf_mode c = MODE_SERVER \<and> initial L key c s" for s
    using that initial_ok(3) by blast
  show "lz4_ok L \<and> server_state t" if "lz4_ok L \<and> server_state s" "vpn_trans tgt L key s t" for s t
    using that server_step_ok by (blast elim: vpn_transE)
  show "server_tolerates s i e" if s: "lz4_ok L \<and> server_state s" and i: "input_ok s i" "step_outcome tgt L key i s = Inl e" for s i e
    using step_outcome_fails [OF _ _ i] s socks_ok_not_stale by (auto simp: tolerates_def server_state_def)
qed

section \<open>There are reachable states\<close>

lemma server_workers_run:
  assumes s: "vpn_ok s" "socks_ok s" and buf: "\<And>k. wf_pbuf (fresh_buf N k)"
  shows "\<exists>s' evs. steps (server_workers N (vs_ctx s)) s = Inr (s', evs) \<and> vpn_ok s' \<and> socks_ok s' \<and> same_shape s s'"
proof (rule steps_runs)
  fix f t
  assume f: "f \<in> set (server_workers N (vs_ctx s))" and t: "vpn_ok t \<and> socks_ok t \<and> same_shape s t"
  then obtain i j where ij: "f = worker_start N i (int j) (-1)" "i < nat (cx_path_count (vs_ctx s))"
    "int j \<le> px_range (cx_paths (vs_ctx s) ! i)"
    by (auto simp: server_workers_def)
  have "i < 8"
    using index_bound [OF _ ij(2)] s(1) by (simp add: vpn_ok_def)
  then have h: "i < nat (cx_path_count (vs_ctx t))" "int j \<le> px_range (cx_paths (vs_ctx t) ! i)" "0 \<le> int j" "vpn_ok t"
    using ij t by (simp_all add: same_shape_def)
  obtain t' evs where run: "worker_start N i (int j) (-1) t = Inr (t', evs)"
    using worker_start_runs [OF h(4,1,3,2)] by blast
  note st = worker_start_ok [OF h(4,1,3,2) buf run]
  show "\<exists>t' evs. f t = Inr (t', evs) \<and> vpn_ok t' \<and> socks_ok t' \<and> same_shape s t'"
    unfolding ij(1) using run st t same_shape_trans by blast
qed (use s in simp)

lemma client_hop_run_socks:
  assumes s: "vpn_ok s" "socks_ok s" and buf: "\<And>k. wf_pbuf (fresh_buf N k)"
  shows "\<exists>s' evs. client_hop L key N clk s = Inr (s', evs) \<and> vpn_ok s' \<and> socks_ok s' \<and> same_shape s s'"
  unfolding client_hop_def
proof (rule steps_runs)
  fix f t
  assume f: "f \<in> set (map (hop_path L key N clk) [0..<nat (cx_path_count (vs_ctx s))])"
    and t: "vpn_ok t \<and> socks_ok t \<and> same_shape s t"
  then obtain i where i: "f = hop_path L key N clk i" "i < nat (cx_path_count (vs_ctx t))" "vpn_ok t"
    by (auto simp: same_shape_def)
  have c: "ctx_ok (vs_ctx t)"
    using i(3) by (simp add: vpn_ok_def)
  have rg: "token_ranged (px_range (cx_paths (vs_ctx t) ! i))"
    using path_ok_nth [OF c index_bound [OF c i(2)]] by (simp add: path_ok_def)
  let ?tok = "token_of L key (px_range (cx_paths (vs_ctx t) ! i)) (step_of (clk i) 0)"
  have tok: "0 \<le> ?tok" "?tok \<le> px_range (cx_paths (vs_ctx t) ! i)"
    using token_of_bounds [OF rg] by blast+
  obtain t' evs where run: "worker_start N i ?tok (5 * 1000) t = Inr (t', evs)"
    using worker_start_runs [OF i(3,2) tok] by blast
  note st = worker_start_ok [OF i(3,2) tok buf run]
  have "f t = Inr (t', evs)"
    using run by (simp add: i(1) hop_path_def totp_step [OF rg])
  then show "\<exists>t' evs. f t = Inr (t', evs) \<and> vpn_ok t' \<and> socks_ok t' \<and> same_shape s t'"
    using st t same_shape_trans by blast
qed (use s in simp)

lemma run_start_runs:
  assumes u: "usable tgt c" and buf: "\<And>k. wf_pbuf (fresh_buf N k)"
  obtains c0 now s evs where "init_ctx c = Inr c0"
    "run_start L key N (\<lambda>_. (0, 0)) (\<lambda>_ _. (0, 0)) (\<lambda>_. demo_rng) now
       (boot (c0\<lparr>cx_tun := 0\<rparr>) (packet_of []) (packet_of []) 0) = Inr (s, evs)"
proof -
  have pk: "wf_pbuf (packet_of [])"
    by (simp add: packet_of_fields)
  obtain c0 where c0: "init_ctx c = Inr c0" "ctx_ok c0" "\<forall>p \<in> set (cx_paths c0). fresh_path p"
    by (rule init_ctx_ok [OF u])
  define b where "b = boot (c0\<lparr>cx_tun := 0\<rparr>) (packet_of []) (packet_of []) 0"
  have b: "vpn_ok b" "socks_ok b"
    using boot_ok [OF c0(2,3) pk pk] by (simp_all add: b_def)
  have "\<exists>s1 evs1. (if cx_mode (vs_ctx b) = MODE_CLIENT then client_hop L key N (\<lambda>_. (0, 0)) b
               else steps (server_workers N (vs_ctx b)) b) = Inr (s1, evs1) \<and> vpn_ok s1 \<and> socks_ok s1"
    using client_hop_run_socks [OF b buf] server_workers_run [OF b buf] by (simp split: if_split) blast
  then obtain s1 evs1 where s1: "(if cx_mode (vs_ctx b) = MODE_CLIENT then client_hop L key N (\<lambda>_. (0, 0)) b
               else steps (server_workers N (vs_ctx b)) b) = Inr (s1, evs1)" "vpn_ok s1" "socks_ok s1"
    by blast
  have r: "\<And>i. rng_ok ((\<lambda>_ :: nat. demo_rng) i)"
    by (simp add: demo_rng_ok)
  obtain s2 evs2 where s2: "heartbeat L key (\<lambda>_ _. (0, 0)) (\<lambda>_. demo_rng) s1 = Inr (s2, evs2)"
    by (rule heartbeat_ok [where rs="\<lambda>_. demo_rng" and L=L and key=key and clk="\<lambda>_ _. (0, 0)", OF s1(2,3) r])
  define now where "now = sn_timestamp (vs_last s2) + 1"
  obtain s3 where s3: "snmp_round now s2 = Inr s3"
    by (simp add: snmp_round_def Let_def now_def)
  have "run_start L key N (\<lambda>_. (0, 0)) (\<lambda>_ _. (0, 0)) (\<lambda>_. demo_rng) now b
      = Inr (s3\<lparr>vs_ctx := (vs_ctx s3)\<lparr>cx_running := 1\<rparr>\<rparr>, evs1 @ evs2)"
    by (simp add: run_start_def s1(1) s2 s3)
  then show ?thesis
    by (rule that [OF c0(1), unfolded b_def [symmetric]])
qed

lemma initial_exists:
  assumes u: "usable tgt c"
  shows "\<exists>s. initial L key c s"
proof -
  define N where "N = \<lparr>remote_of = \<lambda>_ _. no_addr, local_of = \<lambda>_ _. no_addr, bound = \<lambda>_. True, fresh_buf = \<lambda>_. packet_of [], now_of = \<lambda>_. 0\<rparr>"
  have buf: "\<And>k. wf_pbuf (fresh_buf N k)" and pk: "wf_pbuf (packet_of [])"
    by (simp_all add: N_def packet_of_fields)
  obtain c0 now s evs where run: "init_ctx c = Inr c0" "run_start L key N (\<lambda>_. (0, 0)) (\<lambda>_ _. (0, 0)) (\<lambda>_. demo_rng) now
       (boot (c0\<lparr>cx_tun := 0\<rparr>) (packet_of []) (packet_of []) 0) = Inr (s, evs)"
    by (rule run_start_runs [OF u buf])
  have "initial L key c s"
    by (rule initialI [OF run(1) _ _ pk pk run(2)]) (simp_all add: buf demo_rng_ok)
  then show ?thesis
    by blast
qed

lemma parsed_usable:
  assumes "parse_args tgt fs args = Inr c" and "cf_mtu c \<le> 2048"
    and "\<forall>p \<in> set (cf_paths c). 0 \<le> fst (port p) \<and> snd (port p) \<le> 65535"
  shows "usable tgt c"
  using args_ready [OF assms(1)] assms(2,3) by (simp add: usable_def)

text \<open>A server with ten ports and its configuration.\<close>

definition demo_server_file :: string where
  "demo_server_file = ''mode=server'' @ [CHR 0x0A] @ ''server=::1'' @ [CHR 0x0A] @ ''port=2000-2009'' @ [CHR 0x0A]
     @ ''key=k'' @ [CHR 0x0A] @ ''mtu=1400'' @ [CHR 0x0A] @ ''address=10.0.0.1'' @ [CHR 0x0A]"

definition parsed :: "string \<Rightarrow> conf" where
  "parsed text = (case parse_args Linux (\<lambda>_. Some text) [''-c'', ''f''] of Inr c \<Rightarrow> c | Inl _ \<Rightarrow> zero_conf)"

definition runs_as :: "int \<Rightarrow> string \<Rightarrow> bool" where
  "runs_as m text \<longleftrightarrow> (case parse_args Linux (\<lambda>_. Some text) [''-c'', ''f''] of Inl _ \<Rightarrow> False
     | Inr c \<Rightarrow> cf_mode c = m \<and> cf_mtu c \<le> 2048
         \<and> list_all (\<lambda>p. 0 \<le> fst (port p) \<and> snd (port p) \<le> 65535) (cf_paths c))"

lemma demo_files_run: "runs_as MODE_SERVER demo_server_file" "runs_as MODE_CLIENT demo_file"
  by code_simp+

lemma runs_as_usable:
  assumes "runs_as m text"
  shows "usable Linux (parsed text)" and "cf_mode (parsed text) = m"
  using assms parsed_usable [of Linux "\<lambda>_. Some text" "[''-c'', ''f'']"]
  by (auto simp: runs_as_def parsed_def list_all_iff split: sum.splits)

lemma demo_reachable:
  assumes "runs_as m text"
  obtains s where "reach (initial L key (parsed text)) (vpn_trans Linux L key) s"
  using initial_exists [OF runs_as_usable(1) [OF assms]] reach.start by metis

section \<open>Properties\<close>

text \<open>
  C8. The invariant of the running process. Started with a usable configuration, the process
  only ever reaches states in which the path table has its size, every time to live lies
  between 0 and 5, every token in the port range of its path, every buffer has its size, the
  turn of the sender is a configured path, and every worker owns an open socket of its own.
\<close>

theorem reachable_states_ok:
  assumes "lz4_ok L" and "usable tgt c" and "reach (initial L key c) (vpn_trans tgt L key) s"
  shows "vpn_ok s"
proof -
  have "(\<lambda>s. lz4_ok L \<and> usable tgt c \<and> initial L key c s) = initial L key c"
    using assms(1,2) by simp
  then show ?thesis
    using process.reach_inv [of L tgt c key s] assms(3) by simp
qed

theorem reachable_states_ok_witness:
  "\<exists>s. reach (initial demo_lib [1, 2] (parsed demo_file)) (vpn_trans Linux demo_lib [1, 2]) s \<and> vpn_ok s"
  using reachable_states_ok [OF demo_lz4_ok runs_as_usable(1) [OF demo_files_run(2)]]
    demo_reachable [OF demo_files_run(2)] by metis

text \<open>
  C9. A running process never leaves its buffers and never overflows an \<^verbatim>\<open>int\<close>: in every
  reachable state every segment of every coroutine comes to its end, and the only faults are
  the two assertions (\<^verbatim>\<open>decompress\<close>, and \<^verbatim>\<open>udp_sender\<close> when some path has no socket), the
  division of \<^verbatim>\<open>snmp_logger\<close> when the clock has not moved, and, when some path holds a closed
  socket, the use of that socket.
\<close>

theorem segments_end:
  assumes "lz4_ok L" and "usable tgt c" and "reach (initial L key c) (vpn_trans tgt L key) s" and "input_ok s i"
  shows "\<exists>x. vpn_step tgt L key i s = Some x \<and> (\<forall>e. x = Inl e \<longrightarrow> tolerates s i (Some e))
    \<and> (\<forall>e. x = Inl e \<longrightarrow> e \<in> {AssertFailed, DivByZero, UseAfterFree})"
proof -
  have "(\<lambda>s. lz4_ok L \<and> usable tgt c \<and> initial L key c s) = initial L key c"
    using assms(1,2) by simp
  then have fails: "step_outcome tgt L key i s = Inl e \<Longrightarrow> tolerates s i e" for e
    using process.reach_fails [of L tgt c key s i e] assms(3,4) by simp
  have kinds: "tolerates s i e \<Longrightarrow> e \<in> Some ` {AssertFailed, DivByZero, UseAfterFree}" for e
    by (auto simp: tolerates_def server_tolerates_def split: input.splits)
  show ?thesis
  proof (cases "vpn_step tgt L key i s")
    case None
    then show ?thesis
      using kinds [OF fails [of None]] by (simp add: step_outcome_def)
  next
    case (Some x)
    have "tolerates s i (Some e)" if "x = Inl e" for e
      by (rule fails) (simp add: step_outcome_def Some that)
    then show ?thesis
      using Some kinds by blast
  qed
qed

theorem segments_end_witness:
  "\<exists>s x. reach (initial demo_lib [1, 2] (parsed demo_file)) (vpn_trans Linux demo_lib [1, 2]) s
    \<and> vpn_step Linux demo_lib [1, 2] (Beat (\<lambda>_ _. (0, 0)) (\<lambda>_. demo_rng)) s = Some x
    \<and> (\<forall>e. x = Inl e \<longrightarrow> e \<in> {AssertFailed, DivByZero, UseAfterFree})"
proof -
  obtain s where s: "reach (initial demo_lib [1, 2] (parsed demo_file)) (vpn_trans Linux demo_lib [1, 2]) s"
    by (rule demo_reachable [OF demo_files_run(2)])
  have "input_ok s (Beat (\<lambda>_ _. (0, 0)) (\<lambda>_. demo_rng))"
    by (simp add: input_ok_def demo_rng_ok)
  from segments_end [OF demo_lz4_ok runs_as_usable(1) [OF demo_files_run(2)] s this] show ?thesis
    using s by blast
qed

text \<open>
  C5. A server never closes a socket and never uses a closed one: in every reachable state of a
  server the invariant holds, no worker has a deadline and each path's socket is open, and the only faults are the assertion of \<^verbatim>\<open>decompress\<close>
  for a datagram, the assertion of \<^verbatim>\<open>udp_sender\<close> when a path could not be bound at all, and the
  division of \<^verbatim>\<open>snmp_logger\<close> when the clock has not moved. The heartbeat never fails.
\<close>

theorem server_runs_safely:
  assumes "lz4_ok L" and "usable tgt c" and "cf_mode c = MODE_SERVER"
    and "reach (initial L key c) (vpn_trans tgt L key) s" and "input_ok s i"
  shows "server_state s \<and> (\<exists>x. vpn_step tgt L key i s = Some x \<and> (\<forall>e. x = Inl e \<longrightarrow> server_tolerates s i (Some e)))"
proof
  have eq: "(\<lambda>s. lz4_ok L \<and> usable tgt c \<and> cf_mode c = MODE_SERVER \<and> initial L key c s) = initial L key c"
    using assms(1-3) by simp
  show "server_state s"
    using serving.reach_inv [of L tgt c key s] assms(4) unfolding eq by simp
  have fails: "step_outcome tgt L key i s = Inl e \<Longrightarrow> server_tolerates s i e" for e
    using serving.reach_fails [of L tgt c key s i e] assms(4,5) unfolding eq by simp
  show "\<exists>x. vpn_step tgt L key i s = Some x \<and> (\<forall>e. x = Inl e \<longrightarrow> server_tolerates s i (Some e))"
  proof (cases "vpn_step tgt L key i s")
    case None
    then show ?thesis
      using fails [of None] by (simp add: step_outcome_def server_tolerates_def split: input.splits)
  next
    case (Some x)
    have "server_tolerates s i (Some e)" if "x = Inl e" for e
      by (rule fails) (simp add: step_outcome_def Some that)
    then show ?thesis
      using Some by blast
  qed
qed

theorem server_runs_safely_witness:
  "\<exists>s s' evs. reach (initial demo_lib [1, 2] (parsed demo_server_file)) (vpn_trans Linux demo_lib [1, 2]) s
    \<and> vpn_step Linux demo_lib [1, 2] (Beat (\<lambda>_ _. (0, 0)) (\<lambda>_. demo_rng)) s = Some (Inr (s', evs))"
proof -
  let ?i = "Beat (\<lambda>_ _. (0, 0)) (\<lambda>_. demo_rng)"
  obtain s where s: "reach (initial demo_lib [1, 2] (parsed demo_server_file)) (vpn_trans Linux demo_lib [1, 2]) s"
    by (rule demo_reachable [OF demo_files_run(1)])
  have "input_ok s ?i"
    by (simp add: input_ok_def demo_rng_ok)
  from server_runs_safely [OF demo_lz4_ok runs_as_usable [OF demo_files_run(1)] s this]
  obtain x where x: "vpn_step Linux demo_lib [1, 2] ?i s = Some x" "\<forall>e. x = Inl e \<longrightarrow> server_tolerates s ?i (Some e)"
    by blast
  then have "\<exists>r. x = Inr r"
    by (cases x) (simp_all add: server_tolerates_def)
  then show ?thesis
    using s x(1) by auto
qed

text \<open>A heartbeat that gets to its end has done the part of every path.\<close>

lemma steps_all_run:
  assumes "steps fs s = Inr r" and "P s" and "f \<in> set fs"
    and "\<And>f t t' evs. f \<in> set fs \<Longrightarrow> P t \<Longrightarrow> f t = Inr (t', evs) \<Longrightarrow> P t'"
  shows "\<exists>t x. P t \<and> f t = Inr x"
  using assms
proof (induction fs arbitrary: s r)
  case Nil
  then show ?case by simp
next
  case (Cons g fs)
  obtain t evs r' where t: "g s = Inr (t, evs)" "steps fs t = Inr r'"
    using Cons.prems(1) by (auto simp: bind_res_eq_Inr)
  show ?case
  proof (cases "f = g")
    case True
    then show ?thesis
      using t(1) Cons.prems(2) by blast
  next
    case False
    have "P t"
      by (rule Cons.prems(4) [OF list.set_intros(1) Cons.prems(2) t(1)])
    moreover have "f \<in> set fs"
      using Cons.prems(3) False by simp
    ultimately show ?thesis
      by (rule Cons.IH [OF t(2)]) (rule Cons.prems(4) [OF list.set_intros(2)])
  qed
qed

lemma heartbeat_closed_socket:
  assumes s: "vpn_ok s" and mode: "cx_mode (vs_ctx s) = MODE_CLIENT" and r: "\<And>i. rng_ok (rs i)"
    and i: "i < nat (cx_path_count (vs_ctx s))" and k: "px_sock (cx_paths (vs_ctx s) ! i) = Some k" "k \<notin> set (vs_open s)"
  shows "heartbeat L key clk rs s = Inl UseAfterFree"
proof (cases "heartbeat L key clk rs s")
  case (Inl e)
  then show ?thesis
    using heartbeat_fails(1) [OF s r Inl] by simp
next
  case (Inr r')
  let ?P = "\<lambda>t. vpn_ok t \<and> same_shape s t \<and> vs_open t = vs_open s \<and> px_sock (cx_paths (vs_ctx t) ! i) = Some k"
  let ?fs = "map (heartbeat_path L key clk rs) [0..<nat (cx_path_count (vs_ctx s))]"
  have "\<exists>t x. ?P t \<and> heartbeat_path L key clk rs i t = Inr x"
  proof (rule steps_all_run)
    show "steps ?fs s = Inr r'"
      using Inr by (simp add: heartbeat_def)
    show "?P s" "heartbeat_path L key clk rs i \<in> set ?fs"
      using s k(1) i by simp_all
    fix f t t' evs
    assume f: "f \<in> set ?fs" and t: "?P t" and step: "f t = Inr (t', evs)"
    then obtain j where j: "f = heartbeat_path L key clk rs j" "j < nat (cx_path_count (vs_ctx t))"
      by (auto simp: same_shape_def)
    have ok: "vpn_ok t" "heartbeat_path L key clk rs j t = Inr (t', evs)"
      using t step j(1) by simp_all
    show "?P t'"
      using heartbeat_path_keeps(1-3) [OF ok(1) j(2) r ok(2)] heartbeat_path_socks [where j=i, OF ok(1) j(2) r ok(2)] t
        same_shape_trans by metis
  qed
  then obtain t x where t: "?P t" "heartbeat_path L key clk rs i t = Inr x"
    by blast
  have c: "ctx_ok (vs_ctx t)" and b: "wf_pbuf (vs_hb_buf t)" and mode': "cx_mode (vs_ctx t) = MODE_CLIENT"
    and it: "i < nat (cx_path_count (vs_ctx t))"
    using t(1) mode i by (simp_all add: vpn_ok_def same_shape_def)
  note fill = filled_eq(1) [OF path_ok_nth [OF c index_bound [OF c it]], of L key "clk i"]
  obtain y where "send_on L key (rs i) (vs_open t) (cx_paths (vs_ctx t) ! i) (cx_mtu (vs_ctx t))
      ((vs_hb_buf t)\<lparr>len := 0, flag := 0\<rparr>) (cx_snmp (vs_ctx t)) = Inr y"
    using t mode' by (auto simp: heartbeat_path_def Let_def fill bind_res_eq_Inr)
  then show ?thesis
    using t(1) k(2) by (auto simp: send_on_def Let_def bind_res_eq_Inr)
qed

text \<open>
  C36. A client can use a socket it has closed. \<^verbatim>\<open>udp_worker\<close> closes its socket after five
  seconds and leaves it in the path; it is replaced only when a later \<^verbatim>\<open>udplisten\<close> succeeds. If
  the path still refers to the socket of the worker that times out, the heartbeat that follows
  passes the freed socket to \<^verbatim>\<open>udpsend\<close>.
\<close>

theorem client_uses_closed_socket:
  assumes "vpn_ok s" and "cx_mode (vs_ctx s) = MODE_CLIENT" and "j < length (vs_workers s)"
    and "px_sock (cx_paths (vs_ctx s) ! wk_path (vs_workers s ! j)) = Some (wk_sock (vs_workers s ! j))"
    and "lz4_ok L" and "\<And>i. rng_ok (rs i)"
  shows "\<exists>s'. worker_step L key j TimedOut s = Inr (s', [UdpClose (wk_sock (vs_workers s ! j))])
    \<and> heartbeat L key clk rs s' = Inl UseAfterFree"
proof -
  let ?w = "vs_workers s ! j"
  define s' where "s' = s\<lparr>vs_workers := take j (vs_workers s) @ drop (Suc j) (vs_workers s),
                       vs_open := removeAll (wk_sock ?w) (vs_open s)\<rparr>"
  have w: "wf_pbuf (wk_buf ?w)" "int (wk_path ?w) < cx_path_count (vs_ctx s)"
    using assms(1,3) by (simp_all add: vpn_ok_def worker_ok_def)
  obtain b1 where b1: "recv_into [] (wk_buf ?w) = Inr b1"
    using recv_into_ok [OF w(1), of "[]"] by auto
  have run: "worker_step L key j TimedOut s = Inr (s', [UdpClose (wk_sock ?w)])"
    using assms(2) by (simp add: worker_step_def worker_round_def received_def b1 s'_def Let_def)
  have ok: "vpn_ok s'"
    by (rule worker_step_ok(1) [OF assms(1,3,5) run])
  have "heartbeat L key clk rs s' = Inl UseAfterFree"
    by (rule heartbeat_closed_socket [OF ok _ assms(6), of "wk_path ?w" "wk_sock ?w"])
      (use assms(2,4) w(2) in \<open>simp_all add: s'_def\<close>)
  then show ?thesis
    using run by blast
qed

text \<open>A client whose only worker serves the second path.\<close>

definition demo_client :: vpn where
  "demo_client = demo_vpn\<lparr>vs_workers := [\<lparr>wk_path = 1, wk_token = 0, wk_sock = 1, wk_deadline = 5000,
     wk_addr = no_addr, wk_buf = packet_of []\<rparr>]\<rparr>"

lemma demo_client_ok: "vpn_ok demo_client"
  using demo_vpn_ok(1) by (simp add: demo_client_def vpn_ok_def worker_ok_def packet_of_fields)
    (simp add: demo_vpn_def demo_ctx_def)

theorem client_uses_closed_socket_witness:
  "\<exists>s'. worker_step demo_lib [1, 2] 0 TimedOut demo_client = Inr (s', [UdpClose 1])
    \<and> heartbeat demo_lib [1, 2] (\<lambda>_ _. (0, 0)) (\<lambda>_. demo_rng) s' = Inl UseAfterFree"
proof -
  have "cx_mode (vs_ctx demo_client) = MODE_CLIENT" "0 < length (vs_workers demo_client)"
    "px_sock (cx_paths (vs_ctx demo_client) ! wk_path (vs_workers demo_client ! 0)) = Some (wk_sock (vs_workers demo_client ! 0))"
    "wk_sock (vs_workers demo_client ! 0) = 1"
    by (simp_all add: demo_client_def demo_vpn_def demo_ctx_def)
  then show ?thesis
    using client_uses_closed_socket [OF demo_client_ok, of 0 demo_lib "\<lambda>_. demo_rng" "[1, 2]" "\<lambda>_ _. (0, 0)"]
      demo_lz4_ok demo_rng_ok by simp
qed

end
