(* ===== verification/Delivery.thy ===== *)
theory Delivery
  imports Safety
begin

text \<open>
  From tun device to tun device: a packet that \<^verbatim>\<open>tun_worker\<close> reads on one side is the packet
  that \<^verbatim>\<open>udp_worker\<close> writes on the other, and the tokens of the two sides agree as long as
  their clocks do.
\<close>

section \<open>A datagram that arrives\<close>

text \<open>What a round of a worker does to the context when a packet of \<open>n\<close> bytes is accepted.\<close>

definition heard :: "worker \<Rightarrow> ipaddr \<Rightarrow> ctx \<Rightarrow> ctx \<Rightarrow> bool" where
  "heard w peer c c' \<longleftrightarrow> (\<forall>i. i \<noteq> wk_path w \<longrightarrow> cx_paths c' ! i = cx_paths c ! i)
     \<and> px_alive (cx_paths c' ! wk_path w) = 5
     \<and> px_valid (cx_paths c' ! wk_path w) = px_valid (cx_paths c ! wk_path w)
     \<and> (cx_mode c = MODE_SERVER \<longrightarrow> px_remote (cx_paths c' ! wk_path w) = peer
          \<and> px_sock (cx_paths c' ! wk_path w) = Some (wk_sock w) \<and> px_token (cx_paths c' ! wk_path w) = wk_token w)
     \<and> in_packets (cx_snmp c') = in_packets (cx_snmp c) + 1"

lemma worker_round_delivers:
  assumes lz4: "lz4_ok L" and r: "rng_ok r" and p: "fits p mtu" "flag p = 0" "uint (len p) \<le> mtu"
    and e: "encapsulate L key r (wk_token w) p mtu = Inr (n, e)"
    and c: "ctx_ok c" "mtu \<le> cx_mtu c" and w: "wf_pbuf (wk_buf w)" "wk_path w < 8"
    and tok: "cx_mode c = MODE_CLIENT \<or> wk_token w \<in> set (px_valid (cx_paths c ! wk_path w))"
  shows "\<exists>c' w'. worker_round L key w (Datagram peer (take (nat n) (pbuf_bytes e)) tw) c = Inr (c', Some w',
      if len p = 0 then [] else TunWrite (contents p) # (if tw < 0 then [Logged ''tun_write''] else []))
    \<and> heard w peer c c' \<and> in_bytes (cx_snmp c') = in_bytes (cx_snmp c) + ucast (len p)"
proof -
  let ?bs = "take (nat n) (pbuf_bytes e)"
  have size: "wf_pbuf e" "20 \<le> n" "n \<le> 20 + mtu"
    using encapsulate_sizes [OF r p(1), of L key "wk_token w"] e p(3) by auto
  have mtu: "cx_mtu c \<le> 2048" "0 \<le> cx_mtu c"
    using c(1) by (simp_all add: ctx_ok_def)
  have l: "length ?bs = nat n" "nat n \<le> nat (cx_mtu c) + 20"
    using size c(2) mtu by simp_all
  have rc: "received c (Datagram peer ?bs tw) = ?bs"
    using l by (simp add: received_def layout_defs)
  obtain b1 b2 where rt: "recv_into ?bs (wk_buf w) = Inr b1" "decapsulate L key (wk_token w) b1 n = Inr (uint (len p), b2)"
    "wf_pbuf b2" "len b2 = len p" "contents b2 = contents p"
    using roundtrip [OF lz4 r p(1,2) w(1) e refl] by blast
  have rd: "mem_read PAYLOAD_OFFSET (unat (len b2)) b2 = Inr (contents p)"
    using mem_read_contents [OF rt(3)] rt(4,5) p(1) by (simp add: fits_def)
  have cl: "length (cx_paths c) = 8"
    using c(1) by (simp add: ctx_ok_def)
  define w1 where "w1 = w\<lparr>wk_addr := sender_addr c w (Datagram peer ?bs tw), wk_buf := b1\<rparr>"
  define c1 where "c1 = c\<lparr>cx_snmp := (cx_snmp c)\<lparr>in_packets := in_packets (cx_snmp c) + 1,
      in_bytes := in_bytes (cx_snmp c) + word_of_int (uint (len p))\<rparr>\<rparr>"
  define c2 where "c2 = (if cx_mode c = MODE_SERVER
      then update_path (wk_path w) (\<lambda>p. p\<lparr>px_sock := Some (wk_sock w), px_remote := wk_addr w1, px_token := wk_token w\<rparr>) c1
      else c1)"
  define c3 where "c3 = update_path (wk_path w) (\<lambda>p. p\<lparr>px_alive := 5\<rparr>) c2"
  have pk: "worker_packet L key w1 n tw c = Inr (c3, w1\<lparr>wk_buf := b2\<rparr>,
      if len p = 0 then [] else TunWrite (contents p) # (if tw < 0 then [Logged ''tun_write''] else []))"
  proof -
    have f: "wk_token w1 = wk_token w" "wk_buf w1 = b1" "wk_path w1 = wk_path w" "wk_sock w1 = wk_sock w"
      by (simp_all add: w1_def)
    have nn: "\<not> uint (len p) < 0" "uint (len p) = 0 \<longleftrightarrow> len p = 0"
      by (simp_all add: uint_0_iff not_less)
    show ?thesis
      unfolding worker_packet_def f rt(2) bind_res_Inr prod.case Let_def nn(2) rd
      by (simp only: if_not_P [OF nn(1)] c1_def [symmetric] c2_def [symmetric] c3_def [symmetric] if_distrib)
        (simp add: c3_def c2_def c1_def f split: if_split)
  qed
  have g: "\<not> (cx_mode c \<noteq> MODE_CLIENT \<and> wk_token w \<notin> set (px_valid (cx_paths c ! wk_path w)))"
    "\<not> length ?bs < PAYLOAD_OFFSET" "int (length ?bs) = n"
    using tok size l by (auto simp: layout_defs)
  have "worker_round L key w (Datagram peer ?bs tw) c = Inr (c3, Some (w1\<lparr>wk_buf := b2\<rparr>),
      if len p = 0 then [] else TunWrite (contents p) # (if tw < 0 then [Logged ''tun_write''] else []))"
    unfolding worker_round_def rc rt(1) bind_res_Inr Let_def w1_def [symmetric] if_not_P [OF g(1)] recv.case
      if_not_P [OF g(2)] g(3) pk prod.case by (rule refl)
  moreover have "heard w peer c c3"
    using w(2) cl by (auto simp: heard_def c3_def c2_def c1_def update_path_def w1_def sender_addr_def MODE_SERVER_def MODE_CLIENT_def)
  moreover have "in_bytes (cx_snmp c3) = in_bytes (cx_snmp c) + ucast (len p)"
    by (simp add: c3_def c2_def c1_def)
  ultimately show ?thesis
    by blast
qed

section \<open>A packet that is sent\<close>

lemma tun_worker_sends:
  assumes s: "vpn_ok s" "socks_ok s" "\<not> unbound_path s" and r: "rng_ok r"
    and ds: "ds \<noteq> []" "int (length ds) \<le> cx_mtu (vs_ctx s)"
    and i: "i < nat (cx_path_count (vs_ctx s))" "alive_in (vs_ctx s) i"
  obtains q b n e s' where "q < nat (cx_path_count (vs_ctx s))" "alive_in (vs_ctx s) q" "fits b (cx_mtu (vs_ctx s))"
    "flag b = 0" "contents b = ds" "unat (len b) = length ds"
    "encapsulate L key r (px_token (cx_paths (vs_ctx s) ! q)) b (cx_mtu (vs_ctx s)) = Inr (n, e)"
    "tun_worker tgt L key r (Some (fst (tun_write tgt ds))) s = Some (Inr (s',
       [UdpSend (the (px_sock (cx_paths (vs_ctx s) ! q))) (px_remote (cx_paths (vs_ctx s) ! q)) (take (nat n) (pbuf_bytes e))]))"
proof -
  let ?c = "vs_ctx s" and ?frame = "Some (fst (tun_write tgt ds))"
  have rd: "tun_read tgt ?frame (nat (cx_mtu ?c)) = (int (length ds), ds)"
    using ds(2) by (intro tun_write_read) simp
  show ?thesis
  proof (rule tun_worker_form [where tgt=tgt and L=L and key=key and r=r and frame="?frame", OF s(1)])
    assume "fst (tun_read tgt ?frame (nat (cx_mtu ?c))) \<le> 0"
    then show ?thesis
      using rd ds(1) by simp
  next
    fix ds' b
    assume rd': "tun_read tgt ?frame (nat (cx_mtu ?c)) = (int (length ds'), ds')"
      and ok: "vpn_ok (s\<lparr>vs_tun_buf := b\<rparr>)" and fit: "fits b (cx_mtu ?c)" and b: "flag b = 0" "contents b = ds'" "unat (len b) = length ds'"
      and form: "tun_worker tgt L key r ?frame s = udp_sender L key r (s\<lparr>vs_tun_buf := b\<rparr>)"
    have ds': "ds' = ds"
      using rd rd' by simp
    let ?s = "s\<lparr>vs_tun_buf := b\<rparr>"
    have c: "ctx_ok ?c" and pre: "0 < cx_path_count (vs_ctx ?s)" "vs_turn ?s < nat (cx_path_count (vs_ctx ?s))"
      using s(1) by (auto simp: vpn_ok_def ctx_ok_def)
    obtain q where q: "q < nat (cx_path_count (vs_ctx ?s))"
      "alive_in (vs_ctx ?s) q \<longleftrightarrow> (\<exists>i < nat (cx_path_count (vs_ctx ?s)). alive_in (vs_ctx ?s) i)"
      "udp_sender L key r ?s =
         (if px_sock (cx_paths (vs_ctx ?s) ! q) = None then Some (Inl AssertFailed)
          else if \<not> alive_in (vs_ctx ?s) q then Some (Inr (?s\<lparr>vs_turn := q\<rparr>, []))
          else Some (bind_res (send_on L key r (vs_open ?s) (cx_paths (vs_ctx ?s) ! q) (cx_mtu (vs_ctx ?s)) (vs_tun_buf ?s)
              (cx_snmp (vs_ctx ?s)))
            (\<lambda>(e, sn, evs). Inr (?s\<lparr>vs_turn := q, vs_ctx := (vs_ctx ?s)\<lparr>cx_snmp := sn\<rparr>, vs_tun_buf := e\<rparr>, evs))))"
      by (rule udp_sender_form [OF pre])
    have q1: "q < nat (cx_path_count ?c)"
      using q(1) by simp
    have alive: "alive_in ?c q"
      using q(2) i by auto
    obtain k where k: "px_sock (cx_paths ?c ! q) = Some k"
      using s(3) q1 by (auto simp: unbound_path_def)
    have "k \<in> set (vs_open s)"
      by (rule socks_okD [OF s(2) c index_bound [OF c q1] k])
    from send_on_ok [where L=L and key=key and sn="cx_snmp ?c", OF r fit k this] obtain n e sn' where
      e: "encapsulate L key r (px_token (cx_paths ?c ! q)) b (cx_mtu ?c) = Inr (n, e)"
      "send_on L key r (vs_open s) (cx_paths ?c ! q) (cx_mtu ?c) b (cx_snmp ?c)
         = Inr (e, sn', [UdpSend k (px_remote (cx_paths ?c ! q)) (take (nat n) (pbuf_bytes e))])"
      by metis
    show ?thesis
      by (rule that [OF q1 alive fit b(1) _ _ e(1)])
        (use ds' b form q(3) alive k e(2) in simp_all)
  qed
qed

section \<open>Tokens on both sides\<close>

text \<open>
  The token a client hops to in half second \<open>Tc\<close> is stored by the heartbeat a server makes in
  half second \<open>Ts\<close> when the two are at most 19 half seconds apart.
\<close>

lemma token_window:
  assumes "vpn_ok s" "socks_ok s" "\<And>i. rng_ok (rs i)"
    and i: "i < nat (cx_path_count (vs_ctx s))" and clk: "\<And>j. j < 40 \<Longrightarrow> step_of (clk i j) 0 = T"
    and x: "-19 \<le> x" "x \<le> 19"
  obtains s' evs where "heartbeat L key clk rs s = Inr (s', evs)" "vpn_ok s'"
    "token_of L key (px_range (cx_paths (vs_ctx s) ! i)) (T + word_of_int x) \<in> set (px_valid (cx_paths (vs_ctx s') ! i))"
proof -
  let ?p = "cx_paths (vs_ctx s) ! i"
  obtain sn b evs s' where s': "heartbeat L key clk rs s = Inr (s', evs)" "vpn_ok s'"
    "s' = round_state s (beaten_paths L key clk (nat (cx_path_count (vs_ctx s))) (cx_paths (vs_ctx s))) sn b"
    by (rule heartbeat_ok [where rs=rs and L=L and key=key and clk=clk, OF assms(1-3)])
  have c: "ctx_ok (vs_ctx s)"
    using assms(1) by (simp add: vpn_ok_def)
  have p: "path_ok ?p"
    by (rule path_ok_nth [OF c index_bound [OF c i]])
  then have pr: "token_ranged (px_range ?p)" "length (px_valid ?p) = 40"
    by (simp_all add: path_ok_def)
  obtain v where v: "fill_slots L key (clk i) (px_range ?p) slots (px_valid ?p) = Inr v"
    "\<forall>x. -19 \<le> x \<and> x \<le> 19 \<longrightarrow> (\<exists>j < 40. token_of L key (px_range ?p) (step_of (clk i j) x) \<in> set v)"
    by (rule fill_slots_set [where L=L and key=key and clk="clk i", OF pr]) blast
  obtain j where j: "j < 40" "token_of L key (px_range ?p) (step_of (clk i j) x) \<in> set v"
    using v(2) x by blast
  have "step_of (clk i j) x = T + word_of_int x"
    using clk [OF j(1)] time_step_offset [of "fst (clk i j)" "snd (clk i j)" x] by (simp add: step_of_def)
  moreover have "px_valid (cx_paths (vs_ctx s') ! i) = v"
    using round_path [OF c i] v(1) by (simp add: s'(3) beaten_def filled_def)
  ultimately show ?thesis
    using that [OF s'(1,2)] j(2) by simp
qed

section \<open>Properties\<close>

text \<open>
  C2. The tunnel delivers. Any packet of at most MTU bytes that the tun device of one side hands
  out is sent once, on a living path; and whichever worker with that path's token receives the
  datagram on the other side, with the same key and an MTU at least as large, writes exactly
  the bytes of that packet to its tun device, gives the path five rounds to live and, on a
  server, remembers the sender's address, its own socket and the token for the answers. Padding,
  compression and the previous contents of both buffers make no difference.
\<close>

theorem tunnel_delivers:
  assumes "lz4_ok L" and "vpn_ok s" "socks_ok s" "\<not> unbound_path s" and "rng_ok r"
    and "ds \<noteq> []" and "int (length ds) \<le> cx_mtu (vs_ctx s)"
    and "i < nat (cx_path_count (vs_ctx s))" and "alive_in (vs_ctx s) i"
  shows "\<exists>q s' dg. q < nat (cx_path_count (vs_ctx s)) \<and> alive_in (vs_ctx s) q
    \<and> tun_worker tgt L key r (Some (fst (tun_write tgt ds))) s = Some (Inr (s',
        [UdpSend (the (px_sock (cx_paths (vs_ctx s) ! q))) (px_remote (cx_paths (vs_ctx s) ! q)) dg]))
    \<and> (\<forall>c w peer tw. ctx_ok c \<and> cx_mtu (vs_ctx s) \<le> cx_mtu c \<and> wf_pbuf (wk_buf w) \<and> wk_path w < 8
          \<and> wk_token w = px_token (cx_paths (vs_ctx s) ! q)
          \<and> (cx_mode c = MODE_CLIENT \<or> wk_token w \<in> set (px_valid (cx_paths c ! wk_path w)))
        \<longrightarrow> (\<exists>c' w'. worker_round L key w (Datagram peer dg tw) c = Inr (c', Some w',
              TunWrite ds # (if tw < 0 then [Logged ''tun_write''] else [])) \<and> heard w peer c c'))"
proof -
  obtain q b n e s' where q: "q < nat (cx_path_count (vs_ctx s))" "alive_in (vs_ctx s) q"
    and b: "fits b (cx_mtu (vs_ctx s))" "flag b = 0" "contents b = ds" "unat (len b) = length ds"
    and e: "encapsulate L key r (px_token (cx_paths (vs_ctx s) ! q)) b (cx_mtu (vs_ctx s)) = Inr (n, e)"
    and run: "tun_worker tgt L key r (Some (fst (tun_write tgt ds))) s = Some (Inr (s',
       [UdpSend (the (px_sock (cx_paths (vs_ctx s) ! q))) (px_remote (cx_paths (vs_ctx s) ! q)) (take (nat n) (pbuf_bytes e))]))"
    by (rule tun_worker_sends [where tgt=tgt and L=L and key=key, OF assms(2-9)])
  have lb: "uint (len b) \<le> cx_mtu (vs_ctx s)" "len b \<noteq> 0"
    using b(4) assms(6,7) by (metis uint_nat) (use b(4) assms(6) in auto)
  have "\<exists>c' w'. worker_round L key w (Datagram peer (take (nat n) (pbuf_bytes e)) tw) c = Inr (c', Some w',
              TunWrite ds # (if tw < 0 then [Logged ''tun_write''] else [])) \<and> heard w peer c c'"
    if "ctx_ok c \<and> cx_mtu (vs_ctx s) \<le> cx_mtu c \<and> wf_pbuf (wk_buf w) \<and> wk_path w < 8
          \<and> wk_token w = px_token (cx_paths (vs_ctx s) ! q)
          \<and> (cx_mode c = MODE_CLIENT \<or> wk_token w \<in> set (px_valid (cx_paths c ! wk_path w)))" for c w peer tw
  proof -
    have e': "encapsulate L key r (wk_token w) b (cx_mtu (vs_ctx s)) = Inr (n, e)"
      using e that by simp
    show ?thesis
      using worker_round_delivers [where peer=peer and tw=tw and c=c and w=w, OF assms(1,5) b(1,2) lb(1) e'] that lb(2) b(3) by auto
  qed
  then show ?thesis
    using q run by blast
qed

text \<open>The other end of \<open>demo_vpn\<close>: a server, and the worker of offset 0 of its second path.\<close>

definition demo_peer :: ctx where
  "demo_peer = demo_ctx\<lparr>cx_mode := MODE_SERVER\<rparr>"

definition demo_worker :: worker where
  "demo_worker = \<lparr>wk_path = 1, wk_token = 0, wk_sock = 9, wk_deadline = -1, wk_addr = no_addr, wk_buf = packet_of [5, 5]\<rparr>"

lemma demo_peer_ok:
  "ctx_ok demo_peer" "cx_mtu demo_peer = 1400" "wf_pbuf (wk_buf demo_worker)" "wk_path demo_worker = 1"
  "wk_token demo_worker = 0" "wk_token demo_worker \<in> set (px_valid (cx_paths demo_peer ! wk_path demo_worker))"
proof -
  show "ctx_ok demo_peer"
    using demo_vpn_ok(1) by (simp add: vpn_ok_def demo_vpn_def demo_peer_def ctx_ok_def)
qed (simp_all add: demo_peer_def demo_worker_def demo_ctx_def packet_of_fields zero_path_ctx_def POOL_def)

theorem tunnel_delivers_witness:
  "\<exists>s' k a dg c' w'. tun_worker Linux demo_lib [1, 2] demo_rng (Some [7, 8, 9]) demo_vpn = Some (Inr (s', [UdpSend k a dg]))
    \<and> worker_round demo_lib [1, 2] demo_worker (Datagram (''10.0.0.9'', 4000) dg 3) demo_peer
        = Inr (c', Some w', [TunWrite [7, 8, 9]])"
proof -
  have f: "vs_ctx demo_vpn = demo_ctx" "cx_path_count demo_ctx = 2" "cx_mtu demo_ctx = 1400"
    by (simp_all add: demo_vpn_def demo_ctx_def)
  have "px_sock (cx_paths demo_ctx ! i) \<noteq> None" if "i < 2" for i
    using that by (cases i) (simp_all add: demo_ctx_def)
  then have "\<not> unbound_path demo_vpn"
    by (auto simp: unbound_path_def f)
  moreover have "1 < nat (cx_path_count (vs_ctx demo_vpn))" "alive_in (vs_ctx demo_vpn) 1"
    by (simp_all add: f alive_in_def) (simp add: demo_ctx_def)
  moreover have "fst (tun_write Linux [7, 8, 9]) = [7, 8, 9]"
    by (simp add: tun_write_def)
  moreover have "([7, 8, 9] :: byte list) \<noteq> []" "int (length ([7, 8, 9] :: byte list)) \<le> cx_mtu (vs_ctx demo_vpn)"
    by (simp_all add: f)
  ultimately obtain q s' dg where q: "q < nat (cx_path_count (vs_ctx demo_vpn))"
    and run: "tun_worker Linux demo_lib [1, 2] demo_rng (Some [7, 8, 9]) demo_vpn = Some (Inr (s',
        [UdpSend (the (px_sock (cx_paths (vs_ctx demo_vpn) ! q))) (px_remote (cx_paths (vs_ctx demo_vpn) ! q)) dg]))"
    and recv: "\<forall>c w peer tw. ctx_ok c \<and> cx_mtu (vs_ctx demo_vpn) \<le> cx_mtu c \<and> wf_pbuf (wk_buf w) \<and> wk_path w < 8
          \<and> wk_token w = px_token (cx_paths (vs_ctx demo_vpn) ! q)
          \<and> (cx_mode c = MODE_CLIENT \<or> wk_token w \<in> set (px_valid (cx_paths c ! wk_path w)))
        \<longrightarrow> (\<exists>c' w'. worker_round demo_lib [1, 2] w (Datagram peer dg tw) c = Inr (c', Some w',
              TunWrite [7, 8, 9] # (if tw < 0 then [Logged ''tun_write''] else [])) \<and> heard w peer c c')"
    using tunnel_delivers [OF demo_lz4_ok demo_vpn_ok _ demo_rng_ok, of "[7, 8, 9]" 1 Linux "[1, 2]"] by metis
  have "px_token (cx_paths (vs_ctx demo_vpn) ! q) = 0"
    using q by (cases q) (simp_all add: f, simp_all add: demo_ctx_def zero_path_ctx_def)
  then have "ctx_ok demo_peer \<and> cx_mtu (vs_ctx demo_vpn) \<le> cx_mtu demo_peer \<and> wf_pbuf (wk_buf demo_worker) \<and> wk_path demo_worker < 8
          \<and> wk_token demo_worker = px_token (cx_paths (vs_ctx demo_vpn) ! q)
          \<and> (cx_mode demo_peer = MODE_CLIENT \<or> wk_token demo_worker \<in> set (px_valid (cx_paths demo_peer ! wk_path demo_worker)))"
    using demo_peer_ok by (simp add: f)
  from recv [rule_format, OF this, of "(''10.0.0.9'', 4000)" 3] show ?thesis
    using run by auto
qed

lemma worker_start_token:
  assumes "worker_start N i token timeout s = Inr (s', evs)" and "cx_mode (vs_ctx s) = MODE_CLIENT" and "i < length (cx_paths (vs_ctx s))"
  shows "px_token (cx_paths (vs_ctx s') ! i) = token"
  using assms by (auto simp: worker_start_def Let_def update_path_nth split: if_splits)

text \<open>
  C15. Client and server agree on the ports without talking: after a client has hopped on a path
  in half second \<open>T + x\<close> of its clock, the token it uses on that path is one that the heartbeat
  of a server whose clock shows half second \<open>T\<close> makes valid, for any difference \<open>x\<close> of at most
  19 half seconds either way, provided both use the same key and the same port range.
\<close>

theorem hop_token_accepted:
  assumes client: "vpn_ok cl" "cx_mode (vs_ctx cl) = MODE_CLIENT" "i < nat (cx_path_count (vs_ctx cl))"
    and hop: "hop_path L key N clk i cl = Inr (cl', evs)" "step_of (clk i) 0 = T + word_of_int x"
    and srv: "vpn_ok s" "socks_ok s" "\<And>i. rng_ok (rs i)" "i < nat (cx_path_count (vs_ctx s))"
      "\<And>j. j < 40 \<Longrightarrow> step_of (clks i j) 0 = T"
    and same: "px_range (cx_paths (vs_ctx cl) ! i) = px_range (cx_paths (vs_ctx s) ! i)" and x: "-19 \<le> x" "x \<le> 19"
  shows "\<exists>s' evs'. heartbeat L key clks rs s = Inr (s', evs')
    \<and> px_token (cx_paths (vs_ctx cl') ! i) \<in> set (px_valid (cx_paths (vs_ctx s') ! i))"
proof -
  have c: "ctx_ok (vs_ctx cl)"
    using client(1) by (simp add: vpn_ok_def)
  have i8: "i < length (cx_paths (vs_ctx cl))"
    using index_bound [OF c client(3)] c by (simp add: ctx_ok_def)
  have rg: "token_ranged (px_range (cx_paths (vs_ctx cl) ! i))"
    using path_ok_nth [OF c index_bound [OF c client(3)]] by (simp add: path_ok_def)
  have "worker_start N i (token_of L key (px_range (cx_paths (vs_ctx cl) ! i)) (T + word_of_int x)) (5 * 1000) cl = Inr (cl', evs)"
    using hop(1) by (simp add: hop_path_def totp_step [OF rg] hop(2))
  from worker_start_token [OF this client(2) i8]
  have tok: "px_token (cx_paths (vs_ctx cl') ! i) = token_of L key (px_range (cx_paths (vs_ctx s) ! i)) (T + word_of_int x)"
    by (simp add: same)
  obtain s' evs' where "heartbeat L key clks rs s = Inr (s', evs')" "vpn_ok s'"
    "token_of L key (px_range (cx_paths (vs_ctx s) ! i)) (T + word_of_int x) \<in> set (px_valid (cx_paths (vs_ctx s') ! i))"
    by (rule token_window [where L=L and key=key and rs=rs and clk=clks and s=s and i=i and T=T and x=x, OF srv x])
  then show ?thesis
    using tok by auto
qed

theorem hop_token_accepted_witness:
  "\<exists>cl' evs s' evs'. hop_path demo_lib [1, 2] \<lparr>remote_of = \<lambda>_ _. no_addr, local_of = \<lambda>_ _. no_addr, bound = \<lambda>_. True,
      fresh_buf = \<lambda>_. packet_of [], now_of = \<lambda>_. 0\<rparr> (\<lambda>_. (1500000002, 0)) 1 demo_vpn = Inr (cl', evs)
    \<and> heartbeat demo_lib [1, 2] (\<lambda>_ _. (1500000000, 0)) (\<lambda>_. demo_rng) demo_vpn = Inr (s', evs')
    \<and> px_token (cx_paths (vs_ctx cl') ! 1) \<in> set (px_valid (cx_paths (vs_ctx s') ! 1))"
proof -
  let ?N = "\<lparr>remote_of = \<lambda>_ _. no_addr, local_of = \<lambda>_ _. no_addr, bound = \<lambda>_. True, fresh_buf = \<lambda>_. packet_of [], now_of = \<lambda>_. 0\<rparr>"
  have f: "cx_mode (vs_ctx demo_vpn) = MODE_CLIENT" "1 < nat (cx_path_count (vs_ctx demo_vpn))"
    by (simp_all add: demo_vpn_def demo_ctx_def)
  obtain cl' evs where hop: "hop_path demo_lib [1, 2] ?N (\<lambda>_. (1500000002, 0)) 1 demo_vpn = Inr (cl', evs)"
    using hop_path_runs [OF demo_vpn_ok(1) f(2)] by metis
  have "step_of (1500000002, 0) 0 = step_of (1500000000, 0) 0 + word_of_int 4"
    by (simp add: step_of_def time_step_def TOTP_STEP_def)
  then show ?thesis
    using hop_token_accepted [where x=4 and clks="\<lambda>_ _. (1500000000, 0)" and rs="\<lambda>_. demo_rng" and clk="\<lambda>_. (1500000002, 0)"
        and T="step_of (1500000000, 0) 0", OF demo_vpn_ok(1) f hop _ demo_vpn_ok] f(2) hop demo_rng_ok by auto
qed

end
