(* ===== verification/Sessions.thy ===== *)
theory Sessions
  imports Delivery
begin

text \<open>
  What the server promises, without sockets, buffers and workers: for every path the peer that
  was heard last, the token it used and how many heartbeats its path still lives. The process
  refines this specification, and the peer of a path changes only by a datagram that passes
  the checks of \<^verbatim>\<open>decapsulate\<close> under a valid token.
\<close>

section \<open>The specification\<close>

record session =
  ss_peer :: ipaddr
  ss_token :: int
  ss_ttl :: int

definition expire :: "session \<Rightarrow> session" where
  "expire x = (if 0 < ss_ttl x then x\<lparr>ss_ttl := ss_ttl x - 1\<rparr> else x)"

text \<open>What the table hears of: a peer on a path, with its token, and a heartbeat.\<close>

datatype news = Heard nat ipaddr int | Beaten

fun hear :: "session list \<Rightarrow> news \<Rightarrow> session list" where
  "hear ss (Heard i a t) = ss[i := \<lparr>ss_peer = a, ss_token = t, ss_ttl = 5\<rparr>]"
| "hear ss Beaten = map expire ss"

definition fresh_sessions :: "session list \<Rightarrow> bool" where
  "fresh_sessions ss \<longleftrightarrow> 1 \<le> length ss \<and> length ss \<le> 8 \<and> (\<forall>x \<in> set ss. ss_ttl x = 0)"

section \<open>The sessions of a process\<close>

definition session_of :: "path \<Rightarrow> session" where
  "session_of p = \<lparr>ss_peer = px_remote p, ss_token = px_token p, ss_ttl = px_alive p\<rparr>"

definition sessions :: "vpn \<Rightarrow> session list" where
  "sessions s = map session_of (take (nat (cx_path_count (vs_ctx s))) (cx_paths (vs_ctx s)))"

lemma sessions_cong:
  "cx_path_count (vs_ctx s') = cx_path_count (vs_ctx s) \<Longrightarrow> cx_paths (vs_ctx s') = cx_paths (vs_ctx s) \<Longrightarrow>
     sessions s' = sessions s"
  by (simp add: sessions_def)

lemma length_sessions: "ctx_ok (vs_ctx s) \<Longrightarrow> length (sessions s) = nat (cx_path_count (vs_ctx s))"
  by (auto simp: sessions_def ctx_ok_def)

lemma nth_sessions:
  "ctx_ok (vs_ctx s) \<Longrightarrow> i < nat (cx_path_count (vs_ctx s)) \<Longrightarrow> sessions s ! i = session_of (cx_paths (vs_ctx s) ! i)"
  by (auto simp: sessions_def ctx_ok_def)

text \<open>What a datagram does to the path table of a server.\<close>

definition learnt :: "worker \<Rightarrow> ipaddr \<Rightarrow> path \<Rightarrow> path" where
  "learnt w a p = p\<lparr>px_sock := Some (wk_sock w), px_remote := a, px_token := wk_token w, px_alive := 5\<rparr>"

text \<open>Any process renews the path; a server also notes the sender.\<close>

definition renewed :: "ctx \<Rightarrow> worker \<Rightarrow> ipaddr \<Rightarrow> path \<Rightarrow> path" where
  "renewed c w a p = (if cx_mode c = MODE_SERVER then learnt w a p else p\<lparr>px_alive := 5\<rparr>)"

lemma worker_packet_paths:
  assumes i: "wk_path w < length (cx_paths c)" and run: "worker_packet L key w n tw c = Inr (c', w', evs)"
  obtains k b where "decapsulate L key (wk_token w) (wk_buf w) n = Inr (k, b)"
    "cx_paths c' = (if k < 0 then cx_paths c
       else (cx_paths c)[wk_path w := renewed c w (wk_addr w) (cx_paths c ! wk_path w)])"
proof -
  obtain k b where d: "decapsulate L key (wk_token w) (wk_buf w) n = Inr (k, b)"
    using run by (auto simp: worker_packet_def bind_res_eq_Inr)
  have "cx_paths c' = (if k < 0 then cx_paths c
       else (cx_paths c)[wk_path w := renewed c w (wk_addr w) (cx_paths c ! wk_path w)])"
    using run i by (auto simp: worker_packet_def d Let_def update_path_def renewed_def learnt_def bind_res_eq_Inr split: if_splits)
  then show ?thesis
    by (rule that [OF d])
qed

text \<open>Whether the process accepts what a worker received. A client does not look at the tokens.\<close>

definition accepts :: "lib \<Rightarrow> byte list \<Rightarrow> ctx \<Rightarrow> worker \<Rightarrow> recv \<Rightarrow> bool" where
  "accepts L key c w rv \<longleftrightarrow> (cx_mode c = MODE_CLIENT \<or> wk_token w \<in> set (px_valid (cx_paths c ! wk_path w)))
     \<and> 20 \<le> length (received c rv)
     \<and> (\<exists>b k b'. recv_into (received c rv) (wk_buf w) = Inr b
          \<and> decapsulate L key (wk_token w) b (int (length (received c rv))) = Inr (k, b') \<and> 0 \<le> k)"

lemma accepts_datagram: "accepts L key c w rv \<Longrightarrow> \<exists>a bs tw. rv = Datagram a bs tw"
  by (cases rv) (simp_all add: accepts_def received_def)

lemma worker_step_paths:
  assumes s: "vpn_ok s" and j: "j < length (vs_workers s)" and run: "worker_step L key j rv s = Inr (s', evs)"
  shows "cx_paths (vs_ctx s') =
    (let c = vs_ctx s; w = vs_workers s ! j in
     if accepts L key c w rv
     then (cx_paths c)[wk_path w := renewed c w (sender_addr c w rv) (cx_paths c ! wk_path w)] else cx_paths c)"
proof -
  let ?w = "vs_workers s ! j" and ?c = "vs_ctx s"
  have c: "ctx_ok ?c"
    using s by (simp add: vpn_ok_def)
  have w: "wk_path ?w < length (cx_paths ?c)"
    using worker_path_bound [OF worker_nth_ok [OF s j] c] c by (simp add: ctx_ok_def)
  obtain c1 wo where rnd: "worker_round L key ?w rv ?c = Inr (c1, wo, evs)" and c1: "vs_ctx s' = c1"
    using run by (auto simp: worker_step_def Let_def bind_res_eq_Inr split: option.splits)
  obtain b where b: "recv_into (received ?c rv) (wk_buf ?w) = Inr b"
    using rnd by (auto simp: worker_round_def bind_res_eq_Inr)
  define w1 where "w1 = ?w\<lparr>wk_addr := sender_addr ?c ?w rv, wk_buf := b\<rparr>"
  note rnd' = rnd [unfolded worker_round_def b bind_res_Inr Let_def w1_def [symmetric]]
  have f: "wk_path w1 = wk_path ?w" "wk_token w1 = wk_token ?w" "wk_sock w1 = wk_sock ?w" "wk_buf w1 = b"
    "wk_addr w1 = sender_addr ?c ?w rv"
    by (simp_all add: w1_def)
  show ?thesis
  proof (cases "(cx_mode ?c = MODE_CLIENT \<or> wk_token ?w \<in> set (px_valid (cx_paths ?c ! wk_path ?w)))
      \<and> (\<exists>a bs tw. rv = Datagram a bs tw) \<and> \<not> length (received ?c rv) < PAYLOAD_OFFSET")
    case False
    then have "c1 = ?c"
      using rnd' f by (auto split: if_splits recv.splits)
    moreover have "\<not> accepts L key ?c ?w rv"
    proof
      assume acc: "accepts L key ?c ?w rv"
      from accepts_datagram [OF this] acc False show False
        by (simp add: accepts_def layout_defs)
    qed
    ultimately show ?thesis
      using c1 by simp
  next
    case True
    then obtain a bs tw where rv: "rv = Datagram a bs tw"
      by blast
    obtain w2 where pk: "worker_packet L key w1 (int (length (received ?c rv))) tw ?c = Inr (c1, w2, evs)"
      using rnd' True rv f by (auto simp: bind_res_eq_Inr)
    have i: "wk_path w1 < length (cx_paths ?c)"
      using w f by simp
    obtain k b' where d: "decapsulate L key (wk_token ?w) b (int (length (received ?c rv))) = Inr (k, b')"
      and paths: "cx_paths c1 = (if k < 0 then cx_paths ?c
         else (cx_paths ?c)[wk_path ?w := renewed ?c w1 (wk_addr w1) (cx_paths ?c ! wk_path ?w)])"
      using worker_packet_paths [OF i pk] unfolding f by metis
    have "accepts L key ?c ?w rv \<longleftrightarrow> 0 \<le> k"
      using True d b by (auto simp: accepts_def layout_defs)
    moreover have "renewed ?c w1 a p = renewed ?c ?w a p" for a p
      by (simp add: renewed_def learnt_def f)
    ultimately show ?thesis
      using paths c1 f by (simp add: Let_def not_less [symmetric])
  qed
qed

section \<open>The process refines the specification\<close>

lemma sessions_learnt:
  assumes c: "ctx_ok (vs_ctx s)" and i: "i < nat (cx_path_count (vs_ctx s))"
    and same: "cx_path_count (vs_ctx s') = cx_path_count (vs_ctx s)"
    and paths: "cx_paths (vs_ctx s') = (cx_paths (vs_ctx s))[i := learnt w a (cx_paths (vs_ctx s) ! i)]"
  shows "sessions s' = (sessions s)[i := \<lparr>ss_peer = a, ss_token = wk_token w, ss_ttl = 5\<rparr>]"
proof -
  have "i < length (cx_paths (vs_ctx s))"
    using index_bound [OF c i] c by (simp add: ctx_ok_def)
  then show ?thesis
    using i by (simp add: sessions_def same paths take_update_swap map_update) (simp add: session_of_def learnt_def)
qed

lemma sessions_beaten:
  assumes c: "ctx_ok (vs_ctx s)"
    and s': "s' = round_state s (beaten_paths L key clk (nat (cx_path_count (vs_ctx s))) (cx_paths (vs_ctx s))) sn b"
  shows "sessions s' = map expire (sessions s)"
proof (rule nth_equalityI)
  have l: "length (cx_paths (vs_ctx s)) = 8" "nat (cx_path_count (vs_ctx s)) \<le> 8"
    using c by (auto simp: ctx_ok_def)
  then show "length (sessions s') = length (map expire (sessions s))"
    by (simp add: sessions_def s' round_state_def beaten_paths_def)
  fix i assume "i < length (sessions s')"
  then have i: "i < nat (cx_path_count (vs_ctx s))"
    by (simp add: sessions_def s' round_state_def)
  then show "sessions s' ! i = map expire (sessions s) ! i"
    using l by (simp add: sessions_def s' round_state_def beaten_paths_def)
      (simp add: session_of_def expire_def beaten_def)
qed

text \<open>What an input tells the sessions: a heartbeat, a peer when the datagram is accepted, or nothing.\<close>

definition news_of :: "lib \<Rightarrow> byte list \<Rightarrow> vpn \<Rightarrow> input \<Rightarrow> news option" where
  "news_of L key s i = (case i of
     Beat clk rs \<Rightarrow> Some Beaten
   | Net j (Datagram a bs tw) \<Rightarrow>
       if accepts L key (vs_ctx s) (vs_workers s ! j) (Datagram a bs tw)
       then Some (Heard (wk_path (vs_workers s ! j)) a (wk_token (vs_workers s ! j))) else None
   | _ \<Rightarrow> None)"

inductive vpn_news :: "target \<Rightarrow> lib \<Rightarrow> byte list \<Rightarrow> vpn \<Rightarrow> news option \<Rightarrow> vpn \<Rightarrow> bool" for tgt L key where
  told: "input_ok s i \<Longrightarrow> vpn_step tgt L key i s = Some (Inr (s', evs)) \<Longrightarrow> vpn_news tgt L key s (news_of L key s i) s'"

inductive_cases vpn_newsE: "vpn_news tgt L key s l s'"

text \<open>One step of a server and its sessions.\<close>

lemma server_step_sessions:
  assumes lz4: "lz4_ok L" and s: "server_state s" and i: "input_ok s i"
    and run: "vpn_step tgt L key i s = Some (Inr (s', evs))"
  shows "sessions s' = (case news_of L key s i of None \<Rightarrow> sessions s | Some e \<Rightarrow> hear (sessions s) e)"
proof -
  have ok: "vpn_ok s" "socks_ok s" "cx_mode (vs_ctx s) = MODE_SERVER" and c: "ctx_ok (vs_ctx s)"
    using s by (simp_all add: server_state_def vpn_ok_def)
  show ?thesis
  proof (cases i)
    case (Frame frame r)
    then have h: "rng_ok r" "tun_worker tgt L key r frame s = Some (Inr (s', evs))"
      using i run by (simp_all add: input_ok_def vpn_step_def)
    show ?thesis
      using sessions_cong [OF tun_worker_ok(6,2) [OF ok(1) h]] Frame by (simp add: news_of_def)
  next
    case (Net j rv)
    then have j: "j < length (vs_workers s)" "worker_step L key j rv s = Inr (s', evs)"
      using i run by (simp_all add: input_ok_def vpn_step_def)
    have same: "cx_path_count (vs_ctx s') = cx_path_count (vs_ctx s)"
      using worker_step_ok(2) [OF ok(1) j(1) lz4 j(2)] by (simp add: evolves_def)
    have w: "wk_path (vs_workers s ! j) < nat (cx_path_count (vs_ctx s))"
      using worker_nth_ok [OF ok(1) j(1)] by (auto simp: worker_ok_def)
    note paths = worker_step_paths [OF ok(1) j, unfolded Let_def]
    show ?thesis
    proof (cases "accepts L key (vs_ctx s) (vs_workers s ! j) rv")
      case False
      then have "news_of L key s i = None"
        by (auto simp: news_of_def Net split: recv.split)
      then show ?thesis
        using sessions_cong [OF same] paths False by simp
    next
      case True
      then obtain a bs tw where rv: "rv = Datagram a bs tw"
        using accepts_datagram by blast
      have "sender_addr (vs_ctx s) (vs_workers s ! j) rv = a" "renewed (vs_ctx s) (vs_workers s ! j) = learnt (vs_workers s ! j)"
        using ok(3) rv by (auto simp: sender_addr_def renewed_def fun_eq_iff MODE_CLIENT_def MODE_SERVER_def)
      then have "sessions s' = (sessions s)[wk_path (vs_workers s ! j) := \<lparr>ss_peer = a, ss_token = wk_token (vs_workers s ! j), ss_ttl = 5\<rparr>]"
        using sessions_learnt [OF c w same] paths True by simp
      then show ?thesis
        using True by (simp add: news_of_def Net rv)
    qed
  next
    case (Hop clk N)
    then show ?thesis
      using i ok(3) by (simp add: input_ok_def MODE_CLIENT_def MODE_SERVER_def)
  next
    case (Beat clk rs)
    then have r: "\<And>i. rng_ok (rs i)" and run': "heartbeat L key clk rs s = Inr (s', evs)"
      using i run by (simp_all add: input_ok_def vpn_step_def)
    obtain sn b where "s' = round_state s (beaten_paths L key clk (nat (cx_path_count (vs_ctx s))) (cx_paths (vs_ctx s))) sn b"
      by (rule heartbeat_ok [where rs=rs and L=L and key=key and clk=clk, OF ok(1,2) r]) (use run' in simp)
    from sessions_beaten [OF c this] show ?thesis
      using Beat by (simp add: news_of_def)
  next
    case (Tick now)
    then have "snmp_round now s = Inr s'"
      using run by (simp add: vpn_step_def bind_res_eq_Inr)
    then have "sessions s' = sessions s"
      by (auto simp: snmp_round_def Let_def sessions_def split: if_splits)
    then show ?thesis
      using Tick by (simp add: news_of_def)
  next
    case (Signalled sg)
    then have "sessions s' = sessions s"
      using run by (auto simp: vpn_step_def signal_cb_def vpn_stop_def sessions_def)
    then show ?thesis
      using Signalled by (simp add: news_of_def)
  qed
qed

lemma worker_start_silent:
  assumes "worker_start N i token timeout s = Inr (s', evs)" and "i < length (cx_paths (vs_ctx s))"
    and "\<forall>p \<in> set (cx_paths (vs_ctx s)). px_alive p = 0"
  shows "\<forall>p \<in> set (cx_paths (vs_ctx s')). px_alive p = 0"
proof -
  define silent :: "ctx \<Rightarrow> bool" where "silent c \<longleftrightarrow> (\<forall>p \<in> set (cx_paths c). px_alive p = 0)" for c
  have upd: "silent (update_path i f c)"
    if "silent c" "i < length (cx_paths c)" "px_alive (f (cx_paths c ! i)) = 0" for f c
    using that update_path_set unfolding silent_def by metis
  have n: "silent (vs_ctx s)" "px_alive (cx_paths (vs_ctx s) ! i) = 0"
    using assms(2,3) by (simp_all add: silent_def)
  have "silent (vs_ctx s')"
    using assms(1) by (auto simp: worker_start_def Let_def update_path_nth assms(2) n split: if_splits intro!: upd)
  then show ?thesis
    by (simp add: silent_def)
qed

lemma initial_sessions:
  assumes u: "usable tgt c" and mode: "cf_mode c = MODE_SERVER" and init: "initial L key c s"
  shows "fresh_sessions (sessions s)"
proof -
  obtain ctx0 tun N clk1 clk2 rs now0 now tb hb evs where start: "init_ctx c = Inr ctx0" "\<forall>k. wf_pbuf (fresh_buf N k)"
    "\<forall>i. rng_ok (rs i)" "wf_pbuf tb" "wf_pbuf hb"
    "run_start L key N clk1 clk2 rs now (boot (ctx0\<lparr>cx_tun := tun\<rparr>) tb hb now0) = Inr (s, evs)"
    using init unfolding initial_def by blast
  have buf: "\<And>k. wf_pbuf (fresh_buf N k)" and r: "\<And>i. rng_ok (rs i)"
    using start(2,3) by simp_all
  obtain c0 where "init_ctx c = Inr c0" "ctx_ok c0" "\<forall>p \<in> set (cx_paths c0). fresh_path p" "cx_mode c0 = cf_mode c"
    by (rule init_ctx_ok [OF u])
  then have c0: "ctx_ok ctx0" "\<forall>p \<in> set (cx_paths ctx0). fresh_path p" "cx_mode ctx0 = MODE_SERVER"
    using start(1) mode by simp_all
  define b where "b = boot (ctx0\<lparr>cx_tun := tun\<rparr>) tb hb now0"
  have b: "vpn_ok b" "socks_ok b" "vs_workers b = []" "cx_mode (vs_ctx b) = MODE_SERVER"
    "\<forall>p \<in> set (cx_paths (vs_ctx b)). px_alive p = 0"
    using boot_ok [OF c0(1,2) start(4,5)] c0(2,3) by (simp_all add: b_def) (simp_all add: boot_def fresh_path_def)
  obtain s1 evs1 s2 evs2 s3 where run: "steps (server_workers N (vs_ctx b)) b = Inr (s1, evs1)"
    "heartbeat L key clk2 rs s1 = Inr (s2, evs2)" "snmp_round now s2 = Inr s3"
    "s = s3\<lparr>vs_ctx := (vs_ctx s3)\<lparr>cx_running := 1\<rparr>\<rparr>"
    using start(6) b(4) by (auto simp: run_start_def b_def [symmetric] bind_res_eq_Inr MODE_SERVER_def MODE_CLIENT_def)
  let ?P = "\<lambda>t. length (cx_paths (vs_ctx t)) = 8 \<and> (\<forall>p \<in> set (cx_paths (vs_ctx t)). px_alive p = 0)"
  have s1: "?P s1"
    using run(1)
  proof (rule steps_keep [where P = ?P])
    show "?P b"
      using b by (simp add: vpn_ok_def ctx_ok_def)
    fix f t t' evs
    assume f: "f \<in> set (server_workers N (vs_ctx b))" and t: "?P t" and step: "f t = Inr (t', evs)"
    then obtain i j where ij: "f = worker_start N i (int j) (-1)" "i < nat (cx_path_count (vs_ctx b))"
      by (auto simp: server_workers_def)
    have "i < 8"
      using index_bound [OF _ ij(2)] b(1) by (simp add: vpn_ok_def)
    then have "i < length (cx_paths (vs_ctx t))" "worker_start N i (int j) (-1) t = Inr (t', evs)"
      using t step ij(1) by simp_all
    moreover have "length (cx_paths (vs_ctx t')) = length (cx_paths (vs_ctx t))"
      using \<open>worker_start N i (int j) (-1) t = Inr (t', evs)\<close> by (auto simp: worker_start_def Let_def split: if_splits)
    ultimately show "?P t'"
      using worker_start_silent t by simp
  qed
  have sh: "vpn_ok s1" "socks_ok s1" "same_shape b s1"
    by (rule server_workers_ok [OF b(1-3) buf run(1)])+
  have c1: "ctx_ok (vs_ctx s1)"
    using sh(1) by (simp add: vpn_ok_def)
  obtain sn hb' where s2: "s2 = round_state s1 (beaten_paths L key clk2 (nat (cx_path_count (vs_ctx s1))) (cx_paths (vs_ctx s1))) sn hb'"
    by (rule heartbeat_ok [where rs=rs and L=L and key=key and clk=clk2, OF sh(1,2) r]) (use run(2) in simp)
  have "\<forall>x \<in> set (sessions s1). ss_ttl x = 0"
    using s1 by (auto simp: sessions_def session_of_def dest: in_set_takeD)
  then have "\<forall>x \<in> set (sessions s2). ss_ttl x = 0" "length (sessions s2) = length (sessions s1)"
    unfolding sessions_beaten [OF c1 s2] by (auto simp: expire_def)
  moreover have "sessions s = sessions s2"
    using run(3,4) by (auto simp: snmp_round_def Let_def sessions_def split: if_splits)
  ultimately show ?thesis
    using length_sessions [OF c1] c1 by (auto simp: fresh_sessions_def ctx_ok_def)
qed

interpretation refining: simulation
  "vpn_news tgt L key" "\<lambda>s. lz4_ok L \<and> server_state s" hear sessions
  for tgt L key
proof unfold_locales
  fix s l t assume inv: "lz4_ok L \<and> server_state s" and "vpn_news tgt L key s l t"
  then obtain i evs where i: "l = news_of L key s i" "input_ok s i" "vpn_step tgt L key i s = Some (Inr (t, evs))"
    by (blast elim: vpn_newsE)
  show "lz4_ok L \<and> server_state t"
    using server_step_ok [OF _ _ i(2,3)] inv by blast
  show "sessions t = (case l of None \<Rightarrow> sessions s | Some e \<Rightarrow> hear (sessions s) e)"
    unfolding i(1) using server_step_sessions [OF _ _ i(2,3)] inv by blast
qed

text \<open>A server with one worker, which receives a heartbeat from a client.\<close>

definition demo_server :: vpn where
  "demo_server = demo_vpn\<lparr>vs_ctx := demo_peer, vs_workers := [demo_worker], vs_open := [0, 1, 9], vs_next := 10\<rparr>"

lemma demo_server_state: "server_state demo_server"
proof -
  have "vs_ctx demo_server = demo_peer" "vs_workers demo_server = [demo_worker]" "vs_open demo_server = [0, 1, 9]"
    by (simp_all add: demo_server_def)
  moreover have "cx_path_count demo_peer = 2" "cx_mode demo_peer = MODE_SERVER" "cx_paths demo_peer = cx_paths demo_ctx"
    by (simp_all add: demo_peer_def demo_ctx_def)
  moreover have "worker_ok demo_server demo_worker"
    by (simp add: worker_ok_def calculation demo_peer_ok) (simp add: demo_ctx_def demo_worker_def zero_path_ctx_def)
  ultimately show ?thesis
    using demo_vpn_ok demo_peer_ok(1)
    by (simp add: server_state_def vpn_ok_def socks_ok_def)
      (auto simp: demo_server_def demo_vpn_def demo_ctx_def demo_worker_def wk_timed_def)
qed

lemma demo_server_hears:
  obtains bs s' evs where "input_ok demo_server (Net 0 (Datagram (''10.0.0.9'', 4000) bs 0))"
    "vpn_step Linux demo_lib [1, 2] (Net 0 (Datagram (''10.0.0.9'', 4000) bs 0)) demo_server = Some (Inr (s', evs))"
    "accepts demo_lib [1, 2] demo_peer demo_worker (Datagram (''10.0.0.9'', 4000) bs 0)"
    "length (sessions demo_server) = 2" "ss_peer (sessions s' ! 1) \<noteq> ss_peer (sessions demo_server ! 1)"
proof -
  let ?a = "(''10.0.0.9'', 4000 :: int)"
  obtain n e where e: "encapsulate demo_lib [1, 2] demo_rng (wk_token demo_worker) (packet_of []) 1400 = Inr (n, e)"
    using encapsulate_sizes [where L=demo_lib and key="[1, 2]" and token="wk_token demo_worker",
        OF demo_rng_ok demo_fits [of "[]" 1400]] by auto
  let ?bs = "take (nat n) (pbuf_bytes e)"
  have p: "flag (packet_of []) = 0" "uint (len (packet_of [])) \<le> 1400"
    by (simp_all add: packet_of_def)
  obtain c' w' evs where rnd: "worker_round demo_lib [1, 2] demo_worker (Datagram ?a ?bs 0) demo_peer = Inr (c', Some w', evs)"
    and c': "heard demo_worker ?a demo_peer c'"
    using worker_round_delivers [where peer="?a" and tw=0, OF demo_lz4_ok demo_rng_ok demo_fits [of "[]" 1400] p e demo_peer_ok(1) _ demo_peer_ok(3)]
      demo_peer_ok by auto
  define s' where "s' = demo_server\<lparr>vs_ctx := c', vs_workers := [w']\<rparr>"
  have f: "vs_ctx demo_server = demo_peer" "vs_workers demo_server = [demo_worker]" "vs_ctx s' = c'"
    by (simp_all add: demo_server_def s'_def)
  have run: "vpn_step Linux demo_lib [1, 2] (Net 0 (Datagram ?a ?bs 0)) demo_server = Some (Inr (s', evs))"
    using rnd by (simp add: vpn_step_def worker_step_def f s'_def)
  have i: "input_ok demo_server (Net 0 (Datagram ?a ?bs 0))"
    by (simp add: input_ok_def f)
  have ok: "vpn_ok demo_server" "0 < length (vs_workers demo_server)"
    using demo_server_state by (simp_all add: server_state_def f)
  have step: "worker_step demo_lib [1, 2] 0 (Datagram ?a ?bs 0) demo_server = Inr (s', evs)"
    using run by (simp add: vpn_step_def)
  have n: "cx_path_count demo_peer = 2" "px_remote (cx_paths demo_peer ! 1) = no_addr" "cx_mode demo_peer = MODE_SERVER"
    by (simp_all add: demo_peer_def demo_ctx_def zero_path_ctx_def)
  have c: "ctx_ok c'" "cx_path_count c' = 2"
    using worker_step_ok(2) [OF ok demo_lz4_ok step] n by (simp_all add: f evolves_def)
  have moved: "px_remote (cx_paths c' ! 1) \<noteq> px_remote (cx_paths demo_peer ! 1)"
    using c' n by (simp add: heard_def demo_peer_ok(4) no_addr_def)
  have "accepts demo_lib [1, 2] demo_peer demo_worker (Datagram ?a ?bs 0)"
    using worker_step_paths [OF ok step] moved by (auto simp: f Let_def split: if_splits)
  moreover have "length (sessions demo_server) = 2" "sessions demo_server ! 1 = session_of (cx_paths demo_peer ! 1)"
    "sessions s' ! 1 = session_of (cx_paths c' ! 1)"
    using length_sessions [of demo_server] nth_sessions [of demo_server 1] nth_sessions [of s' 1] demo_peer_ok(1) c n
    by (simp_all add: f)
  ultimately show ?thesis
    using that [OF i run] moved by (simp add: session_of_def)
qed

section \<open>Properties\<close>

text \<open>
  C6. A server implements the session table. Seen through its sessions (per path the peer heard
  last, its token, the heartbeats left), a run of the server does to the table exactly what the
  events of the run say, in their order: a datagram that passes every check of the worker that
  receives it sets the session of the worker's path to the sender, the worker's token and five
  heartbeats to live; a heartbeat takes one from every living session; and nothing else that
  the process does (rejected datagrams, packets from the tun device, counters, signals) touches
  the table. A server starts with all its sessions dead.
\<close>

theorem server_refines_sessions:
  assumes "lz4_ok L" and "server_state s" and "trail (vpn_news tgt L key) s ns s'"
  shows "sessions s' = foldl hear (sessions s) (List.map_filter id ns)
    \<and> (\<forall>c. usable tgt c \<and> cf_mode c = MODE_SERVER \<and> initial L key c s \<longrightarrow> fresh_sessions (sessions s))"
  using refining.trail_abs [OF assms(3)] assms(1,2) initial_sessions by blast

theorem server_refines_sessions_witness:
  "\<exists>bs s'. trail (vpn_news Linux demo_lib [1, 2]) demo_server [Some (Heard 1 (''10.0.0.9'', 4000) (wk_token demo_worker))] s'
    \<and> sessions s' = (sessions demo_server)[1 := \<lparr>ss_peer = (''10.0.0.9'', 4000), ss_token = wk_token demo_worker, ss_ttl = 5\<rparr>]"
proof -
  let ?a = "(''10.0.0.9'', 4000 :: int)"
  obtain bs s' evs where run: "input_ok demo_server (Net 0 (Datagram ?a bs 0))"
    "vpn_step Linux demo_lib [1, 2] (Net 0 (Datagram ?a bs 0)) demo_server = Some (Inr (s', evs))"
    "accepts demo_lib [1, 2] demo_peer demo_worker (Datagram ?a bs 0)"
    by (rule demo_server_hears)
  have "news_of demo_lib [1, 2] demo_server (Net 0 (Datagram ?a bs 0)) = Some (Heard 1 ?a (wk_token demo_worker))"
    using run(3) by (simp add: news_of_def demo_server_def demo_peer_ok(4))
  with vpn_news.told [OF run(1,2)]
  have tr: "trail (vpn_news Linux demo_lib [1, 2]) demo_server [Some (Heard 1 ?a (wk_token demo_worker))] s'"
    by simp
  from server_refines_sessions [OF demo_lz4_ok demo_server_state tr] tr show ?thesis
    by (auto simp: map_filter_simps)
qed

text \<open>
  C7. Only a datagram that passes every check moves a server's traffic to another peer or revives
  one of its paths: when in some step of a server the peer of a path changes or its time to live
  goes up, the input was a datagram of at least 20 bytes received by a worker of that path whose
  token is valid at that moment, \<^verbatim>\<open>decapsulate\<close> accepted it under that token, and the new peer is
  its sender. (A client also sets the peer of a path when it hops, to the next port of its server.)
\<close>

theorem only_accepted_packets_move_peers:
  assumes "lz4_ok L" and "server_state s" and "input_ok s inp"
    and "vpn_step tgt L key inp s = Some (Inr (s', evs))" and "i < length (sessions s)"
    and "ss_peer (sessions s' ! i) \<noteq> ss_peer (sessions s ! i) \<or> ss_ttl (sessions s ! i) < ss_ttl (sessions s' ! i)"
  shows "\<exists>j a bs tw. inp = Net j (Datagram a bs tw) \<and> j < length (vs_workers s) \<and> wk_path (vs_workers s ! j) = i
    \<and> accepts L key (vs_ctx s) (vs_workers s ! j) (Datagram a bs tw) \<and> ss_peer (sessions s' ! i) = a"
proof (cases "news_of L key s inp")
  case None
  then show ?thesis
    using server_step_sessions [OF assms(1-4)] assms(6) by simp
next
  case (Some e)
  then have ss: "sessions s' = hear (sessions s) e"
    using server_step_sessions [OF assms(1-4)] by simp
  show ?thesis
  proof (cases e)
    case Beaten
    then show ?thesis
      using ss assms(5,6) by (simp add: expire_def split: if_splits)
  next
    case (Heard i' a t)
    then obtain j bs tw where j: "inp = Net j (Datagram a bs tw)" "i' = wk_path (vs_workers s ! j)"
      "accepts L key (vs_ctx s) (vs_workers s ! j) (Datagram a bs tw)"
      using Some by (auto simp: news_of_def split: input.splits recv.splits if_splits)
    then have "j < length (vs_workers s)"
      using assms(3) by (simp add: input_ok_def)
    then show ?thesis
      using ss j Heard assms(5,6) by (cases "i = i'") auto
  qed
qed

theorem only_accepted_packets_move_peers_witness:
  "\<exists>bs s' evs. vpn_step Linux demo_lib [1, 2] (Net 0 (Datagram (''10.0.0.9'', 4000) bs 0)) demo_server = Some (Inr (s', evs))
    \<and> accepts demo_lib [1, 2] demo_peer demo_worker (Datagram (''10.0.0.9'', 4000) bs 0)
    \<and> ss_peer (sessions s' ! 1) = (''10.0.0.9'', 4000)"
proof -
  let ?a = "(''10.0.0.9'', 4000 :: int)"
  obtain bs s' evs where run: "input_ok demo_server (Net 0 (Datagram ?a bs 0))"
    "vpn_step Linux demo_lib [1, 2] (Net 0 (Datagram ?a bs 0)) demo_server = Some (Inr (s', evs))"
    and ss: "length (sessions demo_server) = 2" "ss_peer (sessions s' ! 1) \<noteq> ss_peer (sessions demo_server ! 1)"
    by (rule demo_server_hears)
  have "1 < length (sessions demo_server)"
    using ss(1) by simp
  from only_accepted_packets_move_peers [OF demo_lz4_ok demo_server_state run this disjI1 [OF ss(2)]]
  show ?thesis
    using run(2) by (auto simp: demo_server_def)
qed

end
