(* ===== verification/Startup.thy ===== *)
theory Startup
  imports Sessions
begin

text \<open>
  Starting and stopping: \<^verbatim>\<open>vpn_init\<close>, the end of \<^verbatim>\<open>vpn_run\<close> and \<^verbatim>\<open>main\<close> with an accepted
  configuration. None of them faults or fails to return; what they do on every branch.
\<close>

section \<open>The parts of the start\<close>

lemma bind_opt_simps [simp]:
  "bind_opt None f = None" "bind_opt (Some (Inl e)) f = Some (Inl e)" "bind_opt (Some (Inr x)) f = f x"
  by (simp_all add: bind_opt_def)

lemma script_runs:
  assumes "\<forall>c \<in> set cs. length c < cap"
  shows "\<exists>r n. script cap sys cs tr = Inr (r, tr @ take n cs)"
  using script_runs_prefix [OF assms, of sys tr] by metis

lemma route_runs:
  assumes "length tunif < 16"
  shows "\<exists>r tr'. route tgt sys resolve tunif host ipv4 ipv6 tr = Some (Inr (r, tr'))"
proof (cases "\<not> ipv4 \<or> (\<exists>ip. resolve host = Some ip)")
  case True
  then obtain ip where ip: "\<not> ipv4 \<or> resolve host = Some ip"
    by blast
  show ?thesis
    using script_runs [OF route_all_fit [OF assms]] route_script [of ipv4 resolve host ip tgt sys tunif ipv6 tr, OF ip]
    unfolding route_all_cmds_def by metis
next
  case False
  then show ?thesis
    by (cases "resolve host") (simp_all add: route_def)
qed

lemma init_routes_run:
  assumes "length (cstr (cf_tunif c)) < 16"
  shows "\<exists>tr lg. init_routes E c ps su = Some (Inr (su\<lparr>su_trace := tr, su_log := lg\<rparr>))"
proof (induction ps arbitrary: su)
  case Nil
  show ?case
    by (intro exI [of _ "su_trace su"] exI [of _ "su_log su"]) simp
next
  case (Cons p ps)
  obtain r tr where run: "route (se_target E) (se_sys E) (se_resolve E) (cstr (cf_tunif c)) (cstr (px_server p))
         (cstr (cf_address c) \<noteq> []) (cstr (cf_address6 c) \<noteq> []) (su_trace su) = Some (Inr (r, tr))"
    using route_runs [OF assms] by metis
  obtain tr' lg where rest: "init_routes E c ps (log_if (r \<noteq> 0) ''failed to setup route'' (su\<lparr>su_trace := tr\<rparr>))
    = Some (Inr ((log_if (r \<noteq> 0) ''failed to setup route'' (su\<lparr>su_trace := tr\<rparr>))\<lparr>su_trace := tr', su_log := lg\<rparr>))"
    using Cons.IH by blast
  show ?case
    by (intro exI [of _ tr'] exI [of _ lg]) (simp add: bind_opt_def run rest, simp add: log_if_def)
qed

lemma usable_sizes:
  assumes "usable tgt c"
  shows "length (cstr (cf_tunif c)) < 16" "length (cstr (cf_address c)) < 20"
    "length (cstr (cf_peer c)) < 20" "length (cstr (cf_address6 c)) < 64" "\<bar>cf_mtu c\<bar> \<le> 2 ^ 31"
  using assms by (auto simp: usable_def conf_ready_def conf_wf_def length_cstr)

lemma ifconfig_runs:
  assumes "usable tgt c"
  shows "\<exists>r tr. run_script (ifconfig t sys (cstr (cf_tunif c)) (cf_mtu c) (cstr (cf_address c)) (cstr (cf_peer c))
      (cstr (cf_address6 c))) su = Inr (r, su\<lparr>su_trace := tr\<rparr>)"
proof -
  note fit = ifconfig_fit [where tgt=t, OF usable_sizes [OF assms]]
  show ?thesis
    using script_runs [where sys=sys and tr="su_trace su", OF fit] by (auto simp: run_script_def ifconfig_def)
qed

lemma nat_runs:
  assumes "usable tgt c"
  shows "\<exists>r n. run_script (nat_rules sys (cstr (cf_address c)) on) su = Inr (r, su\<lparr>su_trace := su_trace su @
      take n (if on then nat_on_cmds (cstr (cf_address c)) else nat_off_cmds (cstr (cf_address c)))\<rparr>)"
proof -
  have "\<forall>x \<in> set (if on then nat_on_cmds (cstr (cf_address c)) else nat_off_cmds (cstr (cf_address c))). length x < 200"
    using nat_fit [OF usable_sizes(2) [OF assms]] by auto
  from script_runs [OF this, of sys "su_trace su"] show ?thesis
    by (auto simp: run_script_def nat_rules_def)
qed

section \<open>\<open>vpn_init\<close>\<close>

text \<open>The descriptor that a failing \<^verbatim>\<open>tun_new\<close> has opened and closed again.\<close>

definition given_up :: "sysenv \<Rightarrow> conf \<Rightarrow> int list" where
  "given_up E c = (if 0 \<le> tun_of E c \<or> se_open E < 0 \<or> se_target E = Darwin \<and> scan_utun (cstr (cf_tunif c)) = None
     then [] else [se_open E])"

lemma tun_new_closed:
  assumes "-1 \<le> se_open E"
  shows "snd (tun_new E (cstr (cf_tunif c))) = given_up E c"
  using assms by (auto simp: tun_new_def given_up_def tun_new_linux_def tun_new_darwin_def Let_def
      split: target.split option.split)

text \<open>When \<^verbatim>\<open>vpn_init\<close> succeeds.\<close>

definition can_start :: "sysenv \<Rightarrow> conf \<Rightarrow> bool" where
  "can_start E c \<longleftrightarrow> se_sodium E \<noteq> -1 \<and> 0 \<le> tun_of E c
     \<and> (cf_mode c = MODE_CLIENT \<or> se_target E = Linux)"

definition creds_after :: "sysenv \<Rightarrow> conf \<Rightarrow> creds \<Rightarrow> creds" where
  "creds_after E c cr = (if cstr (cf_user c) = [] then cr
     else snd (runas (se_getpwnam E) (se_may_setegid E) (se_may_seteuid E) (cstr (cf_user c)) cr))"

definition started_with :: "sysenv \<Rightarrow> lib \<Rightarrow> conf \<Rightarrow> boot_state \<Rightarrow> boot_state \<Rightarrow> bool" where
  "started_with E L c su su' \<longleftrightarrow> (\<exists>ctx0. init_ctx c = Inr ctx0
     \<and> su_ctx su' = ctx0\<lparr>cx_tun := tun_of E c\<rparr>)
     \<and> su_key su' = generichash L 32 (to_bytes (cstr (cf_key c))) [] \<and> su_creds su' = creds_after E c (su_creds su)"

lemma vpn_init_runs:
  assumes u: "usable tgt c"
  shows "\<exists>r su'. vpn_init E L c su = Some (Inr (r, su'))
    \<and> (if can_start E c then r = 0 \<and> started_with E L c su su' else r = -1 \<and> su_creds su' = su_creds su)
    \<and> (se_sodium E = -1 \<or> tun_of E c < 0 \<longrightarrow> su_trace su' = su_trace su)
    \<and> (-1 \<le> se_open E \<and> se_sodium E \<noteq> -1 \<longrightarrow> su_closed su' = su_closed su @ given_up E c)"
proof -
  obtain c0 where c0: "init_ctx c = Inr c0" "ctx_ok c0" "cx_mode c0 = cf_mode c"
    by (rule init_ctx_ok [OF u])
  have mtu: "cx_mtu c0 = cf_mtu c"
    using c0(1) by (auto simp: init_ctx_def bind_res_eq_Inr)
  have mode: "cf_mode c = MODE_CLIENT \<or> cf_mode c \<noteq> MODE_CLIENT"
    by blast
  obtain tun cl where tn: "tun_new E (cstr (cf_tunif c)) = (tun, cl)"
    by fastforce
  have cl: "-1 \<le> se_open E \<Longrightarrow> cl = given_up E c"
    using tun_new_closed [of E c] by (simp add: tn)
  define hello where "hello = log_if True (starting_line (cf_mode c)) (su\<lparr>su_ctx := c0\<rparr>)"
  define su1 where "su1 = log_if True (using_line (cstr (cf_tunif c))) (hello\<lparr>su_key := generichash L 32 (to_bytes (cstr (cf_key c))) [],
    su_ctx := c0\<lparr>cx_tun := tun\<rparr>, su_closed := su_closed hello @ cl\<rparr>)"
  consider "se_sodium E = -1" | "se_sodium E \<noteq> -1" "tun < 0" | "se_sodium E \<noteq> -1" "\<not> tun < 0"
    by blast
  then show ?thesis
  proof cases
    case 1
    then show ?thesis
      by (simp add: vpn_init_def c0(1) crypto_init_def can_start_def Let_def log_if_def)
  next
    case 2
    then show ?thesis
      using cl by (simp add: vpn_init_def c0(1) crypto_init_def can_start_def Let_def log_if_def tn)
  next
    case 3
    obtain r tr where ifc: "run_script (ifconfig (se_target E) (se_sys E) (cstr (cf_tunif c)) (cx_mtu c0)
        (cstr (cf_address c)) (cstr (cf_peer c)) (cstr (cf_address6 c))) su1 = Inr (r, su1\<lparr>su_trace := tr\<rparr>)"
      using ifconfig_runs [OF u] unfolding mtu by blast
    define su3 where "su3 = log_if (r \<noteq> 0) ''failed to add address on tun device'' (su1\<lparr>su_trace := tr\<rparr>)"
    have su3: "su_ctx su3 = c0\<lparr>cx_tun := tun\<rparr>" "su_key su3 = generichash L 32 (to_bytes (cstr (cf_key c))) []"
      "su_creds su3 = su_creds su" "su_closed su3 = su_closed su @ cl"
      by (simp_all add: su3_def log_if_def su1_def hello_def)
    show ?thesis
    proof (cases "cf_mode c \<noteq> MODE_CLIENT \<and> se_target E = Darwin")
      case True
      then show ?thesis
        using 3 ifc su3 cl by (simp add: vpn_init_def c0(1,3) crypto_init_def can_start_def Let_def tn hello_def [symmetric]
            su1_def [symmetric] su3_def [symmetric]) (simp add: log_if_def)
    next
      case False
      define net where "net = (if cx_mode c0 = MODE_CLIENT
                        then if cf_route c \<noteq> 0
                             then init_routes E c (take (nat (cx_path_count c0)) (cx_paths c0)) su3
                             else Some (Inr su3)
                        else if cf_nat c \<noteq> 0 \<and> cstr (cf_address c) \<noteq> []
                             then Some (bind_res (run_script (nat_rules (se_sys E) (cstr (cf_address c)) True) su3)
                               (\<lambda>(r, su). Inr (log_if (r \<noteq> 0) ''failed to turn on NAT'' su)))
                             else Some (Inr su3))"
      have "\<exists>tr lg. net = Some (Inr (su3\<lparr>su_trace := tr, su_log := lg\<rparr>))"
      proof -
        have stay: "\<exists>tr lg. Some (Inr su3) = Some (Inr (su3\<lparr>su_trace := tr, su_log := lg\<rparr>))"
          by (intro exI [of _ "su_trace su3"] exI [of _ "su_log su3"]) simp
        have routes: "\<exists>tr lg. init_routes E c (take (nat (cx_path_count c0)) (cx_paths c0)) su3 = Some (Inr (su3\<lparr>su_trace := tr, su_log := lg\<rparr>))"
          by (rule init_routes_run [OF usable_sizes(1) [OF u]])
        obtain r' n where "run_script (nat_rules (se_sys E) (cstr (cf_address c)) True) su3
            = Inr (r', su3\<lparr>su_trace := su_trace su3 @ take n (nat_on_cmds (cstr (cf_address c)))\<rparr>)"
          using nat_runs [where on=True and sys="se_sys E" and su=su3, OF u] by auto
        then have rules: "\<exists>tr lg. Some (bind_res (run_script (nat_rules (se_sys E) (cstr (cf_address c)) True) su3)
            (\<lambda>(r, su). Inr (log_if (r \<noteq> 0) ''failed to turn on NAT'' su))) = Some (Inr (su3\<lparr>su_trace := tr, su_log := lg\<rparr>))"
          by (intro exI [of _ "su_trace su3 @ take n (nat_on_cmds (cstr (cf_address c)))"]
              exI [of _ "su_log (log_if (r' \<noteq> 0) ''failed to turn on NAT'' su3)"]) (simp add: log_if_def)
        show ?thesis
          unfolding net_def
          by (cases "cx_mode c0 = MODE_CLIENT"; cases "cf_route c \<noteq> 0"; cases "cf_nat c \<noteq> 0 \<and> cstr (cf_address c) \<noteq> []")
            (simp_all only: if_True if_False simp_thms stay routes rules)
      qed
      then obtain tr' lg where net: "net = Some (Inr (su3\<lparr>su_trace := tr', su_log := lg\<rparr>))"
        by blast
      let ?su4 = "su3\<lparr>su_trace := tr', su_log := lg\<rparr>"
      let ?su5 = "if cstr (cf_user c) \<noteq> [] then drop_privileges E (cstr (cf_user c)) ?su4 else ?su4"
      have "vpn_init E L c su = bind_opt net (\<lambda>su4. Some (Inr (0,
          if cstr (cf_user c) \<noteq> [] then drop_privileges E (cstr (cf_user c)) su4 else su4)))"
        using 3 False ifc unfolding net_def
        by (simp add: vpn_init_def c0(1,3) crypto_init_def Let_def tn hello_def [symmetric] su1_def [symmetric] su3_def [symmetric]) blast
      then have run: "vpn_init E L c su = Some (Inr (0, ?su5))"
        by (simp add: net)
      have "started_with E L c su ?su5"
        using c0(1) su3 by (auto simp: started_with_def drop_privileges_def creds_after_def log_if_def tn split: prod.split)
      moreover have "su_closed ?su5 = su_closed su @ cl"
        using su3(4) by (auto simp: drop_privileges_def log_if_def split: prod.split)
      ultimately show ?thesis
        using run 3 False cl by (auto simp: can_start_def tn) (metis target.exhaust)+
    qed
  qed
qed

section \<open>Properties\<close>

text \<open>
  C30. \<^verbatim>\<open>vpn_init\<close> with a usable configuration always returns, without a fault and whatever the
  commands it runs return: 0 exactly when libsodium initialises, the tun device opens and the
  process is a client or runs on Linux, and then the context is the one of the configuration,
  the static key is the hash of the configured key and the credentials are those after \<^verbatim>\<open>runas\<close>;
  otherwise -1 with the credentials as they were, and when libsodium or the tun device failed no
  command was run. The only descriptor that is closed on the way is that of a tun device that
  could not be set up.
\<close>

theorem vpn_init_outcome:
  assumes "usable tgt c"
  shows "\<exists>r su'. vpn_init E L c su = Some (Inr (r, su'))
    \<and> (if can_start E c then r = 0 \<and> started_with E L c su su' else r = -1 \<and> su_creds su' = su_creds su)
    \<and> (se_sodium E = -1 \<or> tun_of E c < 0 \<longrightarrow> su_trace su' = su_trace su)
    \<and> (-1 \<le> se_open E \<and> se_sodium E \<noteq> -1 \<longrightarrow> su_closed su' = su_closed su @ given_up E c)"
  by (rule vpn_init_runs [OF assms])

text \<open>A system in which every call succeeds and only the user \<^verbatim>\<open>nobody\<close> exists.\<close>

definition demo_env :: sysenv where
  "demo_env = \<lparr>se_target = Linux, se_sys = \<lambda>_ _. 0, se_resolve = \<lambda>_. Some 0xC6336407, se_sodium = 0,
     se_open = 5, se_ioctl = \<lambda>_. 0, se_connect = \<lambda>_. 0, se_getpwnam = \<lambda>u. if u = ''nobody'' then Some (65534, 65534) else None,
     se_may_setegid = \<lambda>cr _. euid cr = 0, se_may_seteuid = \<lambda>cr _. euid cr = 0\<rparr>"

definition demo_boot :: boot_state where
  "demo_boot = \<lparr>su_ctx = zero_ctx, su_key = [], su_trace = [], su_creds = \<lparr>euid = 0, egid = 0\<rparr>, su_log = [], su_closed = []\<rparr>"

lemma demo_env_facts [simp]:
  "se_target demo_env = Linux" "se_getpwnam demo_env ''mallory'' = None" "can_start demo_env c" "su_trace demo_boot = []"
  by (simp_all add: can_start_def demo_env_def tun_new_def tun_new_linux_def demo_boot_def)

theorem vpn_init_outcome_witness:
  "\<exists>su'. vpn_init demo_env demo_lib (parsed demo_file) demo_boot = Some (Inr (0, su'))
    \<and> started_with demo_env demo_lib (parsed demo_file) demo_boot su'"
proof -
  have "can_start demo_env (parsed demo_file)"
    by simp
  then show ?thesis
    using vpn_init_outcome [OF runs_as_usable(1) [OF demo_files_run(2)], of demo_env demo_lib demo_boot] by auto
qed

text \<open>
  C37. Dropping privileges cannot be relied on. When a user is configured, \<^verbatim>\<open>vpn_init\<close> succeeds in
  every case: with the user's uid and gid when the user exists and the calls are permitted, but
  still with the old effective uid when a call is refused, and with unchanged credentials when
  the user does not exist.
\<close>

theorem start_keeps_privileges:
  assumes "usable tgt c" and "can_start E c" and "cstr (cf_user c) \<noteq> []"
  shows "\<exists>su'. vpn_init E L c su = Some (Inr (0, su'))
    \<and> (case se_getpwnam E (cstr (cf_user c)) of
         None \<Rightarrow> su_creds su' = su_creds su
       | Some (uid, gid) \<Rightarrow>
           if se_may_setegid E (su_creds su) gid \<and> se_may_seteuid E ((su_creds su)\<lparr>egid := gid\<rparr>) uid
           then euid (su_creds su') = uid \<and> egid (su_creds su') = gid
           else euid (su_creds su') = euid (su_creds su))"
proof -
  obtain su' where run: "vpn_init E L c su = Some (Inr (0, su'))" "started_with E L c su su'"
    using vpn_init_runs [OF assms(1), of E L su] assms(2) by auto
  then have "su_creds su' = snd (runas (se_getpwnam E) (se_may_setegid E) (se_may_seteuid E) (cstr (cf_user c)) (su_creds su))"
    using assms(3) by (simp add: started_with_def creds_after_def)
  then show ?thesis
    using run(1) by (auto simp: runas_def Let_def split: option.split prod.split)
qed

definition demo_user_file :: string where
  "demo_user_file = demo_file @ ''user=mallory'' @ [CHR 0x0A]"

lemma demo_user_file_runs: "runs_as MODE_CLIENT demo_user_file" "cstr (cf_user (parsed demo_user_file)) = ''mallory''"
  by code_simp+

theorem start_keeps_privileges_witness:
  "\<exists>su'. vpn_init demo_env demo_lib (parsed demo_user_file) demo_boot = Some (Inr (0, su')) \<and> euid (su_creds su') = 0"
proof -
  have "can_start demo_env (parsed demo_user_file)" "se_getpwnam demo_env ''mallory'' = None"
    by simp_all
  then show ?thesis
    using start_keeps_privileges [OF runs_as_usable(1) [OF demo_user_file_runs(1)], of demo_env demo_lib demo_boot]
    by (auto simp: demo_user_file_runs(2) demo_boot_def)
qed

text \<open>
  C31. The whole start. With arguments and a file that give a usable configuration, \<^verbatim>\<open>main\<close> always
  comes to a decision: in the background mode the parent exits with 0, and a child whose session
  or log files cannot be set up exits with 1; otherwise it exits with 1 when \<^verbatim>\<open>vpn_init\<close> cannot
  start, and enters \<^verbatim>\<open>vpn_run\<close> with the context of the configuration when it can.
\<close>

theorem main_outcome:
  assumes "parse_args (se_target E) fs args = Inr c" and "usable (se_target E) c"
  shows "\<exists>x. main E L fs D args su = Some (Inr x)
    \<and> (if cf_daemon c \<noteq> 0 \<and> 0 < fork_result D then x = Exit 0
       else if cf_daemon c \<noteq> 0 \<and> daemonize D \<noteq> Returned 0 \<or> \<not> can_start E c then x = Exit 1
       else \<exists>su'. x = Serve c su' \<and> started_with E L c su su')"
proof -
  obtain r su' where init: "vpn_init E L c su = Some (Inr (r, su'))"
    "if can_start E c then r = 0 \<and> started_with E L c su su' else r = -1"
    using vpn_init_runs [OF assms(2), of E L su] by (auto split: if_splits)
  show ?thesis
  proof (cases "daemonize D")
    case (Returned d)
    then have "\<not> 0 < fork_result D"
      by (auto simp: daemonize_def Let_def split: if_splits)
    moreover have "main E L fs D args su = Some (Inr (if cf_daemon c \<noteq> 0 \<and> d \<noteq> 0 \<or> r \<noteq> 0 then Exit 1 else Serve c su'))"
      using Returned by (simp add: main_def Let_def assms(1) init(1))
    ultimately show ?thesis
      using init(2) Returned by (simp split: if_splits)
  next
    case (Exited st pid)
    then have "0 < fork_result D" "st = 0"
      by (auto simp: daemonize_def Let_def split: if_splits)
    moreover have "main E L fs D args su = Some (Inr (if cf_daemon c \<noteq> 0 then Exit st else if r \<noteq> 0 then Exit 1 else Serve c su'))"
      using Exited by (simp add: main_def Let_def assms(1) init(1))
    ultimately show ?thesis
      using init(2) by (simp split: if_splits)
  qed
qed

definition demo_daemon :: daemon_env where
  "demo_daemon = \<lparr>fork_result = 77, pidfile_opens = True, setsid_ok = True, stdout_reopens = True, stderr_reopens = True\<rparr>"

lemma demo_file_parsed: "parse_args Linux (\<lambda>_. Some demo_file) [''-c'', ''f''] = Inr (parsed demo_file)"
  "cf_daemon (parsed demo_file) = 0"
proof -
  show "parse_args Linux (\<lambda>_. Some demo_file) [''-c'', ''f''] = Inr (parsed demo_file)"
    using demo_files_run(2) by (auto simp: runs_as_def parsed_def split: sum.splits)
qed code_simp

theorem main_outcome_witness:
  "\<exists>su'. main demo_env demo_lib (\<lambda>_. Some demo_file) demo_daemon [''-c'', ''f''] demo_boot
    = Some (Inr (Serve (parsed demo_file) su'))"
proof -
  have "se_target demo_env = Linux" "can_start demo_env (parsed demo_file)"
    by simp_all
  then show ?thesis
    using main_outcome [of demo_env "\<lambda>_. Some demo_file" "[''-c'', ''f'']" "parsed demo_file" demo_lib demo_daemon demo_boot]
      demo_file_parsed runs_as_usable(1) [OF demo_files_run(2)] by auto
qed

section \<open>Routes for two servers\<close>

text \<open>
  An address goes into the tunnel when a route to a subnet around it was added: one of the
  commands that ran was for such a subnet, and it succeeded.
\<close>

definition tunnelled :: "sysenv \<Rightarrow> conf \<Rightarrow> string list \<Rightarrow> u32 \<Rightarrow> bool" where
  "tunnelled E c tr a \<longleftrightarrow> (\<exists>x us vs. covers x a \<and> aligned x \<and> read_cidr (cidr_text x) = Some x
     \<and> tr = us @ route_cmd (se_target E) (cstr (cf_tunif c)) (cidr_text x) # vs
     \<and> se_sys E us (route_cmd (se_target E) (cstr (cf_tunif c)) (cidr_text x)) = 0)"

abbreviation routes_for :: "sysenv \<Rightarrow> conf \<Rightarrow> u32 \<Rightarrow> string list" where
  "routes_for E c ip \<equiv> route_all_cmds (se_target E) (cstr (cf_tunif c)) ip True (cstr (cf_address6 c) \<noteq> [])"

lemma script_fresh:
  assumes "\<forall>x \<in> set cs. length x < cap" and "distinct cs" and "set cs \<inter> set tr = {}"
    and "\<And>tr x. x \<in> set cs \<Longrightarrow> x \<notin> set tr \<Longrightarrow> sys tr x = 0"
  shows "script cap sys cs tr = Inr (0, tr @ cs)"
  using assms by (induction cs arbitrary: tr) (auto simp: andthen_def shell_def fmt_def finish_def)

text \<open>A script with a command that fails whenever it comes does not return 0.\<close>

lemma script_stops:
  assumes "\<forall>x \<in> set cs. length x < cap" and "x \<in> set cs" and "\<And>us. sys (tr @ us) x \<noteq> 0"
  obtains r us where "script cap sys cs tr = Inr (r, tr @ us)" "r \<noteq> 0"
proof -
  obtain r n where run: "script cap sys cs tr = Inr (r, tr @ take n cs)"
    "\<And>i. i < n \<Longrightarrow> i + 1 < n \<or> r = 0 \<Longrightarrow> sys (tr @ take i cs) (cs ! i) = 0" "r = 0 \<Longrightarrow> n = length cs"
    using script_runs_prefix [OF assms(1)] by metis
  obtain i where "i < length cs" "cs ! i = x"
    using assms(2) by (auto simp: in_set_conv_nth)
  then have "r \<noteq> 0"
    using run(2) [of i] run(3) assms(3) by auto
  then show ?thesis
    by (rule that [OF run(1)])
qed

lemma route_cmd_inj [simp]: "route_cmd tgt tun (cidr_text x) = route_cmd tgt tun (cidr_text y) \<longleftrightarrow> x = y"
proof -
  have "cidr_text x = cidr_text y \<longleftrightarrow> x = y"
    by (metis read_cidr_text option.inject)
  then show ?thesis
    by (simp add: route_cmd_def split: target.split)
qed

lemma cidr_text_dots: "''-inet6 ::/0'' \<noteq> cidr_text x"
proof
  assume "''-inet6 ::/0'' = cidr_text x"
  moreover have "CHR ''.'' \<in> set (cidr_text x)"
    by (simp add: cidr_text_def Let_def)
  ultimately have "CHR ''.'' \<in> set ''-inet6 ::/0''"
    by (simp only:)
  then show False
    by simp
qed

lemma distinct_routes: "distinct (route_all_cmds tgt tun ip True v6)"
proof -
  have "distinct (subnets_without ip)"
    using branch_inj by (auto simp: subnets_without_def lower_branches_def upper_branches_def distinct_map inj_on_def inj_def)
  then have "distinct (route_cmds tgt tun (subnets_without ip))"
    by (auto simp: route_cmds_def distinct_map inj_on_def)
  moreover have "route6_cmd tgt tun \<notin> set (route_cmds tgt tun cs)" for cs
    using cidr_text_dots by (auto simp: route_cmds_def route6_cmd_def route_cmd_def split: target.splits)
  ultimately show ?thesis
    by (simp add: route_all_cmds_def)
qed

lemma bit_of_branch: "1 \<le> m \<Longrightarrow> m \<le> 32 \<Longrightarrow> bit (cidr_base (branch ip m)) 31 = (bit ip 31 \<noteq> (m = 1))"
  by (auto simp: branch_def bit_sibling)

text \<open>Two addresses share a subnet exactly when they lie in the same half of the address space.\<close>

lemma shared_branch:
  "bit ip1 31 = bit ip2 31 \<Longrightarrow> branch ip1 1 = branch ip2 1"
  "bit ip1 31 \<noteq> bit ip2 31 \<Longrightarrow> set (subnets_without ip1) \<inter> set (subnets_without ip2) = {}"
proof -
  show "branch ip1 1 = branch ip2 1" if "bit ip1 31 = bit ip2 31"
    unfolding branch_def by (rule arg_cong2 [of _ _ _ _ Cidr, OF bit_word_eqI refl]) (use that in \<open>auto simp: bit_sibling less_Suc_eq\<close>)
  show "set (subnets_without ip1) \<inter> set (subnets_without ip2) = {}" if "bit ip1 31 \<noteq> bit ip2 31"
  proof -
    have False if m: "m \<in> {1..32}" "k \<in> {1..32}" "branch ip1 m = branch ip2 k" for m k
    proof -
      have k: "k = m"
        using m(3) by (simp add: branch_def)
      have "(bit ip1 31 \<noteq> (m = 1)) = bit (cidr_base (branch ip1 m)) 31"
        by (rule bit_of_branch [symmetric]) (use m in auto)
      also have "\<dots> = (bit ip2 31 \<noteq> (m = 1))"
        unfolding m(3) k by (rule bit_of_branch) (use m in auto)
      finally show False
        using \<open>bit ip1 31 \<noteq> bit ip2 31\<close> by blast
    qed
    then show ?thesis
      unfolding set_subnets_without by blast
  qed
qed

text \<open>
  C35. With \<^verbatim>\<open>route=yes\<close>, an IPv4 address and two servers at different IPv4 addresses the client
  routes its own datagrams into the tunnel. Suppose that none of the routes exists at the start,
  and that adding a route succeeds when it is new and fails when the same command has run before,
  as \<^verbatim>\<open>ip route add\<close> does. The call of \<^verbatim>\<open>route\<close> for the first server then sends every
  other address to the tun device, the second server included. When the two addresses lie in
  different halves of the address space, the call for the second server adds its IPv4 routes
  too, and every IPv4 address goes into the tunnel, both servers included. Otherwise the
  two lists of routes share a subnet, the second call stops at a route that exists, and
  \<^verbatim>\<open>failed to setup route\<close> is logged.
\<close>

theorem second_server_routed_into_tunnel:
  assumes "usable tgt c" and "cstr (cf_address c) \<noteq> []"
    and "\<And>tr x. x \<in> set (routes_for E c ip1) \<union> set (routes_for E c ip2) \<Longrightarrow> se_sys E tr x = 0 \<longleftrightarrow> x \<notin> set tr"
    and "(set (routes_for E c ip1) \<union> set (routes_for E c ip2)) \<inter> set (su_trace su) = {}"
    and "se_resolve E (cstr (px_server p1)) = Some ip1" "se_resolve E (cstr (px_server p2)) = Some ip2" and "ip1 \<noteq> ip2"
  shows "\<exists>su'. init_routes E c [p1, p2] su = Some (Inr su')
    \<and> (\<forall>a. a \<noteq> ip1 \<longrightarrow> tunnelled E c (su_trace su') a)
    \<and> tunnelled E c (su_trace su') ip2
    \<and> (bit ip1 31 \<noteq> bit ip2 31 \<longrightarrow> (\<forall>a. tunnelled E c (su_trace su') a))
    \<and> (bit ip1 31 = bit ip2 31 \<longrightarrow> su_log su' = su_log su @ [''failed to setup route''])"
proof -
  let ?tun = "cstr (cf_tunif c)" and ?v6 = "cstr (cf_address6 c) \<noteq> []"
  let ?v4 = "\<lambda>ip. route_cmds (se_target E) ?tun (subnets_without ip)"
  have l: "length ?tun < 16"
    by (rule usable_sizes(1) [OF assms(1)])
  note fit = route_all_fit [OF l]
  have one: "route (se_target E) (se_sys E) (se_resolve E) ?tun host (cstr (cf_address c) \<noteq> []) ?v6 tr
      = Some (script 256 (se_sys E) (routes_for E c ip) tr)"
    if "se_resolve E host = Some ip" for host ip tr
    using route_script [of True "se_resolve E" host ip "se_target E" "se_sys E" ?tun ?v6 tr] that assms(2)
    by (simp add: route_all_cmds_def)
  have first: "script 256 (se_sys E) (routes_for E c ip1) (su_trace su) = Inr (0, su_trace su @ routes_for E c ip1)"
    by (rule script_fresh [OF fit distinct_routes]) (use assms(3,4) in auto)
  obtain r us where second: "script 256 (se_sys E) (routes_for E c ip2) (su_trace su @ routes_for E c ip1)
      = Inr (r, (su_trace su @ routes_for E c ip1) @ us)"
    using script_runs [OF fit] by metis
  define su' where "su' = log_if (r \<noteq> 0) ''failed to setup route'' (su\<lparr>su_trace := su_trace su @ routes_for E c ip1 @ us\<rparr>)"
  have run: "init_routes E c [p1, p2] su = Some (Inr su')"
    using first second by (simp add: one [OF assms(5), simplified] one [OF assms(6), simplified] su'_def log_if_def)
  have tr: "su_trace su' = su_trace su @ routes_for E c ip1 @ us"
    by (simp add: su'_def log_if_def)
  have routed: "tunnelled E c (su_trace su') a" if h: "a \<noteq> ip" "ip \<in> {ip1, ip2}" "set (?v4 ip) \<subseteq> set (su_trace su')" for a ip
  proof -
    obtain x where x: "x \<in> set (subnets_without ip)" "covers x a"
      using subnets_partition [OF h(1)] by blast
    let ?cmd = "route_cmd (se_target E) ?tun (cidr_text x)"
    have cmd: "?cmd \<in> set (?v4 ip)" "?cmd \<in> set (routes_for E c ip1) \<union> set (routes_for E c ip2)"
      using x(1) h(2) by (auto simp: route_all_cmds_def route_cmds_def)
    then obtain us vs where us: "su_trace su' = us @ ?cmd # vs" "?cmd \<notin> set us"
      using h(3) split_list_first [of ?cmd "su_trace su'"] by blast
    moreover have "aligned x" "read_cidr (cidr_text x) = Some x"
      using x(1) branch_aligned read_cidr_text by (auto simp: set_subnets_without)
    ultimately show ?thesis
      using x(2) assms(3) [OF cmd(2)] unfolding tunnelled_def by blast
  qed
  have v4_1: "set (?v4 ip1) \<subseteq> set (su_trace su')"
    by (auto simp: tr route_all_cmds_def)
  have "tunnelled E c (su_trace su') a" if "bit ip1 31 \<noteq> bit ip2 31" for a
  proof (cases "a = ip1")
    case False
    then show ?thesis
      using routed [of a ip1] v4_1 by simp
  next
    case True
    have "set (?v4 ip2) \<inter> set (su_trace su @ routes_for E c ip1) = {}"
    proof -
      have "set (?v4 ip1) \<inter> set (?v4 ip2) = {}"
        using shared_branch(2) [OF that] by (auto simp: route_cmds_def)
      moreover have "route6_cmd (se_target E) ?tun \<notin> set (?v4 ip2)"
        using distinct_routes [of "se_target E" ?tun ip2 True] by (simp add: route_all_cmds_def)
      ultimately show ?thesis
        using assms(4) by (auto simp: route_all_cmds_def)
    qed
    moreover have "distinct (?v4 ip2)" "\<forall>x \<in> set (?v4 ip2). length x < 256"
      using distinct_routes [of "se_target E" ?tun ip2 True] fit [of "se_target E" ip2 True True] by (simp_all add: route_all_cmds_def)
    ultimately have v4: "script 256 (se_sys E) (?v4 ip2) (su_trace su @ routes_for E c ip1) = Inr (0, (su_trace su @ routes_for E c ip1) @ ?v4 ip2)"
      by (intro script_fresh) (use assms(3) in \<open>auto simp: route_all_cmds_def\<close>)
    have split: "routes_for E c ip2 = ?v4 ip2 @ (if ?v6 then [route6_cmd (se_target E) ?tun] else [])"
      by (simp add: route_all_cmds_def)
    have "\<exists>vs. (su_trace su @ routes_for E c ip1) @ us = (su_trace su @ routes_for E c ip1) @ ?v4 ip2 @ vs"
      using second fit [of "se_target E" ip2 True ?v6] unfolding split script_append andthen_def v4
      by (auto simp: andthen_def shell_def fmt_def finish_def split: if_splits)
    then have "set (?v4 ip2) \<subseteq> set (su_trace su')"
      by (auto simp: tr)
    then show ?thesis
      using routed [of a ip2] True assms(7) by simp
  qed
  moreover have "su_log su' = su_log su @ [''failed to setup route'']" if "bit ip1 31 = bit ip2 31"
  proof -
    let ?x = "route_cmd (se_target E) ?tun (cidr_text (branch ip1 1))"
    have x: "?x \<in> set (routes_for E c ip1)" "?x \<in> set (routes_for E c ip2)"
      using shared_branch(1) [OF that] by (auto simp: route_all_cmds_def route_cmds_def set_subnets_without intro!: image_eqI [of _ _ 1])
    then have "se_sys E ((su_trace su @ routes_for E c ip1) @ vs) ?x \<noteq> 0" for vs
      using assms(3) [of ?x] by auto
    then have "r \<noteq> 0"
      using script_stops [OF fit x(2), of "se_sys E" "su_trace su @ routes_for E c ip1"] second by auto
    then show ?thesis
      by (simp add: su'_def log_if_def)
  qed
  ultimately show ?thesis
    using run routed [of _ ip1] v4_1 assms(7) by (intro exI [of _ su']) simp
qed

text \<open>Servers 5.6.7.8 and 1.2.3.4.\<close>

theorem second_server_routed_into_tunnel_witness:
  "\<exists>E su'. (\<forall>tr x. se_sys E tr x = 0 \<longleftrightarrow> x \<notin> set tr)
    \<and> init_routes E (parsed demo_file) [zero_path_ctx\<lparr>px_server := ''a''\<rparr>, zero_path_ctx\<lparr>px_server := ''b''\<rparr>] demo_boot = Some (Inr su')
    \<and> tunnelled E (parsed demo_file) (su_trace su') 0x01020304 \<and> su_log su' = su_log demo_boot @ [''failed to setup route'']"
proof -
  let ?E = "demo_env\<lparr>se_resolve := \<lambda>h. if h = ''a'' then Some 0x05060708 else Some 0x01020304, se_sys := \<lambda>tr x. if x \<in> set tr then 2 else 0\<rparr>"
  have "cstr (cf_address (parsed demo_file)) \<noteq> []"
    by code_simp
  moreover have "se_sys ?E tr x = 0 \<longleftrightarrow> x \<notin> set tr" "su_trace demo_boot = []" for tr x
    by simp_all
  moreover have "se_resolve ?E (cstr (px_server (zero_path_ctx\<lparr>px_server := ''a''\<rparr>))) = Some 0x05060708"
    "se_resolve ?E (cstr (px_server (zero_path_ctx\<lparr>px_server := ''b''\<rparr>))) = Some 0x01020304"
    by (simp_all add: cstr_def NUL_def)
  moreover have "bit (0x05060708 :: u32) 31 = bit (0x01020304 :: u32) 31" "(0x05060708 :: u32) \<noteq> 0x01020304"
    by simp_all
  ultimately show ?thesis
    using second_server_routed_into_tunnel [OF runs_as_usable(1) [OF demo_files_run(2)], of ?E "0x05060708" "0x01020304" demo_boot
        "zero_path_ctx\<lparr>px_server := ''a''\<rparr>" "zero_path_ctx\<lparr>px_server := ''b''\<rparr>"]
    by (intro exI [of _ ?E]) auto
qed

lemma drop_privileges_keeps [simp]:
  "su_trace (drop_privileges E user su) = su_trace su" "su_ctx (drop_privileges E user su) = su_ctx su"
  by (simp_all add: drop_privileges_def log_if_def split: prod.split)

text \<open>
  C40. Stopping a server on Linux with \<^verbatim>\<open>nat=yes\<close> that has no IPv4 address but could start:
  \<^verbatim>\<open>vpn_init\<close> turns the address translation on only when there is an address, and its commands
  are then only those of the interface; but \<^verbatim>\<open>vpn_run\<close> turns it off on \<^verbatim>\<open>nat\<close> alone, and so runs \<^verbatim>\<open>iptables\<close> commands with
  an empty address for rules that were never made, whether a user is configured or not.
\<close>

theorem nat_off_without_nat_on:
  assumes "usable tgt c" and "can_start E c" and "se_target E = Linux" and "cf_mode c = MODE_SERVER"
    and "cf_nat c \<noteq> 0" and "cstr (cf_address c) = []" and "su_trace su = []"
  shows "\<exists>su1 r su2 n. vpn_init E L c su = Some (Inr (0, su1))
    \<and> set (su_trace su1) \<subseteq> set (ifconfig_cmds Linux (cstr (cf_tunif c)) (cf_mtu c) [] (cstr (cf_peer c)) (cstr (cf_address6 c)))
    \<and> run_end E c su1 = Inr (r, su2) \<and> su_trace su2 = su_trace su1 @ take n (nat_off_cmds []) \<and> 0 < n"
proof -
  obtain c0 where c0: "init_ctx c = Inr c0" "cx_mode c0 = cf_mode c"
    by (rule init_ctx_ok [OF assms(1)])
  have mtu: "cx_mtu c0 = cf_mtu c"
    using c0(1) by (auto simp: init_ctx_def bind_res_eq_Inr)
  obtain tun cl where tn: "tun_new E (cstr (cf_tunif c)) = (tun, cl)"
    by fastforce
  let ?ifc = "ifconfig_cmds Linux (cstr (cf_tunif c)) (cf_mtu c) [] (cstr (cf_peer c)) (cstr (cf_address6 c))"
  define hello where "hello = log_if True (starting_line (cf_mode c)) (su\<lparr>su_ctx := c0\<rparr>)"
  define su1 where "su1 = log_if True (using_line (cstr (cf_tunif c))) (hello\<lparr>su_key := generichash L 32 (to_bytes (cstr (cf_key c))) [],
    su_ctx := c0\<lparr>cx_tun := tun\<rparr>, su_closed := su_closed hello @ cl\<rparr>)"
  obtain r n where "script 256 (se_sys E) ?ifc [] = Inr (r, [] @ take n ?ifc)"
    using script_runs [where sys="se_sys E" and tr="[]", OF ifconfig_fit [where tgt=Linux, OF usable_sizes [OF assms(1)]]] assms(6) by auto
  then have ifc: "run_script (ifconfig Linux (se_sys E) (cstr (cf_tunif c)) (cf_mtu c) [] (cstr (cf_peer c)) (cstr (cf_address6 c))) su1
      = Inr (r, su1\<lparr>su_trace := take n ?ifc\<rparr>)"
    using assms(7) by (simp add: run_script_def ifconfig_def su1_def hello_def log_if_def)
  define su3 where "su3 = log_if (r \<noteq> 0) ''failed to add address on tun device'' (su1\<lparr>su_trace := take n ?ifc\<rparr>)"
  have mode: "MODE_SERVER \<noteq> MODE_CLIENT"
    by (simp add: MODE_SERVER_def MODE_CLIENT_def)
  define su4 where "su4 = (if cstr (cf_user c) \<noteq> [] then drop_privileges E (cstr (cf_user c)) su3 else su3)"
  have init: "vpn_init E L c su = Some (Inr (0, su4))"
    using assms(2-6) c0 mode ifc
    by (simp add: vpn_init_def crypto_init_def can_start_def Let_def mtu tn hello_def [unfolded assms(4), symmetric] su1_def [symmetric] su3_def [symmetric])
      (simp add: su4_def)
  have off: "\<forall>x \<in> set (nat_off_cmds []). length x < 200"
    by (simp add: nat_off_cmds_def tcpmss_def)
  obtain r' m where sc: "script 200 (se_sys E) (nat_off_cmds []) (su_trace su4) = Inr (r', su_trace su4 @ take m (nat_off_cmds []))"
    and m: "r' = 0 \<Longrightarrow> m = length (nat_off_cmds [])" "r' \<noteq> 0 \<Longrightarrow> 0 < m"
    using script_runs_prefix [OF off, of "se_sys E" "su_trace su4"] by metis
  have m0: "0 < m"
    using m by (cases "r' = 0") (simp_all add: nat_off_cmds_def)
  have server: "cx_mode (su_ctx su4) = MODE_SERVER"
    using c0(2) assms(4) by (simp add: su4_def su3_def log_if_def su1_def hello_def)
  define su5 where "su5 = (if cstr (cf_user c) \<noteq> [] then drop_privileges E ''root'' su4 else su4)"
  have "su_trace su5 = su_trace su4" "cx_mode (su_ctx su5) = cx_mode (su_ctx su4)"
    by (simp_all add: su5_def)
  then obtain r2 su2 where "run_end E c su4 = Inr (r2, su2)" "su_trace su2 = su_trace su4 @ take m (nat_off_cmds [])"
    using assms(3,5,6) sc server by (simp add: run_end_def su5_def [symmetric] run_script_def nat_rules_def log_if_def)
  moreover have "set (su_trace su4) \<subseteq> set ?ifc"
    by (auto simp: su4_def su3_def log_if_def dest: in_set_takeD)
  ultimately show ?thesis
    using init m0 by blast
qed

definition demo_six_file :: string where
  "demo_six_file = ''mode=server'' @ [CHR 0x0A] @ ''server=::1'' @ [CHR 0x0A] @ ''key=k'' @ [CHR 0x0A]
     @ ''mtu=1400'' @ [CHR 0x0A] @ ''address6=fd00::1'' @ [CHR 0x0A] @ ''nat=yes'' @ [CHR 0x0A]
     @ ''user=nobody'' @ [CHR 0x0A]"

lemma demo_six_runs: "runs_as MODE_SERVER demo_six_file" "cf_nat (parsed demo_six_file) \<noteq> 0"
  "cstr (cf_address (parsed demo_six_file)) = []" "cstr (cf_user (parsed demo_six_file)) \<noteq> []"
  by code_simp+

theorem nat_off_without_nat_on_witness:
  "\<exists>su1 r su2 n. vpn_init demo_env demo_lib (parsed demo_six_file) demo_boot = Some (Inr (0, su1))
    \<and> run_end demo_env (parsed demo_six_file) su1 = Inr (r, su2)
    \<and> su_trace su2 = su_trace su1 @ take n (nat_off_cmds []) \<and> 0 < n"
proof -
  have "can_start demo_env (parsed demo_six_file)" "se_target demo_env = Linux" "su_trace demo_boot = []"
    by simp_all
  then show ?thesis
    using nat_off_without_nat_on [OF runs_as_usable(1) [OF demo_six_runs(1)] _ _ runs_as_usable(2) [OF demo_six_runs(1)] demo_six_runs(2,3)]
    by blast
qed

text \<open>
  A signal that arrives before \<^verbatim>\<open>vpn_run\<close> has started its coroutines is lost: whatever the handler
  stored, the process runs.
\<close>

lemma early_signal_lost:
  "run_start L key N clk1 clk2 rs now (fst (signal_cb SIGTERM s)) = Inr (s', evs) \<Longrightarrow> cx_running (vs_ctx s') = 1"
  by (auto simp: run_start_def bind_res_eq_Inr)

end
