(* ===== verification/Counters.thy ===== *)
theory Counters
  imports Delivery
begin

text \<open>The counters of \<^verbatim>\<open>snmp_logger\<close>: what the rates are, and when they cannot be computed.\<close>

text \<open>A counter that has grown since the last round by an amount whose rate is an \<^verbatim>\<open>int\<close>.\<close>

definition measurable :: "u64 \<Rightarrow> u64 \<Rightarrow> bool" where
  "measurable a b \<longleftrightarrow> unat b \<le> unat a \<and> (unat a - unat b) * 1000 < 2 ^ 31"

lemma unat_times_1000: "unat (w :: u64) * 1000 < 2 ^ 31 \<Longrightarrow> unat (w * 1000) = unat w * 1000"
  by (simp add: unat_word_ariths)

lemma rate_value:
  assumes "measurable a b"
  shows "rate a b i = int ((unat a - unat b) * 1000 div unat i)"
proof -
  let ?d = "(unat a - unat b) * 1000"
  have "b \<le> a" and d: "?d < 2 ^ 31"
    using assms by (simp_all add: measurable_def word_le_nat_alt)
  then have "unat (a - b) = unat a - unat b"
    by (simp add: unat_sub)
  then have "unat ((a - b) * 1000) = ?d"
    using d unat_times_1000 [of "a - b"] by (simp only:)
  then have q: "uint ((a - b) * 1000 div i) = int (?d div unat i)"
    by (simp add: uint_nat unat_div)
  have "?d div unat i < 2 ^ 31"
    using d by (rule le_less_trans [OF div_le_dividend])
  then have "int (?d div unat i) < int (2 ^ 31)"
    by (simp only: of_nat_less_iff)
  then have "int (?d div unat i) < 2 ^ 31"
    by simp
  then show ?thesis
    unfolding rate_def q by (intro signed_take_bit_int_eq_self) simp_all
qed

text \<open>
  The rates are per second: as long as the counters only grow and grow slowly enough for an
  \<^verbatim>\<open>int\<close>, each rate is the growth since the last round times 1000 over the milliseconds since
  then, the counters themselves do not change, and the next round measures from here. A second
  round in the same millisecond divides by zero.
\<close>

lemma snmp_rates:
  assumes "sn_timestamp (vs_last s) < now" and "vs_start s \<le> now"
    and "measurable (out_packets (cx_snmp (vs_ctx s))) (out_packets (vs_last s))"
    and "measurable (out_bytes (cx_snmp (vs_ctx s))) (out_bytes (vs_last s))"
    and "measurable (in_packets (cx_snmp (vs_ctx s))) (in_packets (vs_last s))"
    and "measurable (in_bytes (cx_snmp (vs_ctx s))) (in_bytes (vs_last s))"
  shows "\<exists>s'. snmp_round now s = Inr s' \<and> snmp_round now s' = Inl DivByZero
    \<and> (let sn = cx_snmp (vs_ctx s); sn' = cx_snmp (vs_ctx s'); lst = vs_last s; ms = unat now - unat (sn_timestamp lst) in
       vs_last s' = sn' \<and> unat (sn_uptime sn') = unat now - unat (vs_start s)
       \<and> out_packets sn' = out_packets sn \<and> out_bytes sn' = out_bytes sn
       \<and> in_packets sn' = in_packets sn \<and> in_bytes sn' = in_bytes sn
       \<and> out_packet_rate sn' = int ((unat (out_packets sn) - unat (out_packets lst)) * 1000 div ms)
       \<and> out_byte_rate sn' = int ((unat (out_bytes sn) - unat (out_bytes lst)) * 1000 div ms)
       \<and> in_packet_rate sn' = int ((unat (in_packets sn) - unat (in_packets lst)) * 1000 div ms)
       \<and> in_byte_rate sn' = int ((unat (in_bytes sn) - unat (in_bytes lst)) * 1000 div ms))"
proof -
  have ms: "unat (now - sn_timestamp (vs_last s)) = unat now - unat (sn_timestamp (vs_last s))"
    "unat (now - vs_start s) = unat now - unat (vs_start s)"
    using assms(1,2) by (auto intro!: unat_sub)
  have "now - sn_timestamp (vs_last s) \<noteq> 0"
    using assms(1) by auto
  then show ?thesis
    using assms(3-6) by (simp add: snmp_round_def Let_def rate_value ms)
qed

lemma snmp_rates_example:
  "\<exists>s'. snmp_round 100 (demo_vpn\<lparr>vs_ctx := demo_ctx\<lparr>cx_snmp := zero_snmp\<lparr>out_packets := 7\<rparr>\<rparr>\<rparr>) = Inr s'
    \<and> out_packet_rate (cx_snmp (vs_ctx s')) = 70"
  using snmp_rates [of "demo_vpn\<lparr>vs_ctx := demo_ctx\<lparr>cx_snmp := zero_snmp\<lparr>out_packets := 7\<rparr>\<rparr>\<rparr>" 100]
  by (auto simp: demo_vpn_def zero_snmp_def measurable_def Let_def)

end
