(* ===== verification/Timed.thy ===== *)
theory Timed
  imports Safety
begin

text \<open>
  The process with a clock. An input comes with the value of \<^verbatim>\<open>now()\<close>; a worker times out only
  when its deadline has passed, and the workers of a hop take their deadline from that clock.
  The result is the counterpart of \<open>client_uses_closed_socket\<close>: as long as the last hop whose
  sockets could all be bound is less than five seconds ago, a client does not fail when it sends.
\<close>

section \<open>Runs with a clock\<close>

definition due :: "int \<Rightarrow> vpn \<Rightarrow> input \<Rightarrow> bool" where
  "due u s i \<longleftrightarrow> (case i of
     Net j rv \<Rightarrow> rv = TimedOut \<longrightarrow> wk_deadline (vs_workers s ! j) \<le> u
   | Hop clk N \<Rightarrow> \<forall>k. now_of N k = u
   | _ \<Rightarrow> True)"

inductive timed_trans :: "target \<Rightarrow> lib \<Rightarrow> byte list \<Rightarrow> int \<times> vpn \<Rightarrow> int \<times> input \<Rightarrow> int \<times> vpn \<Rightarrow> bool" for tgt L key where
  tick: "t \<le> u \<Longrightarrow> input_ok s i \<Longrightarrow> due u s i \<Longrightarrow> vpn_step tgt L key i s = Some (Inr (s', evs))
    \<Longrightarrow> timed_trans tgt L key (t, s) (u, i) (u, s')"

inductive_cases timed_transE: "timed_trans tgt L key ts l ts'"
inductive_simps timed_trans_iff: "timed_trans tgt L key (t, s) (u, i) (v, s')"

text \<open>A timed step is a step.\<close>

lemma timed_trans_step: "timed_trans tgt L key (t, s) l (u, s') \<Longrightarrow> vpn_trans tgt L key s s' \<and> t \<le> u"
  by (auto elim!: timed_transE intro: segment)

section \<open>The sockets a path holds\<close>

text \<open>Path \<open>i\<close> holds the socket of a worker that runs at least until \<open>T\<close>.\<close>

definition held :: "int \<Rightarrow> nat \<Rightarrow> vpn \<Rightarrow> bool" where
  "held T i s \<longleftrightarrow> (\<exists>w \<in> set (vs_workers s). px_sock (cx_paths (vs_ctx s) ! i) = Some (wk_sock w) \<and> T \<le> wk_deadline w)"

lemma held_mono: "held T i s \<Longrightarrow> U \<le> T \<Longrightarrow> held U i s"
  unfolding held_def by fastforce

lemma held_same:
  assumes "held T i s" and "set (vs_workers s) \<subseteq> set (vs_workers s')"
    and "px_sock (cx_paths (vs_ctx s') ! i) = px_sock (cx_paths (vs_ctx s) ! i)"
  shows "held T i s'"
  using assms unfolding held_def by auto

lemma worker_start_held:
  assumes run: "worker_start N i token timeout s = Inr (s', evs)" and i: "i < length (cx_paths (vs_ctx s))" and "0 \<le> timeout"
  shows "held T j s \<Longrightarrow> T \<le> now_of N i + timeout \<Longrightarrow> held T j s'"
    and "bound N (vs_next s) \<Longrightarrow> held (now_of N i + timeout) i s'"
    and "length (cx_paths (vs_ctx s')) = length (cx_paths (vs_ctx s))"
proof -
  show new: "held (now_of N i + timeout) i s'" if "bound N (vs_next s)"
    using run i that assms(3) by (auto simp: worker_start_def Let_def held_def update_path_nth split: if_splits)
  show "held T j s'" if h: "held T j s" "T \<le> now_of N i + timeout"
  proof (cases "j = i \<and> bound N (vs_next s)")
    case True
    then show ?thesis
      using new held_mono h(2) by blast
  next
    case False
    then show ?thesis
      using run i by (intro held_same [OF h(1)]) (auto simp: worker_start_def Let_def update_path_nth split: if_splits)
  qed
  show "length (cx_paths (vs_ctx s')) = length (cx_paths (vs_ctx s))"
    using run by (auto simp: worker_start_def Let_def split: if_splits)
qed

lemma hop_path_held:
  assumes s: "vpn_ok s" and i: "i < nat (cx_path_count (vs_ctx s))"
    and run: "hop_path L key N clk i s = Inr (s', evs)" and now: "\<And>k. now_of N k = u"
  shows "held T j s \<Longrightarrow> T \<le> u + 5000 \<Longrightarrow> held T j s'" and "(\<And>k. bound N k) \<Longrightarrow> held (u + 5000) i s'"
proof -
  have c: "ctx_ok (vs_ctx s)"
    using s by (simp add: vpn_ok_def)
  have i8: "i < length (cx_paths (vs_ctx s))"
    using index_bound [OF c i] c by (simp add: ctx_ok_def)
  obtain token where "worker_start N i token (5 * 1000) s = Inr (s', evs)"
    using run by (auto simp: hop_path_def bind_res_eq_Inr)
  from worker_start_held [OF this i8]
  show "held T j s \<Longrightarrow> T \<le> u + 5000 \<Longrightarrow> held T j s'" and "(\<And>k. bound N k) \<Longrightarrow> held (u + 5000) i s'"
    by (simp_all add: now)
qed


lemma client_hop_held:
  assumes s: "vpn_ok s" and buf: "\<And>k. wf_pbuf (fresh_buf N k)" and run: "client_hop L key N clk s = Inr (s', evs)"
    and now: "\<And>k. now_of N k = u"
  shows "held T j s \<Longrightarrow> T \<le> u + 5000 \<Longrightarrow> held T j s'"
    and "(\<And>k. bound N k) \<Longrightarrow> i < nat (cx_path_count (vs_ctx s)) \<Longrightarrow> held (u + 5000) i s'"
proof -
  let ?n = "nat (cx_path_count (vs_ctx s))"
  have prefix: "vpn_ok t \<and> same_shape s t \<and> (held T j s \<and> T \<le> u + 5000 \<longrightarrow> held T j t)
      \<and> ((\<forall>k. bound N k) \<longrightarrow> (\<forall>i < m. held (u + 5000) i t))"
    if "m \<le> ?n" "steps (map (hop_path L key N clk) [0..<m]) s = Inr (t, es)" for m t es T j
    using that
  proof (induction m arbitrary: t es)
    case 0
    then show ?case
      using s by simp
  next
    case (Suc m)
    obtain t1 es1 es2 where t1: "steps (map (hop_path L key N clk) [0..<m]) s = Inr (t1, es1)"
      "hop_path L key N clk m t1 = Inr (t, es2)"
      using Suc.prems(2) by (auto simp: steps_snoc bind_res_eq_Inr)
    have IH: "vpn_ok t1" "same_shape s t1" "held T j s \<and> T \<le> u + 5000 \<longrightarrow> held T j t1"
      "(\<forall>k. bound N k) \<longrightarrow> (\<forall>i < m. held (u + 5000) i t1)"
      using Suc.IH [OF _ t1(1)] Suc.prems(1) by simp_all
    have m: "m < nat (cx_path_count (vs_ctx t1))"
      using IH(2) Suc.prems(1) by (simp add: same_shape_def)
    note h = hop_path_held [OF IH(1) m t1(2) now]
    have "held (u + 5000) i t" if "\<forall>k. bound N k" "i < Suc m" for i
      using that IH(4) h(1) [of "u + 5000" i] h(2) by (cases "i = m") auto
    then show ?case
      using hop_path_ok [OF IH(1) m buf t1(2)] IH(2,3) same_shape_trans h(1) by blast
  qed
  show "held T j s \<Longrightarrow> T \<le> u + 5000 \<Longrightarrow> held T j s'"
    and "(\<And>k. bound N k) \<Longrightarrow> i < ?n \<Longrightarrow> held (u + 5000) i s'"
    using prefix [OF order.refl run [unfolded client_hop_def]] by blast+
qed

text \<open>The workers that remain after the round of worker \<open>j\<close>, and their deadlines.\<close>

lemma worker_step_workers:
  assumes s: "vpn_ok s" and j: "j < length (vs_workers s)" and lz4: "lz4_ok L"
    and run: "worker_step L key j rv s = Inr (s', evs)"
    and w: "w \<in> set (vs_workers s)" and stays: "rv = TimedOut \<longrightarrow> w \<noteq> vs_workers s ! j"
  shows "\<exists>w' \<in> set (vs_workers s'). wk_sock w' = wk_sock w \<and> wk_deadline w' = wk_deadline w"
proof -
  let ?w = "vs_workers s ! j" and ?c = "vs_ctx s"
  have c: "ctx_ok ?c" and wj: "worker_ok s ?w"
    using s j by (simp_all add: vpn_ok_def)
  obtain c1 wo where rnd: "worker_round L key ?w rv ?c = Inr (c1, wo, evs)"
    and rest: "(case wo of Some w' \<Rightarrow> Inr (s\<lparr>vs_ctx := c1, vs_workers := (vs_workers s)[j := w']\<rparr>, evs)
        | None \<Rightarrow> Inr (s\<lparr>vs_ctx := c1, vs_workers := take j (vs_workers s) @ drop (Suc j) (vs_workers s),
                       vs_open := removeAll (wk_sock ?w) (vs_open s)\<rparr>, evs)) = (Inr (s', evs) :: (vpn \<times> effect list) res)"
    using run by (auto simp: worker_step_def Let_def bind_res_eq_Inr split: option.splits)
  have s': "vs_workers s' = (case wo of Some w' \<Rightarrow> (vs_workers s)[j := w']
        | None \<Rightarrow> take j (vs_workers s) @ drop (Suc j) (vs_workers s))"
    using rest by (cases wo) auto
  have wo: "wo = None \<and> rv = TimedOut \<or> (\<exists>a b. wo = Some (?w\<lparr>wk_addr := a, wk_buf := b\<rparr>))"
    using worker_round_ok(2) [OF c _ _ _ _ lz4 rnd] wj by (auto simp: worker_ok_def)
  obtain l where l: "l < length (vs_workers s)" "w = vs_workers s ! l"
    using w by (auto simp: in_set_conv_nth)
  show ?thesis
  proof (cases wo)
    case None
    then have "l \<noteq> j" and ws: "vs_workers s' = take j (vs_workers s) @ drop (Suc j) (vs_workers s)"
      using wo stays l(2) s' by auto
    have "set (vs_workers s) = insert ?w (set (vs_workers s'))"
      unfolding ws using id_take_nth_drop [OF j] by (metis Un_insert_right list.simps(15) set_append)
    moreover have "w \<noteq> ?w"
      using None wo stays by auto
    ultimately show ?thesis
      using w by blast
  next
    case (Some w1)
    then have "l = j \<Longrightarrow> wk_sock w1 = wk_sock w \<and> wk_deadline w1 = wk_deadline w"
      using wo l by auto
    moreover have "vs_workers s' ! l = (if l = j then w1 else w)" "l < length (vs_workers s')"
      using s' Some l by simp_all
    ultimately show ?thesis
      by (metis nth_mem)
  qed
qed

lemma heartbeat_sock:
  assumes s: "vpn_ok s" and r: "\<And>i. rng_ok (rs i)" and run: "heartbeat L key clk rs s = Inr (s', evs)"
  shows "px_sock (cx_paths (vs_ctx s') ! k) = px_sock (cx_paths (vs_ctx s) ! k)"
proof -
  let ?P = "\<lambda>t. vpn_ok t \<and> same_shape s t \<and> px_sock (cx_paths (vs_ctx t) ! k) = px_sock (cx_paths (vs_ctx s) ! k)"
  have "?P s'"
    using run unfolding heartbeat_def
  proof (rule steps_keep [where P = ?P])
    fix f t t' evs
    assume f: "f \<in> set (map (heartbeat_path L key clk rs) [0..<nat (cx_path_count (vs_ctx s))])"
      and t: "?P t" and step: "f t = Inr (t', evs)"
    then obtain i where i: "f = heartbeat_path L key clk rs i" "i < nat (cx_path_count (vs_ctx t))"
      by (auto simp: same_shape_def)
    have ok: "vpn_ok t" "heartbeat_path L key clk rs i t = Inr (t', evs)"
      using t step i(1) by simp_all
    show "?P t'"
      using heartbeat_path_keeps(1,2) [OF ok(1) i(2) r ok(2)] heartbeat_path_socks [OF ok(1) i(2) r ok(2)] t
        same_shape_trans by auto
  qed (simp add: s)
  then show ?thesis by simp
qed

section \<open>A client that can bind its sockets\<close>

text \<open>Every path of the client holds the socket of a worker that runs until \<open>T\<close>.\<close>

definition equipped :: "int \<Rightarrow> vpn \<Rightarrow> bool" where
  "equipped T s \<longleftrightarrow> vpn_ok s \<and> cx_mode (vs_ctx s) = MODE_CLIENT \<and> (\<forall>i < nat (cx_path_count (vs_ctx s)). held T i s)"

lemma equipped_sockets:
  assumes "equipped T s"
  shows "\<not> unbound_path s" and "\<not> stale_path s"
proof -
  have "\<exists>k \<in> set (vs_open s). px_sock (cx_paths (vs_ctx s) ! i) = Some k" if "i < nat (cx_path_count (vs_ctx s))" for i
    using assms that by (fastforce simp: equipped_def held_def vpn_ok_def worker_ok_def)
  then show "\<not> unbound_path s" and "\<not> stale_path s"
    by (fastforce simp: unbound_path_def stale_path_def)+
qed

lemma equipped_step:
  assumes lz4: "lz4_ok L" and s: "equipped T s" and i: "input_ok s i" "due u s i"
    and run: "vpn_step tgt L key i s = Some (Inr (s', evs))" and u: "u < T" "T \<le> u + 5000"
  shows "equipped T s'"
proof -
  have ok: "vpn_ok s" and mode: "cx_mode (vs_ctx s) = MODE_CLIENT"
    and h: "\<And>k. k < nat (cx_path_count (vs_ctx s)) \<Longrightarrow> held T k s"
    using s by (simp_all add: equipped_def)
  have keep: "equipped T s'"
    if "cx_path_count (vs_ctx s') = cx_path_count (vs_ctx s)"
      "\<And>k. k < nat (cx_path_count (vs_ctx s)) \<Longrightarrow> held T k s \<Longrightarrow> held T k s'"
    using vpn_step_ok [OF lz4 ok i(1) run] h mode that by (simp add: equipped_def)
  have c: "ctx_ok (vs_ctx s)"
    using ok by (simp add: vpn_ok_def)
  show ?thesis
  proof (cases i)
    case (Frame frame r)
    then have f: "rng_ok r" "tun_worker tgt L key r frame s = Some (Inr (s', evs))"
      using i run by (simp_all add: input_ok_def vpn_step_def)
    note tw = tun_worker_ok [OF ok f]
    show ?thesis
      by (rule keep) (use tw in \<open>auto intro: held_same\<close>)
  next
    case (Net j rv)
    then have j: "j < length (vs_workers s)" "worker_step L key j rv s = Inr (s', evs)"
      and late: "rv = TimedOut \<longrightarrow> wk_deadline (vs_workers s ! j) \<le> u"
      using i run by (simp_all add: input_ok_def due_def vpn_step_def)
    have e: "evolves (wk_sock (vs_workers s ! j)) (vs_ctx s) (vs_ctx s')"
      by (rule worker_step_ok(2) [OF ok j(1) lz4 j(2)])
    have "held T k s'" if k: "k < nat (cx_path_count (vs_ctx s))" "held T k s" for k
    proof -
      obtain w where w: "w \<in> set (vs_workers s)" "px_sock (cx_paths (vs_ctx s) ! k) = Some (wk_sock w)" "T \<le> wk_deadline w"
        using k(2) by (auto simp: held_def)
      have "rv = TimedOut \<longrightarrow> w \<noteq> vs_workers s ! j"
        using late w(3) u(1) by auto
      then obtain w' where "w' \<in> set (vs_workers s')" "wk_sock w' = wk_sock w" "wk_deadline w' = wk_deadline w"
        using worker_step_workers [OF ok j(1) lz4 j(2) w(1)] by blast
      moreover have "px_sock (cx_paths (vs_ctx s') ! k) = px_sock (cx_paths (vs_ctx s) ! k)"
        using e index_bound [OF c k(1)] mode by (auto simp: evolves_def MODE_CLIENT_def MODE_SERVER_def)
      ultimately show ?thesis
        using w(2,3) unfolding held_def by metis
    qed
    then show ?thesis
      using e by (intro keep) (simp_all add: evolves_def)
  next
    case (Hop clk N)
    then have f: "\<And>k. wf_pbuf (fresh_buf N k)" "client_hop L key N clk s = Inr (s', evs)" "\<And>k. now_of N k = u"
      using i run by (simp_all add: input_ok_def due_def vpn_step_def)
    have "same_shape s s'"
      by (rule client_hop_ok(2) [OF ok f(1,2)])
    moreover have "held T k s \<Longrightarrow> held T k s'" for k
      by (rule client_hop_held(1) [OF ok f _ u(2)])
    ultimately show ?thesis
      by (intro keep) (simp_all add: same_shape_def)
  next
    case (Beat clk rs)
    then have f: "\<And>i. rng_ok (rs i)" "heartbeat L key clk rs s = Inr (s', evs)"
      using i run by (simp_all add: input_ok_def vpn_step_def)
    note hb = heartbeat_keeps [OF ok f]
    have "px_sock (cx_paths (vs_ctx s') ! k) = px_sock (cx_paths (vs_ctx s) ! k)" for k
      by (rule heartbeat_sock [OF ok f])
    then show ?thesis
      using hb by (intro keep) (auto simp: same_shape_def intro: held_same)
  next
    case (Tick now)
    then obtain sn where "s' = s\<lparr>vs_ctx := (vs_ctx s)\<lparr>cx_snmp := sn\<rparr>, vs_last := sn\<rparr>"
      using run by (auto simp: vpn_step_def bind_res_eq_Inr snmp_round_def Let_def split: if_splits)
    then show ?thesis
      by (intro keep) (simp_all add: held_def)
  next
    case (Signalled sg)
    then have "s' = fst (signal_cb sg s)"
      using run by (simp add: vpn_step_def)
    then show ?thesis
      by (intro keep) (simp_all add: held_def signal_cb_def vpn_stop_def split: signal.split)
  qed
qed

lemma trail_equipped:
  assumes "trail (timed_trans tgt L key) ts ls us" and "lz4_ok L"
  shows "fst ts \<le> fst us" and "fst us < T \<Longrightarrow> T \<le> fst ts + 5000 \<Longrightarrow> equipped T (snd ts) \<Longrightarrow> equipped T (snd us)"
proof -
  have "fst ts \<le> fst us \<and> (fst us < T \<and> T \<le> fst ts + 5000 \<and> equipped T (snd ts) \<longrightarrow> equipped T (snd us))"
    using assms(1)
  proof (induction rule: trail.induct)
    case (rest ts)
    then show ?case by simp
  next
    case (go ts l us ls vs)
    obtain t s u i s' evs where l: "ts = (t, s)" "us = (u, s')" "t \<le> u" "input_ok s i" "due u s i"
      "vpn_step tgt L key i s = Some (Inr (s', evs))"
      using go.hyps(1) by (auto elim!: timed_transE)
    have "equipped T s'" if "u < T" "T \<le> t + 5000" "equipped T s"
      by (rule equipped_step [OF assms(2) that(3) l(4-6) that(1)]) (use that(2) l(3) in simp)
    then show ?case
      using go.IH l(1-3) by auto
  qed
  then show "fst ts \<le> fst us" and "fst us < T \<Longrightarrow> T \<le> fst ts + 5000 \<Longrightarrow> equipped T (snd ts) \<Longrightarrow> equipped T (snd us)"
    by blast+
qed

lemma trail_client:
  assumes "trail (timed_trans tgt L key) ts ls us" and "lz4_ok L" and "vpn_ok (snd ts)"
  shows "vpn_ok (snd us) \<and> cx_mode (vs_ctx (snd us)) = cx_mode (vs_ctx (snd ts))"
proof (rule trail_keep [OF assms(1), where P = "\<lambda>us. vpn_ok (snd us) \<and> cx_mode (vs_ctx (snd us)) = cx_mode (vs_ctx (snd ts))"])
  show "vpn_ok (snd vs) \<and> cx_mode (vs_ctx (snd vs)) = cx_mode (vs_ctx (snd ts))"
    if "vpn_ok (snd us) \<and> cx_mode (vs_ctx (snd us)) = cx_mode (vs_ctx (snd ts))" "timed_trans tgt L key us l vs" for us l vs
    using that vpn_step_ok [OF assms(2)] by (auto elim!: timed_transE)
qed (use assms(3) in simp)

text \<open>After a hop all of whose sockets could be bound.\<close>

lemma hop_equipped:
  assumes "lz4_ok L" and "vpn_ok s" and "cx_mode (vs_ctx s) = MODE_CLIENT" and "\<forall>k. bound N k"
    and "timed_trans tgt L key (t, s) (u, Hop clk N) (v, s')"
  shows "equipped (u + 5000) s'" and "v = u"
proof -
  have h: "v = u" "\<And>k. wf_pbuf (fresh_buf N k)" "\<And>k. now_of N k = u" "\<exists>evs. client_hop L key N clk s = Inr (s', evs)"
    using assms(5) by (auto simp: timed_trans_iff input_ok_def due_def vpn_step_def)
  then obtain evs where run: "client_hop L key N clk s = Inr (s', evs)"
    by blast
  show "v = u" by (rule h(1))
  show "equipped (u + 5000) s'"
    using client_hop_ok [OF assms(2) h(2) run] client_hop_held(2) [OF assms(2) h(2) run h(3)] assms(3,4)
    by (simp add: equipped_def same_shape_def)
qed

section \<open>Properties\<close>

text \<open>
  C11. A client that can bind its sockets keeps sending. In any run of a client from its start,
  with any inputs at any times, if the last hop that could bind a socket for every path is less
  than five seconds ago, every path holds an open socket, and neither a packet from the tun
  device nor a heartbeat can fail: the assertion and the use of a closed socket of
  \<open>segments_end\<close> both need five seconds without such a hop.
\<close>

theorem client_keeps_sending:
  assumes "lz4_ok L" and "usable tgt c" and "cf_mode c = MODE_CLIENT" and "initial L key c s0"
    and "trail (timed_trans tgt L key) (t0, s0) (h @ (u, Hop clk N) # h') (v, s)"
    and "\<forall>k. bound N k" and "v < u + 5000"
    and "input_ok s i" and "(\<exists>frame r. i = Frame frame r) \<or> (\<exists>clk rs. i = Beat clk rs)"
  shows "(\<forall>p < nat (cx_path_count (vs_ctx s)). \<exists>k \<in> set (vs_open s). px_sock (cx_paths (vs_ctx s) ! p) = Some k)
    \<and> (\<exists>s' evs. vpn_step tgt L key i s = Some (Inr (s', evs)))"
proof -
  obtain t1 s1 t2 s2 where run: "trail (timed_trans tgt L key) (t0, s0) h (t1, s1)"
    "timed_trans tgt L key (t1, s1) (u, Hop clk N) (t2, s2)" "trail (timed_trans tgt L key) (t2, s2) h' (v, s)"
    using assms(5) by (auto simp: trail_append)
  have s1: "vpn_ok s1" "cx_mode (vs_ctx s1) = MODE_CLIENT"
    using trail_client [OF run(1) assms(1)] initial_ok(1,2) [OF assms(2,4)] assms(3) by simp_all
  note hop = hop_equipped [OF assms(1) s1 assms(6) run(2)]
  have e: "equipped (u + 5000) s"
    using trail_equipped(2) [OF run(3) assms(1), of "u + 5000"] hop assms(7) by simp
  note socks = equipped_sockets [OF e]
  have ok: "vpn_ok s"
    using e by (simp add: equipped_def)
  have "\<exists>r. step_outcome tgt L key i s = Inr r"
  proof (cases "step_outcome tgt L key i s")
    case (Inl e)
    then show ?thesis
      using step_outcome_fails [OF assms(1) ok assms(8)] socks assms(9)
      by (auto simp: tolerates_def server_tolerates_def)
  qed simp
  then have "\<exists>s' evs. vpn_step tgt L key i s = Some (Inr (s', evs))"
    by (auto simp: step_outcome_def split: option.splits sum.splits)
  moreover have "\<exists>k \<in> set (vs_open s). px_sock (cx_paths (vs_ctx s) ! p) = Some k" if "p < nat (cx_path_count (vs_ctx s))" for p
    using socks that unfolding unbound_path_def stale_path_def by (metis option.exhaust)
  ultimately show ?thesis
    by blast
qed

text \<open>A client that hops once, a second after its start.\<close>

definition demo_net :: netenv where
  "demo_net = \<lparr>remote_of = \<lambda>_ _. no_addr, local_of = \<lambda>_ _. no_addr, bound = \<lambda>_. True,
     fresh_buf = \<lambda>_. packet_of [], now_of = \<lambda>_. 1000\<rparr>"

theorem client_keeps_sending_witness:
  "\<exists>s0 s s' evs. initial demo_lib [1, 2] (parsed demo_file) s0
    \<and> trail (timed_trans Linux demo_lib [1, 2]) (0, s0) [(1000, Hop (\<lambda>_. (0, 0)) demo_net)] (1000, s)
    \<and> vpn_step Linux demo_lib [1, 2] (Beat (\<lambda>_ _. (0, 0)) (\<lambda>_. demo_rng)) s = Some (Inr (s', evs))"
proof -
  let ?c = "parsed demo_file" and ?i = "Beat (\<lambda>_ _. (0, 0)) (\<lambda>_. demo_rng)"
  note u = runs_as_usable [OF demo_files_run(2)]
  obtain s0 where s0: "initial demo_lib [1, 2] ?c s0"
    using initial_exists [OF u(1)] by blast
  have ok: "vpn_ok s0" "cx_mode (vs_ctx s0) = MODE_CLIENT"
    using initial_ok(1,2) [OF u(1) s0] u(2) by simp_all
  have buf: "\<And>k. wf_pbuf (fresh_buf demo_net k)"
    by (simp add: demo_net_def packet_of_fields)
  obtain s evs where hop: "client_hop demo_lib [1, 2] demo_net (\<lambda>_. (0, 0)) s0 = Inr (s, evs)"
    using client_hop_runs [OF ok(1) buf] by blast
  have "timed_trans Linux demo_lib [1, 2] (0, s0) (1000, Hop (\<lambda>_. (0, 0)) demo_net) (1000, s)"
    unfolding timed_trans_iff using hop ok(2) buf by (simp add: input_ok_def due_def vpn_step_def) (simp add: demo_net_def)
  then have tr: "trail (timed_trans Linux demo_lib [1, 2]) (0, s0) ([] @ (1000, Hop (\<lambda>_. (0, 0)) demo_net) # []) (1000, s)"
    by simp
  have "input_ok s ?i" "\<forall>k. bound demo_net k"
    by (simp_all add: input_ok_def demo_rng_ok demo_net_def)
  then show ?thesis
    using client_keeps_sending [OF demo_lz4_ok u s0 tr, of ?i] s0 tr by fastforce
qed

end
