(* ===== verification/Accounts.thy ===== *)
theory Accounts
  imports Safety
begin

text \<open>
  The counters of \<^verbatim>\<open>snmp_t\<close> against what the process did: every segment adds to them exactly
  what its effects show, so the counters of a running process are the sums over everything it
  has sent and received since \<^verbatim>\<open>vpn_run\<close> was entered, modulo \<open>2\<^sup>6\<^sup>4\<close>.
\<close>

lemma unat_le_iff: "unat x \<le> k \<longleftrightarrow> uint x \<le> int k"
  by (simp only: uint_nat of_nat_le_iff)

section \<open>Entries\<close>

text \<open>The datagrams among the effects, and the packets handed to the tun device.\<close>

fun datagrams :: "effect list \<Rightarrow> byte list list" where
  "datagrams [] = []"
| "datagrams (UdpSend k a dg # evs) = dg # datagrams evs"
| "datagrams (_ # evs) = datagrams evs"

fun tun_packets :: "effect list \<Rightarrow> byte list list" where
  "tun_packets [] = []"
| "tun_packets (TunWrite ds # evs) = ds # tun_packets evs"
| "tun_packets (_ # evs) = tun_packets evs"

lemma datagrams_append [simp]: "datagrams (es @ es') = datagrams es @ datagrams es'"
  by (induction es rule: datagrams.induct) simp_all

lemma tun_packets_append [simp]: "tun_packets (es @ es') = tun_packets es @ tun_packets es'"
  by (induction es rule: tun_packets.induct) simp_all

abbreviation bytes_of :: "byte list list \<Rightarrow> nat" where
  "bytes_of dgs \<equiv> sum_list (map length dgs)"

text \<open>The counters grow by what the effects show.\<close>

definition tally :: "snmp \<Rightarrow> effect list \<Rightarrow> snmp \<Rightarrow> bool" where
  "tally a evs b \<longleftrightarrow> out_packets b = out_packets a + of_nat (length (datagrams evs))
     \<and> out_bytes b = out_bytes a + of_nat (bytes_of (datagrams evs))
     \<and> in_bytes b = in_bytes a + of_nat (bytes_of (tun_packets evs))"

definition counted :: "vpn \<Rightarrow> effect list \<Rightarrow> vpn \<Rightarrow> bool" where
  "counted s evs s' \<longleftrightarrow> tally (cx_snmp (vs_ctx s)) evs (cx_snmp (vs_ctx s'))"

lemma tally_none [simp]: "tally a [] a"
  by (simp add: tally_def)

lemma tally_log [simp]: "tally a [Logged m] a"
  by (simp add: tally_def)

lemma tally_join: "tally a es b \<Longrightarrow> tally b es' c \<Longrightarrow> tally a (es @ es') c"
  by (simp add: tally_def algebra_simps)

lemma counted_none [simp]: "counted s [] s"
  by (simp add: counted_def)

lemma counted_join: "counted s es t \<Longrightarrow> counted t es' u \<Longrightarrow> counted s (es @ es') u"
  unfolding counted_def by (rule tally_join)

section \<open>Segments\<close>

lemma steps_counted:
  assumes "steps fs s = Inr (s', evs)" and "P s"
    and "\<And>f t t' es. f \<in> set fs \<Longrightarrow> P t \<Longrightarrow> f t = Inr (t', es) \<Longrightarrow> P t' \<and> counted t es t'"
  shows "counted s evs s'"
  using assms
proof (induction fs arbitrary: s evs)
  case Nil
  then show ?case by simp
next
  case (Cons f fs)
  obtain t es es' where t: "f s = Inr (t, es)" "steps fs t = Inr (s', es')" "evs = es @ es'"
    using Cons.prems(1) by (auto simp: bind_res_eq_Inr)
  have st: "P t" "counted s es t"
    using Cons.prems(3) [OF list.set_intros(1) Cons.prems(2) t(1)] by simp_all
  have "counted t es' s'"
    by (rule Cons.IH [OF t(2) st(1)]) (rule Cons.prems(3) [OF list.set_intros(2)])
  then show ?case
    unfolding t(3) by (rule counted_join [OF st(2)])
qed

lemma send_on_tally:
  assumes "send_on L key r opened p mtu buf sn = Inr (e, sn', evs)" and "rng_ok r" and "fits buf mtu"
  shows "tally sn evs sn'"
proof -
  obtain n e' where e': "encapsulate L key r (px_token p) buf mtu = Inr (n, e')" "20 \<le> n"
    "n \<le> 20 + max (uint (len buf)) mtu" "wf_pbuf e'"
    using encapsulate_sizes [OF assms(2,3)] by metis
  then have "nat n \<le> 2072"
    using assms(3) unat_le_iff [of "len buf" 2048] by (auto simp: fits_def)
  then have "length (take (nat n) (pbuf_bytes e')) = nat n"
    using e'(4) by simp
  moreover have "word_of_int n = (of_nat (nat n) :: u64)"
    using e'(2) by simp
  ultimately show ?thesis
    using assms(1) e'(1) by (auto simp: send_on_def Let_def tally_def split: option.splits if_splits)
qed

lemma udp_sender_counted:
  assumes s: "vpn_ok s" and r: "rng_ok r" and fit: "fits (vs_tun_buf s) (cx_mtu (vs_ctx s))"
    and run: "udp_sender L key r s = Some (Inr (s', evs))"
  shows "counted s evs s'"
proof -
  let ?c = "vs_ctx s"
  have pre: "0 < cx_path_count ?c" "vs_turn s < nat (cx_path_count ?c)"
    using s by (auto simp: vpn_ok_def ctx_ok_def)
  obtain q where form: "udp_sender L key r s =
         (if px_sock (cx_paths ?c ! q) = None then Some (Inl AssertFailed)
          else if \<not> alive_in ?c q then Some (Inr (s\<lparr>vs_turn := q\<rparr>, []))
          else Some (bind_res (send_on L key r (vs_open s) (cx_paths ?c ! q) (cx_mtu ?c) (vs_tun_buf s) (cx_snmp ?c))
            (\<lambda>(e, sn, evs). Inr (s\<lparr>vs_turn := q, vs_ctx := ?c\<lparr>cx_snmp := sn\<rparr>, vs_tun_buf := e\<rparr>, evs))))"
    by (rule udp_sender_form [OF pre])
  show ?thesis
    using run send_on_tally [OF _ r fit] by (auto simp: form counted_def bind_res_eq_Inr split: if_splits)
qed

lemma tun_worker_counted:
  assumes s: "vpn_ok s" and r: "rng_ok r" and run: "tun_worker tgt L key r frame s = Some (Inr (s', evs))"
  shows "counted s evs s'"
proof (rule tun_worker_form [where tgt=tgt and L=L and key=key and r=r and frame=frame, OF s])
  assume "tun_worker tgt L key r frame s = Some (Inr (s\<lparr>vs_tun_alive := False\<rparr>, [Logged ''tun_read'']))"
  then show ?thesis
    using run by (simp add: counted_def)
next
  fix ds b
  assume ok: "vpn_ok (s\<lparr>vs_tun_buf := b\<rparr>)" and fit: "fits b (cx_mtu (vs_ctx s))"
    and form: "tun_worker tgt L key r frame s = udp_sender L key r (s\<lparr>vs_tun_buf := b\<rparr>)"
  have "counted (s\<lparr>vs_tun_buf := b\<rparr>) evs s'"
    by (rule udp_sender_counted [OF ok r _ run [unfolded form]]) (simp add: fit)
  then show ?thesis
    by (simp add: counted_def)
qed

lemma worker_packet_tally:
  assumes b: "wf_pbuf (wk_buf w)" and n: "8 \<le> n" "n \<le> 2072" and lz4: "lz4_ok L"
    and run: "worker_packet L key w n tw c = Inr (c', w', evs)"
  shows "tally (cx_snmp c) evs (cx_snmp c')"
proof -
  obtain k b' where d: "decapsulate L key (wk_token w) (wk_buf w) n = Inr (k, b')"
    using run by (auto simp: worker_packet_def bind_res_eq_Inr)
  have k: "k = -1 \<or> k = 0 \<or> k = uint (len b') \<and> 1 \<le> k \<and> k \<le> 2048" and wf: "wf_pbuf b'"
    using decapsulate_ok [OF lz4 b n d] by blast+
  consider "k < 0" | "k = 0" | "0 < k" "k = uint (len b')"
    using k by auto
  then show ?thesis
  proof cases
    case 3
    then have u: "unat (len b') \<le> 2048"
      using k unfolding unat_le_iff by auto
    have "length (contents b') = unat (len b')"
      using wf u by (simp add: contents_def wf_pbuf_def)
    moreover have "word_of_int k = (of_nat (unat (len b')) :: u64)"
      using 3(2) by (simp only: uint_nat of_int_of_nat_eq)
    ultimately show ?thesis
      using run 3(1) mem_read_contents [OF wf u]
      by (auto simp: worker_packet_def d Let_def tally_def bind_res_eq_Inr)
  qed (use run in \<open>auto simp: worker_packet_def d Let_def tally_def invalid_packet_def\<close>)
qed

lemma worker_step_counted:
  assumes s: "vpn_ok s" and j: "j < length (vs_workers s)" and lz4: "lz4_ok L"
    and run: "worker_step L key j rv s = Inr (s', evs)"
  shows "counted s evs s'"
proof -
  let ?w = "vs_workers s ! j" and ?c = "vs_ctx s"
  have c: "ctx_ok ?c" and b: "wf_pbuf (wk_buf ?w)"
    using s j by (simp_all add: vpn_ok_def worker_ok_def)
  have l: "length (received ?c rv) \<le> 2072"
    using c by (auto simp: received_def ctx_ok_def layout_defs split: recv.split)
  then obtain b1 where b1: "recv_into (received ?c rv) (wk_buf ?w) = Inr b1" "wf_pbuf b1"
    by (rule recv_into_ok [OF b])
  obtain c1 wo where rnd: "worker_round L key ?w rv ?c = Inr (c1, wo, evs)"
    and rest: "(case wo of Some w' \<Rightarrow> Inr (s\<lparr>vs_ctx := c1, vs_workers := (vs_workers s)[j := w']\<rparr>, evs)
        | None \<Rightarrow> Inr (s\<lparr>vs_ctx := c1, vs_workers := take j (vs_workers s) @ drop (Suc j) (vs_workers s),
                       vs_open := removeAll (wk_sock ?w) (vs_open s)\<rparr>, evs)) = (Inr (s', evs) :: (vpn \<times> effect list) res)"
    using run by (auto simp: worker_step_def Let_def bind_res_eq_Inr split: option.splits)
  have ctx: "vs_ctx s' = c1"
    using rest by (cases wo) auto
  let ?w1 = "?w\<lparr>wk_addr := sender_addr ?c ?w rv, wk_buf := b1\<rparr>"
  have pk: "tally (cx_snmp ?c) evs (cx_snmp c')"
    if "worker_packet L key ?w1 (int (length (received ?c rv))) tw ?c = Inr (c', w', evs)" "20 \<le> length (received ?c rv)"
    for tw c' w'
    by (rule worker_packet_tally [OF _ _ _ lz4 that(1)]) (use b1(2) l that(2) in simp_all)
  have "tally (cx_snmp ?c) evs (cx_snmp c1)"
    using rnd pk by (auto simp: worker_round_def b1(1) Let_def bind_res_eq_Inr layout_defs tally_def
        split: if_splits recv.splits)
  then show ?thesis
    by (simp add: counted_def ctx)
qed

lemma worker_start_counted: "worker_start N i token timeout s = Inr (s', evs) \<Longrightarrow> counted s evs s'"
  by (auto simp: worker_start_def Let_def counted_def split: if_splits)

lemma client_hop_counted:
  assumes "client_hop L key N clk s = Inr (s', evs)"
  shows "counted s evs s'"
  using assms unfolding client_hop_def
proof (rule steps_counted [where P = "\<lambda>_. True"])
  fix f t t' es
  assume "f \<in> set (map (hop_path L key N clk) [0..<nat (cx_path_count (vs_ctx s))])" and "f t = Inr (t', es)"
  then show "True \<and> counted t es t'"
    using worker_start_counted by (auto simp: hop_path_def bind_res_eq_Inr)
qed simp

lemma server_workers_counted:
  assumes "steps (server_workers N c) s = Inr (s', evs)"
  shows "counted s evs s'"
  using assms
proof (rule steps_counted [where P = "\<lambda>_. True"])
  fix f t t' es
  assume "f \<in> set (server_workers N c)" and "f t = Inr (t', es)"
  then show "True \<and> counted t es t'"
    using worker_start_counted by (auto simp: server_workers_def)
qed simp

lemma heartbeat_path_counted:
  assumes s: "vpn_ok s" and i: "i < nat (cx_path_count (vs_ctx s))" and r: "rng_ok (rs i)"
    and run: "heartbeat_path L key clk rs i s = Inr (s', evs)"
  shows "counted s evs s'"
proof -
  let ?c = "vs_ctx s" and ?p = "cx_paths (vs_ctx s) ! i"
  have c: "ctx_ok ?c" and b: "wf_pbuf (vs_hb_buf s)"
    using s by (simp_all add: vpn_ok_def)
  have i8: "i < 8" "cx_mtu ?c \<le> 2048"
    using index_bound [OF c i] c by (simp_all add: ctx_ok_def)
  note fill = filled_eq(1) [OF path_ok_nth [OF c i8(1)], of L key "clk i"]
  show ?thesis
    using run send_on_tally [OF _ r fits_hb [OF b i8(2)]]
    by (auto simp: heartbeat_path_def Let_def fill counted_def bind_res_eq_Inr split: if_splits)
qed

lemma heartbeat_counted:
  assumes s: "vpn_ok s" and r: "\<And>i. rng_ok (rs i)" and run: "heartbeat L key clk rs s = Inr (s', evs)"
  shows "counted s evs s'"
  using run unfolding heartbeat_def
proof (rule steps_counted [where P = "\<lambda>t. vpn_ok t \<and> same_shape s t"])
  fix f t t' es
  assume f: "f \<in> set (map (heartbeat_path L key clk rs) [0..<nat (cx_path_count (vs_ctx s))])"
    and t: "vpn_ok t \<and> same_shape s t" and step: "f t = Inr (t', es)"
  then obtain i where i: "f = heartbeat_path L key clk rs i" "i < nat (cx_path_count (vs_ctx t))"
    by (auto simp: same_shape_def)
  have ok: "vpn_ok t" "heartbeat_path L key clk rs i t = Inr (t', es)"
    using t step i(1) by simp_all
  show "(vpn_ok t' \<and> same_shape s t') \<and> counted t es t'"
    using heartbeat_path_keeps(1,2) [OF ok(1) i(2) r ok(2)] heartbeat_path_counted [OF ok(1) i(2) r ok(2)] t
      same_shape_trans by blast
qed (simp add: s)

lemma snmp_round_counted: "snmp_round now s = Inr s' \<Longrightarrow> counted s [] s'"
  by (auto simp: snmp_round_def Let_def counted_def tally_def split: if_splits)

lemma vpn_step_counted:
  assumes "lz4_ok L" and "vpn_ok s" and "input_ok s i" and "vpn_step tgt L key i s = Some (Inr (s', evs))"
  shows "counted s evs s'"
proof (cases i)
  case (Beat clk rs)
  then show ?thesis
    using assms heartbeat_counted [OF assms(2), of rs] by (simp add: input_ok_def vpn_step_def)
qed (use assms tun_worker_counted worker_step_counted client_hop_counted snmp_round_counted in
    \<open>auto simp: input_ok_def vpn_step_def bind_res_eq_Inr signal_cb_def vpn_stop_def counted_def\<close>)

text \<open>A step with its effects.\<close>

definition vpn_output :: "target \<Rightarrow> lib \<Rightarrow> byte list \<Rightarrow> vpn \<Rightarrow> effect list \<Rightarrow> vpn \<Rightarrow> bool" where
  "vpn_output tgt L key s evs s' \<longleftrightarrow> (\<exists>i. input_ok s i \<and> vpn_step tgt L key i s = Some (Inr (s', evs)))"

interpretation ledger: audited_system "vpn_output tgt L key" "\<lambda>s. lz4_ok L \<and> vpn_ok s" counted for tgt L key
proof unfold_locales
  show "lz4_ok L \<and> vpn_ok t" if "lz4_ok L \<and> vpn_ok s" "vpn_output tgt L key s es t" for s es t
    using that vpn_step_ok(1) by (auto simp: vpn_output_def)
  show "counted s [] s" for s
    by simp
  show "counted s (es @ es') u" if "counted s es t" "counted t es' u" for s es t es' u
    by (rule counted_join [OF that])
  show "counted s es t" if "lz4_ok L \<and> vpn_ok s" "vpn_output tgt L key s es t" for s es t
    using that vpn_step_counted by (auto simp: vpn_output_def)
qed

lemma run_start_counted:
  assumes b: "vpn_ok b" "socks_ok b" "vs_workers b = []" and buf: "\<And>k. wf_pbuf (fresh_buf N k)" and r: "\<And>i. rng_ok (rs i)"
    and run: "run_start L key N clk1 clk2 rs now b = Inr (s, evs)"
  shows "counted b evs s"
proof -
  obtain s1 evs1 s2 evs2 s3 where st: "(if cx_mode (vs_ctx b) = MODE_CLIENT then client_hop L key N clk1 b
               else steps (server_workers N (vs_ctx b)) b) = Inr (s1, evs1)"
    "heartbeat L key clk2 rs s1 = Inr (s2, evs2)" "snmp_round now s2 = Inr s3"
    "s = s3\<lparr>vs_ctx := (vs_ctx s3)\<lparr>cx_running := 1\<rparr>\<rparr>" "evs = evs1 @ evs2"
    using run by (auto simp: run_start_def bind_res_eq_Inr)
  have s1: "vpn_ok s1" "counted b evs1 s1"
    using st(1) client_hop_ok(1) [OF b(1) buf] client_hop_counted server_workers_ok(1) [OF b buf] server_workers_counted
    by (auto split: if_splits)
  have "counted s1 (evs2 @ []) s3"
    by (rule counted_join [OF heartbeat_counted [OF s1(1) r st(2)] snmp_round_counted [OF st(3)]])
  from counted_join [OF s1(2) this] show ?thesis
    by (simp add: st(4,5) counted_def)
qed

section \<open>Properties\<close>

text \<open>
  C20. The traffic counters are exact. At any moment of a running process, client or server, the
  counter of packets sent is the number of datagrams passed to \<^verbatim>\<open>udpsend\<close> since \<^verbatim>\<open>vpn_run\<close> was
  entered, heartbeats included, and \<^verbatim>\<open>out_bytes\<close> is the sum of their sizes on the wire; \<^verbatim>\<open>in_bytes\<close>
  is the sum of the sizes of the packets handed to the tun device, modulo \<open>2\<^sup>6\<^sup>4\<close>. So the two
  directions are counted differently: header, padding and compression count in one only.
\<close>

theorem counters_are_exact:
  assumes "lz4_ok L" and "usable tgt c" and "init_ctx c = Inr ctx0" and "\<forall>k. wf_pbuf (fresh_buf N k)"
    and "\<forall>i. rng_ok (rs i)" and "wf_pbuf tb" "wf_pbuf hb"
    and "run_start L key N clk1 clk2 rs now (boot (ctx0\<lparr>cx_tun := tun\<rparr>) tb hb now0) = Inr (s, evs)"
    and "trail (vpn_output tgt L key) s ess s'"
  shows "out_packets (cx_snmp (vs_ctx s')) = of_nat (length (datagrams (evs @ concat ess)))
    \<and> out_bytes (cx_snmp (vs_ctx s')) = of_nat (bytes_of (datagrams (evs @ concat ess)))
    \<and> in_bytes (cx_snmp (vs_ctx s')) = of_nat (bytes_of (tun_packets (evs @ concat ess)))"
proof -
  obtain c0 where "init_ctx c = Inr c0" "ctx_ok c0" "\<forall>p \<in> set (cx_paths c0). fresh_path p"
    by (rule init_ctx_ok [OF assms(2)])
  then have c0: "ctx_ok ctx0" "\<forall>p \<in> set (cx_paths ctx0). fresh_path p"
    using assms(3) by simp_all
  define b where "b = boot (ctx0\<lparr>cx_tun := tun\<rparr>) tb hb now0"
  have b: "vpn_ok b" "socks_ok b" "vs_workers b = []"
    using boot_ok [OF c0 assms(6,7)] by (simp_all add: b_def) (simp add: boot_def)
  have "cx_snmp ctx0 = zero_snmp"
    using assms(3) by (auto simp: init_ctx_def zero_ctx_def bind_res_eq_Inr)
  then have zero: "cx_snmp (vs_ctx b) = zero_snmp"
    by (simp add: b_def boot_def)
  have start: "counted b evs s"
    by (rule run_start_counted [OF b _ _ assms(8) [folded b_def]]) (use assms(4,5) in simp_all)
  have "initial L key c s"
    using initialI [OF assms(3-8)] .
  then have "vpn_ok s"
    by (rule initial_ok(1) [OF assms(2)])
  then have "counted s (concat ess) s'"
    using ledger.trail_audit [OF assms(9)] assms(1) by simp
  from counted_join [OF start this] show ?thesis
    by (simp add: counted_def tally_def zero) (simp add: zero_snmp_def)
qed

theorem counters_are_exact_witness:
  "\<exists>N clk1 clk2 rs now b s evs es s'. run_start demo_lib [1, 2] N clk1 clk2 rs now b = Inr (s, evs)
    \<and> heartbeat demo_lib [1, 2] (\<lambda>_ _. (0, 0)) (\<lambda>_. demo_rng) s = Inr (s', es)
    \<and> out_packets (cx_snmp (vs_ctx s')) = of_nat (length (datagrams (evs @ es)))"
proof -
  let ?c = "parsed demo_server_file" and ?rs = "\<lambda>_ :: nat. demo_rng" and ?clk = "\<lambda>(_ :: nat) (_ :: nat). (0 :: int, 0 :: int)"
  note u = runs_as_usable [OF demo_files_run(1)]
  obtain s where init: "initial demo_lib [1, 2] ?c s"
    using initial_exists [OF u(1)] by blast
  then obtain ctx0 tun N clk1 clk2 rs now0 now tb hb evs where start: "init_ctx ?c = Inr ctx0" "\<forall>k. wf_pbuf (fresh_buf N k)"
    "\<forall>i. rng_ok (rs i)" "wf_pbuf tb" "wf_pbuf hb"
    "run_start demo_lib [1, 2] N clk1 clk2 rs now (boot (ctx0\<lparr>cx_tun := tun\<rparr>) tb hb now0) = Inr (s, evs)"
    unfolding initial_def by blast
  have ok: "vpn_ok s" "socks_ok s"
    using initial_ok(3) [OF u(1) init u(2)] by (simp_all add: server_state_def)
  have r: "\<And>i. rng_ok (?rs i)"
    by (rule demo_rng_ok)
  obtain s' es where hb': "heartbeat demo_lib [1, 2] ?clk ?rs s = Inr (s', es)"
    by (rule heartbeat_ok [where rs="?rs" and L=demo_lib and key="[1, 2]" and clk="?clk", OF ok r])
  have "vpn_output Linux demo_lib [1, 2] s es s'"
    unfolding vpn_output_def
    by (rule exI [of _ "Beat ?clk ?rs"]) (simp add: input_ok_def vpn_step_def hb' demo_rng_ok)
  then have "trail (vpn_output Linux demo_lib [1, 2]) s [es] s'"
    by simp
  from counters_are_exact [OF demo_lz4_ok u(1) start this] show ?thesis
    using start(6) hb' by fastforce
qed

end
