(* ===== verification/Opening.thy ===== *)
theory Opening
  imports Sessions
begin

text \<open>
  How a path comes to life, and how it can be taken over: two heartbeats, one each way, make the
  path alive on both sides; a datagram that is sent to the server a second time moves the
  session to whoever sent it.
\<close>

text \<open>A datagram of the other side arrives at worker \<open>j\<close>.\<close>

lemma worker_step_delivers:
  assumes lz4: "lz4_ok L" and r: "rng_ok r" and p: "fits p mtu" "flag p = 0" "uint (len p) \<le> mtu"
    and e: "encapsulate L key r (wk_token (vs_workers s ! j)) p mtu = Inr (n, e)"
    and s: "vpn_ok s" "mtu \<le> cx_mtu (vs_ctx s)" and j: "j < length (vs_workers s)"
    and tok: "cx_mode (vs_ctx s) = MODE_CLIENT
      \<or> wk_token (vs_workers s ! j) \<in> set (px_valid (cx_paths (vs_ctx s) ! wk_path (vs_workers s ! j)))"
  obtains s' w' where "worker_step L key j (Datagram peer (take (nat n) (pbuf_bytes e)) tw) s = Inr (s',
      if len p = 0 then [] else TunWrite (contents p) # (if tw < 0 then [Logged ''tun_write''] else []))"
    "heard (vs_workers s ! j) peer (vs_ctx s) (vs_ctx s')" "vpn_ok s'"
    "vs_workers s' = (vs_workers s)[j := w']" "vs_open s' = vs_open s"
    "wk_path w' = wk_path (vs_workers s ! j)" "wk_token w' = wk_token (vs_workers s ! j)" "wk_sock w' = wk_sock (vs_workers s ! j)"
    "evolves (wk_sock (vs_workers s ! j)) (vs_ctx s) (vs_ctx s')"
proof -
  let ?w = "vs_workers s ! j" and ?c = "vs_ctx s" and ?rv = "Datagram peer (take (nat n) (pbuf_bytes e)) tw"
  let ?evs = "if len p = 0 then [] else TunWrite (contents p) # (if tw < 0 then [Logged ''tun_write''] else [])"
  have c: "ctx_ok ?c" and w: "worker_ok s ?w"
    using s(1) j by (simp_all add: vpn_ok_def)
  obtain c' w' where rnd: "worker_round L key ?w ?rv ?c = Inr (c', Some w', ?evs)" and h: "heard ?w peer ?c c'"
    using worker_round_delivers [where peer=peer and tw=tw and c="?c" and w="?w", OF lz4 r p e c s(2) _ worker_path_bound [OF w c] tok] w
    by (auto simp: worker_ok_def)
  have run: "worker_step L key j ?rv s = Inr (s\<lparr>vs_ctx := c', vs_workers := (vs_workers s)[j := w']\<rparr>, ?evs)"
    by (simp only: worker_step_def Let_def rnd bind_res_Inr prod.case option.case)
  have w': "\<exists>a b. w' = ?w\<lparr>wk_addr := a, wk_buf := b\<rparr>"
    using worker_round_ok(2) [OF c _ _ _ _ lz4 rnd] w by (auto simp: worker_ok_def)
  show ?thesis
    by (rule that [where w'=w', OF run _ worker_step_ok(1) [OF s(1) j lz4 run] _ _ _ _ _ worker_step_ok(2) [OF s(1) j lz4 run]])
      (use h w' in auto)
qed

text \<open>The heartbeat of a path that beats, as the datagram the other side gets.\<close>

lemma heartbeat_sends:
  assumes s: "vpn_ok s" "socks_ok s" and r: "\<And>i. rng_ok (rs i)"
    and i: "i < nat (cx_path_count (vs_ctx s))" "beats (vs_ctx s) (cx_paths (vs_ctx s) ! i)"
  obtains s' evs b n e where "heartbeat L key clk rs s = Inr (s', evs)" "vpn_ok s'" "socks_ok s'"
    "UdpSend (the (px_sock (cx_paths (vs_ctx s) ! i))) (px_remote (cx_paths (vs_ctx s) ! i)) (take (nat n) (pbuf_bytes e)) \<in> set evs"
    "fits b (cx_mtu (vs_ctx s))" "flag b = 0" "len b = 0"
    "encapsulate L key (rs i) (px_token (cx_paths (vs_ctx s) ! i)) b (cx_mtu (vs_ctx s)) = Inr (n, e)"
    "vs_workers s' = vs_workers s" "cx_mode (vs_ctx s') = cx_mode (vs_ctx s)" "cx_mtu (vs_ctx s') = cx_mtu (vs_ctx s)"
    "\<exists>v. cx_paths (vs_ctx s') ! i = beaten v (cx_paths (vs_ctx s) ! i)"
proof -
  obtain sn b evs s' where st: "heartbeat L key clk rs s = Inr (s', evs)" "vpn_ok s'" "socks_ok s'"
    "s' = round_state s (beaten_paths L key clk (nat (cx_path_count (vs_ctx s))) (cx_paths (vs_ctx s))) sn b"
    "\<forall>i < nat (cx_path_count (vs_ctx s)). beats (vs_ctx s) (cx_paths (vs_ctx s) ! i) \<longrightarrow>
      sends_on_path L key (rs i) (cx_mtu (vs_ctx s)) (cx_paths (vs_ctx s) ! i) evs"
    by (rule heartbeat_ok [where rs=rs and L=L and key=key and clk=clk, OF s r]) blast
  have c: "ctx_ok (vs_ctx s)"
    using s(1) by (simp add: vpn_ok_def)
  obtain b' n e where "fits b' (cx_mtu (vs_ctx s))" "flag b' = 0" "len b' = 0"
    "encapsulate L key (rs i) (px_token (cx_paths (vs_ctx s) ! i)) b' (cx_mtu (vs_ctx s)) = Inr (n, e)"
    "UdpSend (the (px_sock (cx_paths (vs_ctx s) ! i))) (px_remote (cx_paths (vs_ctx s) ! i)) (take (nat n) (pbuf_bytes e)) \<in> set evs"
    using st(5) i by (auto simp: sends_on_path_def empty_datagram_def)
  moreover have "\<exists>v. cx_paths (vs_ctx s') ! i = beaten v (cx_paths (vs_ctx s) ! i)"
    unfolding st(4) round_path [OF c i(1)] by blast
  ultimately show ?thesis
    by (intro that [OF st(1-3)]) (simp_all add: st(4) round_state_def)
qed

section \<open>Properties\<close>

text \<open>
  C12. Two heartbeats open a path. A client that holds the socket of its worker on a path sends
  a heartbeat there although the path is dead; when it reaches the worker of a server with the
  same token, still valid, under the same key and with the same MTU, the server's path becomes
  alive with the address the heartbeat came from, so the server's next heartbeat goes to that
  address; and when it reaches the client's worker, the path is alive on both sides.
\<close>

theorem heartbeats_open_path:
  assumes lz4: "lz4_ok L" and rng: "\<And>i. rng_ok (rs i)" "\<And>i. rng_ok (rs' i)"
    and cl: "vpn_ok cl" "socks_ok cl" "cx_mode (vs_ctx cl) = MODE_CLIENT"
      "m < length (vs_workers cl)" "wk_path (vs_workers cl ! m) = i"
      "px_sock (cx_paths (vs_ctx cl) ! i) = Some (wk_sock (vs_workers cl ! m))"
      "px_token (cx_paths (vs_ctx cl) ! i) = wk_token (vs_workers cl ! m)"
    and sv: "vpn_ok sv" "socks_ok sv" "cx_mode (vs_ctx sv) = MODE_SERVER"
      "j < length (vs_workers sv)" "wk_path (vs_workers sv ! j) = q"
      "wk_token (vs_workers sv ! j) \<in> set (px_valid (cx_paths (vs_ctx sv) ! q))"
    and same: "wk_token (vs_workers sv ! j) = wk_token (vs_workers cl ! m)" "cx_mtu (vs_ctx sv) = cx_mtu (vs_ctx cl)"
  shows "\<exists>cl1 evs dg sv1 sv2 evs' dg' cl2.
    heartbeat L key clk rs cl = Inr (cl1, evs)
    \<and> UdpSend (wk_sock (vs_workers cl ! m)) (px_remote (cx_paths (vs_ctx cl) ! i)) dg \<in> set evs
    \<and> worker_step L key j (Datagram peer dg tw) sv = Inr (sv1, [])
    \<and> heartbeat L key clk' rs' sv1 = Inr (sv2, evs')
    \<and> UdpSend (wk_sock (vs_workers sv ! j)) peer dg' \<in> set evs'
    \<and> worker_step L key m (Datagram origin dg' tw') cl1 = Inr (cl2, [])
    \<and> alive_in (vs_ctx cl2) i \<and> alive_in (vs_ctx sv2) q
    \<and> px_remote (cx_paths (vs_ctx sv2) ! q) = peer
    \<and> px_token (cx_paths (vs_ctx sv2) ! q) = px_token (cx_paths (vs_ctx cl) ! i)"
proof -
  have wc: "worker_ok cl (vs_workers cl ! m)" and ws: "worker_ok sv (vs_workers sv ! j)"
    using cl(1,4) sv(1,4) by (simp_all add: vpn_ok_def)
  have i: "i < nat (cx_path_count (vs_ctx cl))" "beats (vs_ctx cl) (cx_paths (vs_ctx cl) ! i)"
    using wc cl(3,5,6) by (auto simp: worker_ok_def beats_def zless_nat_eq_int_zless)
  obtain cl1 evs b n e where h1: "heartbeat L key clk rs cl = Inr (cl1, evs)" "vpn_ok cl1"
    "UdpSend (the (px_sock (cx_paths (vs_ctx cl) ! i))) (px_remote (cx_paths (vs_ctx cl) ! i)) (take (nat n) (pbuf_bytes e)) \<in> set evs"
    "fits b (cx_mtu (vs_ctx cl))" "flag b = 0" "len b = 0"
    "encapsulate L key (rs i) (px_token (cx_paths (vs_ctx cl) ! i)) b (cx_mtu (vs_ctx cl)) = Inr (n, e)"
    "vs_workers cl1 = vs_workers cl" "cx_mode (vs_ctx cl1) = cx_mode (vs_ctx cl)" "cx_mtu (vs_ctx cl1) = cx_mtu (vs_ctx cl)"
    and b1: "\<exists>v. cx_paths (vs_ctx cl1) ! i = beaten v (cx_paths (vs_ctx cl) ! i)"
    by (rule heartbeat_sends [where L=L and key=key and clk=clk, OF cl(1,2) rng(1) i])
  have mtu: "uint (len b) \<le> cx_mtu (vs_ctx cl)" "cx_mtu (vs_ctx cl) \<le> cx_mtu (vs_ctx sv)"
    using cl(1) h1(6) same(2) by (auto simp: vpn_ok_def ctx_ok_def)
  have e: "encapsulate L key (rs i) (wk_token (vs_workers sv ! j)) b (cx_mtu (vs_ctx cl)) = Inr (n, e)"
    using h1(7) cl(7) same(1) by simp
  obtain sv1 where s1: "worker_step L key j (Datagram peer (take (nat n) (pbuf_bytes e)) tw) sv = Inr (sv1, [])"
    "heard (vs_workers sv ! j) peer (vs_ctx sv) (vs_ctx sv1)" "vpn_ok sv1" "vs_open sv1 = vs_open sv"
    "evolves (wk_sock (vs_workers sv ! j)) (vs_ctx sv) (vs_ctx sv1)"
    by (rule worker_step_delivers [where peer=peer and tw=tw, OF lz4 rng(1) h1(4,5) mtu(1) e sv(1) mtu(2) sv(4)])
      (use sv(5,6) h1(6) in auto)
  have ctx: "ctx_ok (vs_ctx sv)" and mem: "wk_sock (vs_workers sv ! j) \<in> set (vs_open sv1)"
    using sv(1) ws s1(4) by (simp_all add: vpn_ok_def worker_ok_def)
  have socks1: "socks_ok sv1"
    by (rule socks_ok_evolves [OF s1(5) ctx sv(2) mem s1(4)])
  have p1: "px_alive (cx_paths (vs_ctx sv1) ! q) = 5" "px_sock (cx_paths (vs_ctx sv1) ! q) = Some (wk_sock (vs_workers sv ! j))"
    "px_remote (cx_paths (vs_ctx sv1) ! q) = peer" "px_token (cx_paths (vs_ctx sv1) ! q) = wk_token (vs_workers sv ! j)"
    using s1(2) sv(3,5) by (simp_all add: heard_def)
  have q: "q < nat (cx_path_count (vs_ctx sv1))" "beats (vs_ctx sv1) (cx_paths (vs_ctx sv1) ! q)"
    "cx_mtu (vs_ctx sv1) = cx_mtu (vs_ctx cl)"
    using ws sv(5) s1(5) p1 same(2) by (auto simp: worker_ok_def evolves_def beats_def zless_nat_eq_int_zless)
  obtain sv2 evs' b' n' e' where h2: "heartbeat L key clk' rs' sv1 = Inr (sv2, evs')" "vpn_ok sv2"
    "UdpSend (the (px_sock (cx_paths (vs_ctx sv1) ! q))) (px_remote (cx_paths (vs_ctx sv1) ! q)) (take (nat n') (pbuf_bytes e')) \<in> set evs'"
    "fits b' (cx_mtu (vs_ctx sv1))" "flag b' = 0" "len b' = 0"
    "encapsulate L key (rs' q) (px_token (cx_paths (vs_ctx sv1) ! q)) b' (cx_mtu (vs_ctx sv1)) = Inr (n', e')"
    and b2: "\<exists>v. cx_paths (vs_ctx sv2) ! q = beaten v (cx_paths (vs_ctx sv1) ! q)"
    by (rule heartbeat_sends [where L=L and key=key and clk=clk', OF s1(3) socks1 rng(2) q(1,2)])
  have e': "encapsulate L key (rs' q) (wk_token (vs_workers cl1 ! m)) b' (cx_mtu (vs_ctx sv1)) = Inr (n', e')"
    using h2(7) p1(4) same(1) h1(8) by simp
  have m: "m < length (vs_workers cl1)" "uint (len b') \<le> cx_mtu (vs_ctx sv1)" "cx_mtu (vs_ctx sv1) \<le> cx_mtu (vs_ctx cl1)"
    "cx_mode (vs_ctx cl1) = MODE_CLIENT"
    using cl(3,4) h1(8-10) h2(6) q(3) s1(3) by (auto simp: vpn_ok_def ctx_ok_def)
  obtain cl2 where s2: "worker_step L key m (Datagram origin (take (nat n') (pbuf_bytes e')) tw') cl1 = Inr (cl2, [])"
    "heard (vs_workers cl1 ! m) origin (vs_ctx cl1) (vs_ctx cl2)"
    by (rule worker_step_delivers [where peer=origin and tw=tw', OF lz4 rng(2) h2(4,5) m(2) e' h1(2) m(3,1)])
      (use m(4) h2(6) in auto)
  have fin: "alive_in (vs_ctx cl2) i" "alive_in (vs_ctx sv2) q" "px_remote (cx_paths (vs_ctx sv2) ! q) = peer"
    "px_token (cx_paths (vs_ctx sv2) ! q) = px_token (cx_paths (vs_ctx cl) ! i)"
    using s2(2) cl(5,7) h1(8) b1 b2 p1 same(1) by (auto simp: heard_def alive_in_def beaten_def)
  show ?thesis
    using h1(1,3) s1(1) h2(1,3) s2(1) fin cl(6) p1(2,3) by fastforce
qed

theorem heartbeats_open_path_witness:
  "\<exists>cl1 evs dg sv1 sv2 evs' dg' cl2. heartbeat demo_lib [1, 2] (\<lambda>_ _. (0, 0)) (\<lambda>_. demo_rng) demo_client = Inr (cl1, evs)
    \<and> UdpSend 1 no_addr dg \<in> set evs
    \<and> worker_step demo_lib [1, 2] 0 (Datagram (''10.0.0.9'', 4000) dg 0) demo_server = Inr (sv1, [])
    \<and> heartbeat demo_lib [1, 2] (\<lambda>_ _. (0, 0)) (\<lambda>_. demo_rng) sv1 = Inr (sv2, evs')
    \<and> UdpSend 9 (''10.0.0.9'', 4000) dg' \<in> set evs'
    \<and> worker_step demo_lib [1, 2] 0 (Datagram no_addr dg' 0) cl1 = Inr (cl2, [])
    \<and> alive_in (vs_ctx cl2) 1 \<and> alive_in (vs_ctx sv2) 1
    \<and> px_remote (cx_paths (vs_ctx sv2) ! 1) = (''10.0.0.9'', 4000) \<and> px_token (cx_paths (vs_ctx sv2) ! 1) = 0"
proof -
  have cl: "vpn_ok demo_client" "socks_ok demo_client" "cx_mode (vs_ctx demo_client) = MODE_CLIENT"
    "0 < length (vs_workers demo_client)" "wk_path (vs_workers demo_client ! 0) = 1" "cx_mtu (vs_ctx demo_client) = 1400"
    "wk_sock (vs_workers demo_client ! 0) = 1" "wk_token (vs_workers demo_client ! 0) = 0"
    "px_sock (cx_paths (vs_ctx demo_client) ! 1) = Some 1" "px_token (cx_paths (vs_ctx demo_client) ! 1) = 0"
    "px_remote (cx_paths (vs_ctx demo_client) ! 1) = no_addr"
    using demo_client_ok demo_vpn_ok(2)
    by (simp_all add: socks_ok_def demo_client_def) (simp_all add: demo_vpn_def demo_ctx_def zero_path_ctx_def)
  have sv: "vpn_ok demo_server" "socks_ok demo_server" "cx_mode (vs_ctx demo_server) = MODE_SERVER"
    "0 < length (vs_workers demo_server)" "wk_path (vs_workers demo_server ! 0) = 1"
    "wk_token (vs_workers demo_server ! 0) \<in> set (px_valid (cx_paths (vs_ctx demo_server) ! 1))"
    "wk_token (vs_workers demo_server ! 0) = 0" "cx_mtu (vs_ctx demo_server) = 1400"
    "wk_sock (vs_workers demo_server ! 0) = 9"
    using demo_server_state demo_peer_ok by (simp_all add: server_state_def) (simp_all add: demo_server_def demo_worker_def)
  show ?thesis
    using heartbeats_open_path [where rs="\<lambda>_. demo_rng" and rs'="\<lambda>_. demo_rng" and m=0 and j=0 and i=1 and q=1
        and clk="\<lambda>_ _. (0, 0)" and clk'="\<lambda>_ _. (0, 0)" and peer="(''10.0.0.9'', 4000)" and tw=0 and tw'=0 and origin=no_addr
        and key="[1, 2]", OF demo_lz4_ok demo_rng_ok demo_rng_ok cl(1-5) _ _ sv(1-6)] cl sv
    by (simp del: One_nat_def)
qed

text \<open>
  C34. The server has no memory of what it received: a datagram that is recorded and sent to it
  again, from any address, while its token is valid is accepted again. The packet is written to
  the tun device a second time, and the session moves to the new sender: as long as no other
  path is alive, the next packet of the tunnel goes to that address.
\<close>

theorem replay_moves_session:
  assumes lz4: "lz4_ok L" and rng: "rng_ok r" "rng_ok r'"
    and p: "fits p mtu" "flag p = 0" "len p \<noteq> 0" "uint (len p) \<le> mtu"
    and e: "encapsulate L key r (wk_token (vs_workers s ! j)) p mtu = Inr (n, e)"
    and s: "server_state s" "mtu \<le> cx_mtu (vs_ctx s)" "\<not> unbound_path s"
    and j: "j < length (vs_workers s)" "wk_path (vs_workers s ! j) = q"
    and tok: "wk_token (vs_workers s ! j) \<in> set (px_valid (cx_paths (vs_ctx s) ! q))"
    and alone: "\<And>i. i < nat (cx_path_count (vs_ctx s)) \<Longrightarrow> i \<noteq> q \<Longrightarrow> \<not> alive_in (vs_ctx s) i"
    and ds: "ds \<noteq> []" "int (length ds) \<le> cx_mtu (vs_ctx s)"
  shows "\<exists>s1 s2 s3 dg. worker_step L key j (Datagram client (take (nat n) (pbuf_bytes e)) 0) s = Inr (s1, [TunWrite (contents p)])
    \<and> worker_step L key j (Datagram attacker (take (nat n) (pbuf_bytes e)) 0) s1 = Inr (s2, [TunWrite (contents p)])
    \<and> tun_worker tgt L key r' (Some (fst (tun_write tgt ds))) s2
        = Some (Inr (s3, [UdpSend (wk_sock (vs_workers s ! j)) attacker dg]))"
proof -
  have ok: "vpn_ok s" "socks_ok s" "cx_mode (vs_ctx s) = MODE_SERVER"
    using s(1) by (simp_all add: server_state_def)
  obtain s1 w1 where s1: "worker_step L key j (Datagram client (take (nat n) (pbuf_bytes e)) 0) s = Inr (s1, [TunWrite (contents p)])"
    "heard (vs_workers s ! j) client (vs_ctx s) (vs_ctx s1)" "vpn_ok s1" "vs_workers s1 = (vs_workers s)[j := w1]" "vs_open s1 = vs_open s"
    "wk_path w1 = q" "wk_token w1 = wk_token (vs_workers s ! j)" "wk_sock w1 = wk_sock (vs_workers s ! j)"
    "evolves (wk_sock (vs_workers s ! j)) (vs_ctx s) (vs_ctx s1)"
    by (rule worker_step_delivers [where peer=client and tw=0, OF lz4 rng(1) p(1,2,4) e ok(1) s(2) j(1)])
      (use tok j(2) p(3) in auto)
  have w1: "vs_workers s1 ! j = w1" "j < length (vs_workers s1)"
    using s1(4) j(1) by simp_all
  have ctx: "cx_mode (vs_ctx s1) = MODE_SERVER" "mtu \<le> cx_mtu (vs_ctx s1)" "cx_path_count (vs_ctx s1) = cx_path_count (vs_ctx s)"
    "cx_mtu (vs_ctx s1) = cx_mtu (vs_ctx s)"
    using s1(9) ok(3) s(2) by (simp_all add: evolves_def)
  obtain s2 where s2: "worker_step L key j (Datagram attacker (take (nat n) (pbuf_bytes e)) 0) s1 = Inr (s2, [TunWrite (contents p)])"
    "heard w1 attacker (vs_ctx s1) (vs_ctx s2)" "vpn_ok s2" "vs_open s2 = vs_open s1"
    "evolves (wk_sock w1) (vs_ctx s1) (vs_ctx s2)"
    by (rule worker_step_delivers [where peer=attacker and tw=0 and s=s1 and j=j, OF lz4 rng(1) p(1,2,4) _ s1(3) ctx(2) w1(2)])
      (use e tok s1(2,6,7) j(2) p(3) w1(1) in \<open>auto simp: heard_def\<close>)
  have mem: "wk_sock w1 \<in> set (vs_open s1)" "wk_sock w1 \<in> set (vs_open s2)" "q < nat (cx_path_count (vs_ctx s))"
    using worker_nth_ok [OF ok(1) j(1)] s1(5,8) s2(4) j(2) by (auto simp: worker_ok_def zless_nat_eq_int_zless)
  have socks1: "socks_ok s1"
    by (rule socks_ok_evolves [OF s1(9) _ ok(2) mem(1) [unfolded s1(8)] s1(5)]) (use ok(1) in \<open>simp add: vpn_ok_def\<close>)
  have socks: "socks_ok s2"
    by (rule socks_ok_evolves [OF s2(5) _ socks1 mem(2) s2(4)]) (use s1(3) in \<open>simp add: vpn_ok_def\<close>)
  have c2: "cx_path_count (vs_ctx s2) = cx_path_count (vs_ctx s)" "cx_mtu (vs_ctx s2) = cx_mtu (vs_ctx s)"
    using s2(5) ctx(3,4) by (simp_all add: evolves_def)
  have pq: "px_alive (cx_paths (vs_ctx s2) ! q) = 5" "px_remote (cx_paths (vs_ctx s2) ! q) = attacker"
    "px_sock (cx_paths (vs_ctx s2) ! q) = Some (wk_sock (vs_workers s ! j))"
    using s2(2) s1(6,8) ctx(1) by (simp_all add: heard_def)
  have other: "cx_paths (vs_ctx s2) ! i = cx_paths (vs_ctx s) ! i" if "i \<noteq> q" for i
    using s1(2) s2(2) s1(6) j(2) that by (simp add: heard_def)
  have bound: "\<not> unbound_path s2"
    using s(3) pq(3) other unfolding unbound_path_def c2 by (metis option.distinct(1))
  have only: "i = q" if "i < nat (cx_path_count (vs_ctx s2))" "alive_in (vs_ctx s2) i" for i
    using that alone other unfolding c2 alive_in_def by metis
  obtain q' b n' e' s3 where "q' < nat (cx_path_count (vs_ctx s2))" "alive_in (vs_ctx s2) q'"
    "tun_worker tgt L key r' (Some (fst (tun_write tgt ds))) s2 = Some (Inr (s3,
       [UdpSend (the (px_sock (cx_paths (vs_ctx s2) ! q'))) (px_remote (cx_paths (vs_ctx s2) ! q')) (take (nat n') (pbuf_bytes e'))]))"
    by (rule tun_worker_sends [where tgt=tgt and L=L and key=key and i=q, OF s2(3) socks bound rng(2) ds(1)])
      (use ds(2) c2 mem(3) pq(1) in \<open>auto simp: alive_in_def\<close>)
  then show ?thesis
    using s1(1) s2(1) only pq(2,3) by auto
qed

theorem replay_moves_session_witness:
  "\<exists>dg s1 s2 s3 dg'. worker_step demo_lib [1, 2] 0 (Datagram (''10.0.0.9'', 4000) dg 0) demo_server = Inr (s1, [TunWrite [1, 2, 3]])
    \<and> worker_step demo_lib [1, 2] 0 (Datagram (''6.6.6.6'', 666) dg 0) s1 = Inr (s2, [TunWrite [1, 2, 3]])
    \<and> tun_worker Linux demo_lib [1, 2] demo_rng (Some [7, 8, 9]) s2 = Some (Inr (s3, [UdpSend 9 (''6.6.6.6'', 666) dg']))"
proof -
  let ?p = "packet_of [1, 2, 3]"
  have p: "fits ?p 1400" "flag ?p = 0" "len ?p \<noteq> 0" "uint (len ?p) \<le> 1400" "contents ?p = [1, 2, 3]"
    by (simp_all add: fits_def packet_of_fields contents_packet_of) (simp_all add: packet_of_def)
  have sv: "0 < length (vs_workers demo_server)" "wk_path (vs_workers demo_server ! 0) = 1" "wk_token (vs_workers demo_server ! 0) = 0"
    "wk_sock (vs_workers demo_server ! 0) = 9" "cx_mtu (vs_ctx demo_server) = 1400"
    "wk_token (vs_workers demo_server ! 0) \<in> set (px_valid (cx_paths (vs_ctx demo_server) ! 1))"
    "cx_path_count (vs_ctx demo_server) = 2" "cx_paths (vs_ctx demo_server) = cx_paths demo_ctx"
    using demo_peer_ok by (simp_all add: demo_server_def demo_worker_def) (simp_all add: demo_peer_def demo_ctx_def)
  obtain n e where e: "encapsulate demo_lib [1, 2] demo_rng (wk_token (vs_workers demo_server ! 0)) ?p 1400 = Inr (n, e)"
    using encapsulate_sizes [OF demo_rng_ok p(1)] by blast
  have two: "i = 0 \<or> i = 1" if "i < nat (cx_path_count (vs_ctx demo_server))" for i
    using that sv(7) by auto
  have "px_sock (cx_paths demo_ctx ! 0) \<noteq> None" "px_sock (cx_paths demo_ctx ! 1) \<noteq> None" "px_alive (cx_paths demo_ctx ! 0) = 0"
    by (simp_all add: demo_ctx_def zero_path_ctx_def)
  with two have bound: "\<not> unbound_path demo_server" and alone: "\<And>i. i < nat (cx_path_count (vs_ctx demo_server)) \<Longrightarrow> i \<noteq> 1
      \<Longrightarrow> \<not> alive_in (vs_ctx demo_server) i"
    unfolding unbound_path_def alive_in_def sv(8) by (metis, metis less_irrefl)
  have w: "fst (tun_write Linux [7, 8, 9]) = [7, 8, 9]"
    by (simp add: tun_write_def)
  show ?thesis
    using replay_moves_session [where client="(''10.0.0.9'', 4000)" and attacker="(''6.6.6.6'', 666)" and tgt=Linux and ds="[7, 8, 9]",
        OF demo_lz4_ok demo_rng_ok demo_rng_ok p(1-4) e demo_server_state _ bound sv(1,2) _ alone] sv(3-6) p(5) w
    by (simp del: One_nat_def) blast
qed

end
