(* ===== verification/Letters.thy ===== *)
theory Letters
  imports Accounts Opening
begin

text \<open>
  What the segments of one process do to its peer: the datagrams they send and the packets these
  were made from, and the parts of the state that decide where a datagram goes and under which
  token. Theory Network puts two processes together.
\<close>

section \<open>Datagrams that come from the other side\<close>

text \<open>The bytes of \<open>ds\<close> (none for a heartbeat) encapsulated under a token.\<close>

definition genuine :: "lib \<Rightarrow> byte list \<Rightarrow> int \<Rightarrow> int \<Rightarrow> byte list \<Rightarrow> byte list \<Rightarrow> bool" where
  "genuine L key mtu token dg ds \<longleftrightarrow> (\<exists>r p n e. rng_ok r \<and> fits p mtu \<and> flag p = 0 \<and> uint (len p) \<le> mtu
     \<and> encapsulate L key r token p mtu = Inr (n, e) \<and> dg = take (nat n) (pbuf_bytes e) \<and> contents p = ds)"

text \<open>A datagram under way, with the packet it was made from.\<close>

record letter =
  lt_from :: sock
  lt_to :: ipaddr
  lt_body :: "byte list"
  lt_packet :: "byte list"

fun letters :: "byte list \<Rightarrow> effect list \<Rightarrow> letter list" where
  "letters ds [] = []"
| "letters ds (UdpSend k a dg # evs) = \<lparr>lt_from = k, lt_to = a, lt_body = dg, lt_packet = ds\<rparr> # letters ds evs"
| "letters ds (_ # evs) = letters ds evs"

text \<open>The packet that an input hands to the process, empty for all inputs but a readable frame.\<close>

definition frame_packet :: "target \<Rightarrow> vpn \<Rightarrow> input \<Rightarrow> byte list" where
  "frame_packet tgt s i = (case i of
     Frame frame r \<Rightarrow> (let (n, ds) = tun_read tgt frame (nat (cx_mtu (vs_ctx s))) in if n \<le> 0 then [] else ds)
   | _ \<Rightarrow> [])"

text \<open>Path \<open>p\<close> sends \<open>l\<close>: on its socket, to its remote address, under its token.\<close>

definition sent_on :: "lib \<Rightarrow> byte list \<Rightarrow> ctx \<Rightarrow> path \<Rightarrow> letter \<Rightarrow> bool" where
  "sent_on L key c p l \<longleftrightarrow> px_sock p = Some (lt_from l) \<and> px_remote p = lt_to l \<and> (cx_mode c = MODE_CLIENT \<or> 0 < px_alive p)
     \<and> genuine L key (cx_mtu c) (px_token p) (lt_body l) (lt_packet l)"

definition sends :: "lib \<Rightarrow> byte list \<Rightarrow> vpn \<Rightarrow> letter list \<Rightarrow> bool" where
  "sends L key s ls \<longleftrightarrow> (\<forall>l \<in> set ls. \<exists>i < nat (cx_path_count (vs_ctx s)). sent_on L key (vs_ctx s) (cx_paths (vs_ctx s) ! i) l)"

lemma letters_append [simp]: "letters ds (es @ es') = letters ds es @ letters ds es'"
  by (induction ds es rule: letters.induct) simp_all

lemma letters_packet: "l \<in> set (letters ds evs) \<Longrightarrow> lt_packet l = ds"
  by (induction ds evs rule: letters.induct) auto

lemma send_on_genuine:
  assumes "send_on L key r opened p mtu buf sn = Inr (e, sn', evs)" and "rng_ok r" and "fits buf mtu" "flag buf = 0" "uint (len buf) \<le> mtu"
  obtains k dg where "px_sock p = Some k" "evs = [UdpSend k (px_remote p) dg]" "genuine L key mtu (px_token p) dg (contents buf)"
proof -
  obtain n e' where e': "encapsulate L key r (px_token p) buf mtu = Inr (n, e')"
    using assms(1) by (auto simp: send_on_def bind_res_eq_Inr)
  then obtain k where "px_sock p = Some k" "evs = [UdpSend k (px_remote p) (take (nat n) (pbuf_bytes e'))]"
    using assms(1) by (auto simp: send_on_def Let_def split: option.splits if_splits)
  moreover have "genuine L key mtu (px_token p) (take (nat n) (pbuf_bytes e')) (contents buf)"
    unfolding genuine_def using assms(2-5) e' by blast
  ultimately show ?thesis
    using that by blast
qed

lemma tun_worker_sends_genuine:
  assumes s: "vpn_ok s" and r: "rng_ok r" and run: "tun_worker tgt L key r frame s = Some (Inr (s', evs))"
  shows "sends L key s (letters (frame_packet tgt s (Frame frame r)) evs)"
    and "length (letters (frame_packet tgt s (Frame frame r)) evs) \<le> 1"
    and "letters (frame_packet tgt s (Frame frame r)) evs \<noteq> [] \<Longrightarrow> frame_packet tgt s (Frame frame r) \<noteq> []"
    and "tun_packets evs = []" and "vs_next s' = vs_next s" and "cx_mtu (vs_ctx s') = cx_mtu (vs_ctx s)"
proof -
  let ?c = "vs_ctx s" and ?ds = "frame_packet tgt s (Frame frame r)"
  let ?goal = "sends L key s (letters ?ds evs) \<and> length (letters ?ds evs) \<le> 1 \<and> (letters ?ds evs \<noteq> [] \<longrightarrow> ?ds \<noteq> [])
    \<and> tun_packets evs = [] \<and> vs_next s' = vs_next s \<and> cx_mtu (vs_ctx s') = cx_mtu (vs_ctx s)"
  have ?goal
  proof (rule tun_worker_form [where tgt=tgt and L=L and key=key and r=r and frame=frame, OF s])
    assume "tun_worker tgt L key r frame s = Some (Inr (s\<lparr>vs_tun_alive := False\<rparr>, [Logged ''tun_read'']))"
    then show ?goal
      using run by (auto simp: sends_def)
  next
    fix ds b
    assume rd: "tun_read tgt frame (nat (cx_mtu ?c)) = (int (length ds), ds)" and ds: "ds \<noteq> []" "int (length ds) \<le> cx_mtu ?c"
      and ok: "vpn_ok (s\<lparr>vs_tun_buf := b\<rparr>)" and fit: "fits b (cx_mtu ?c)" and b: "flag b = 0" "contents b = ds" "unat (len b) = length ds"
      and form: "tun_worker tgt L key r frame s = udp_sender L key r (s\<lparr>vs_tun_buf := b\<rparr>)"
    have packet: "?ds = ds"
      using ds(1) by (simp add: frame_packet_def rd)
    have lb: "uint (len b) \<le> cx_mtu ?c"
      using b(3) ds(2) by (metis uint_nat)
    let ?s = "s\<lparr>vs_tun_buf := b\<rparr>"
    have pre: "0 < cx_path_count (vs_ctx ?s)" "vs_turn ?s < nat (cx_path_count (vs_ctx ?s))"
      using s by (auto simp: vpn_ok_def ctx_ok_def)
    obtain q where q: "q < nat (cx_path_count ?c)"
      and snd: "udp_sender L key r ?s =
         (if px_sock (cx_paths ?c ! q) = None then Some (Inl AssertFailed)
          else if \<not> alive_in ?c q then Some (Inr (?s\<lparr>vs_turn := q\<rparr>, []))
          else Some (bind_res (send_on L key r (vs_open s) (cx_paths ?c ! q) (cx_mtu ?c) b (cx_snmp ?c))
            (\<lambda>(e, sn, evs). Inr (?s\<lparr>vs_turn := q, vs_ctx := ?c\<lparr>cx_snmp := sn\<rparr>, vs_tun_buf := e\<rparr>, evs))))"
      by (rule udp_sender_form [OF pre, of L key r]) simp
    show ?goal
    proof (cases "alive_in ?c q")
      case False
      then show ?thesis
        using run by (auto simp: form snd sends_def split: if_splits)
    next
      case True
      then obtain e sn where e: "send_on L key r (vs_open s) (cx_paths ?c ! q) (cx_mtu ?c) b (cx_snmp ?c) = Inr (e, sn, evs)"
        "vs_next s' = vs_next s" "cx_mtu (vs_ctx s') = cx_mtu ?c"
        using run by (auto simp: form snd bind_res_eq_Inr split: if_splits)
      obtain k dg where "px_sock (cx_paths ?c ! q) = Some k" "evs = [UdpSend k (px_remote (cx_paths ?c ! q)) dg]"
        "genuine L key (cx_mtu ?c) (px_token (cx_paths ?c ! q)) dg ds"
        using send_on_genuine [OF e(1) r fit b(1) lb] b(2) by metis
      then show ?thesis
        using True q ds(1) e(2,3) by (auto simp: sends_def sent_on_def packet alive_in_def)
    qed
  qed
  then show "sends L key s (letters ?ds evs)" and "length (letters ?ds evs) \<le> 1"
    and "letters ?ds evs \<noteq> [] \<Longrightarrow> ?ds \<noteq> []" and "tun_packets evs = []" and "vs_next s' = vs_next s" and "cx_mtu (vs_ctx s') = cx_mtu ?c"
    by simp_all
qed

section \<open>What a segment leaves alone\<close>

text \<open>Everything a run keeps: the configuration, and the tokens of the workers, whose sockets are never reused.\<close>

definition onward :: "vpn \<Rightarrow> vpn \<Rightarrow> bool" where
  "onward s t \<longleftrightarrow> cx_mode (vs_ctx t) = cx_mode (vs_ctx s) \<and> cx_mtu (vs_ctx t) = cx_mtu (vs_ctx s)
     \<and> cx_path_count (vs_ctx t) = cx_path_count (vs_ctx s)
     \<and> (\<forall>i < 8. px_start (cx_paths (vs_ctx t) ! i) = px_start (cx_paths (vs_ctx s) ! i)
          \<and> px_range (cx_paths (vs_ctx t) ! i) = px_range (cx_paths (vs_ctx s) ! i)
          \<and> px_server (cx_paths (vs_ctx t) ! i) = px_server (cx_paths (vs_ctx s) ! i))
     \<and> vs_next s \<le> vs_next t
     \<and> (\<forall>w \<in> set (vs_workers t). vs_next s \<le> wk_sock w
          \<or> (\<exists>w' \<in> set (vs_workers s). wk_sock w' = wk_sock w \<and> wk_token w' = wk_token w))"

text \<open>The part of a path that says where its packets go.\<close>

definition same_routes :: "vpn \<Rightarrow> vpn \<Rightarrow> bool" where
  "same_routes s t \<longleftrightarrow> (\<forall>i < 8. px_sock (cx_paths (vs_ctx t) ! i) = px_sock (cx_paths (vs_ctx s) ! i)
     \<and> px_remote (cx_paths (vs_ctx t) ! i) = px_remote (cx_paths (vs_ctx s) ! i)
     \<and> px_token (cx_paths (vs_ctx t) ! i) = px_token (cx_paths (vs_ctx s) ! i))"

definition no_livelier :: "vpn \<Rightarrow> vpn \<Rightarrow> bool" where
  "no_livelier s t \<longleftrightarrow> (\<forall>i < 8. 0 < px_alive (cx_paths (vs_ctx t) ! i) \<longrightarrow> 0 < px_alive (cx_paths (vs_ctx s) ! i))"

lemma onward_refl [simp]: "onward s s" "same_routes s s" "no_livelier s s"
  by (auto simp: onward_def same_routes_def no_livelier_def)

lemma onward_trans: "onward s t \<Longrightarrow> onward t u \<Longrightarrow> onward s u"
proof -
  assume st: "onward s t" and tu: "onward t u"
  have "vs_next s \<le> wk_sock w \<or> (\<exists>w' \<in> set (vs_workers s). wk_sock w' = wk_sock w \<and> wk_token w' = wk_token w)"
    if w: "w \<in> set (vs_workers u)" for w
  proof -
    have n: "vs_next s \<le> vs_next t"
      using st by (simp add: onward_def)
    consider "vs_next t \<le> wk_sock w"
      | w' where "w' \<in> set (vs_workers t)" "wk_sock w' = wk_sock w" "wk_token w' = wk_token w"
      using tu w unfolding onward_def by blast
    then show ?thesis
    proof cases
      case 1
      then show ?thesis
        using n by simp
    next
      case (2 w')
      then show ?thesis
        using st unfolding onward_def by force
    qed
  qed
  then show "onward s u"
    using st tu by (simp add: onward_def)
qed

lemma same_routes_trans: "same_routes s t \<Longrightarrow> same_routes t u \<Longrightarrow> same_routes s u"
  by (simp add: same_routes_def)

lemma no_livelier_trans: "no_livelier s t \<Longrightarrow> no_livelier t u \<Longrightarrow> no_livelier s u"
  by (simp add: no_livelier_def)

text \<open>All workers of socket \<open>k\<close> use token \<open>t\<close>.\<close>

definition sock_token :: "vpn \<Rightarrow> sock \<Rightarrow> int \<Rightarrow> bool" where
  "sock_token s k t \<longleftrightarrow> k < vs_next s \<and> (\<forall>w \<in> set (vs_workers s). wk_sock w = k \<longrightarrow> wk_token w = t)"

lemma sock_token_onward: "sock_token s k t \<Longrightarrow> onward s s' \<Longrightarrow> sock_token s' k t"
  by (fastforce simp: sock_token_def onward_def)

lemma sends_before:
  assumes "sends L key t ls" and "onward s t" "same_routes s t" "no_livelier s t" and "vpn_ok s"
  shows "sends L key s ls"
  unfolding sends_def
proof
  fix l assume "l \<in> set ls"
  then obtain i where i: "i < nat (cx_path_count (vs_ctx t))" "sent_on L key (vs_ctx t) (cx_paths (vs_ctx t) ! i) l"
    using assms(1) by (auto simp: sends_def)
  moreover have "i < nat (cx_path_count (vs_ctx s))" and "i < 8"
    using i(1) assms(2,5) by (auto simp: onward_def vpn_ok_def ctx_ok_def)
  ultimately show "\<exists>i < nat (cx_path_count (vs_ctx s)). sent_on L key (vs_ctx s) (cx_paths (vs_ctx s) ! i) l"
    using assms(2-4) by (auto simp: sent_on_def onward_def same_routes_def no_livelier_def)
qed

lemma steps_effects:
  assumes "steps fs s = Inr (s', evs)" and "P s"
    and "\<And>f t t' es. f \<in> set fs \<Longrightarrow> P t \<Longrightarrow> f t = Inr (t', es) \<Longrightarrow> P t' \<and> Q es"
    and "Q []" and "\<And>es es'. Q es \<Longrightarrow> Q es' \<Longrightarrow> Q (es @ es')"
  shows "P s' \<and> Q evs"
  using assms(1-3)
proof (induction fs arbitrary: s evs)
  case Nil
  then show ?case
    using assms(4) by simp
next
  case (Cons f fs)
  obtain t es es' where t: "f s = Inr (t, es)" "steps fs t = Inr (s', es')" "evs = es @ es'"
    using Cons.prems(1) by (auto simp: bind_res_eq_Inr)
  have "P t \<and> Q es"
    by (rule Cons.prems(3) [OF list.set_intros(1) Cons.prems(2) t(1)])
  moreover have "P s' \<and> Q es'"
    by (rule Cons.IH [OF t(2)]) (use calculation Cons.prems(3) in auto)
  ultimately show ?case
    using assms(5) t(3) by simp
qed

lemma tun_worker_onward:
  assumes s: "vpn_ok s" and r: "rng_ok r" and run: "tun_worker tgt L key r frame s = Some (Inr (s', evs))"
  shows "onward s s'" and "same_routes s s'" and "no_livelier s s'"
  using tun_worker_ok [OF s r run] tun_worker_sends_genuine(5,6) [OF s r run]
  by (auto simp: onward_def same_routes_def no_livelier_def)

lemma heartbeat_path_effects:
  assumes s: "vpn_ok s" and i: "i < nat (cx_path_count (vs_ctx s))" and r: "rng_ok (rs i)"
    and run: "heartbeat_path L key clk rs i s = Inr (s', evs)"
  shows "onward s s'" and "same_routes s s'" and "no_livelier s s'"
    and "sends L key s (letters [] evs)" and "tun_packets evs = []"
proof -
  let ?c = "vs_ctx s" and ?p = "cx_paths (vs_ctx s) ! i" and ?b = "(vs_hb_buf s)\<lparr>len := 0, flag := 0\<rparr>"
  let ?v = "filled L key (clk i) ?p"
  have c: "ctx_ok ?c" and b: "wf_pbuf (vs_hb_buf s)"
    using s by (simp_all add: vpn_ok_def)
  have i8: "i < 8" "length (cx_paths ?c) = 8" "cx_mtu ?c \<le> 2048" "1024 \<le> cx_mtu ?c"
    using index_bound [OF c i] c by (simp_all add: ctx_ok_def)
  obtain sn b' where s': "s' = s\<lparr>vs_ctx := (update_path i (beaten ?v) ?c)\<lparr>cx_snmp := sn\<rparr>, vs_hb_buf := b'\<rparr>"
    by (rule heartbeat_path_form [OF s i r run])
  show "onward s s'" and "same_routes s s'" and "no_livelier s s'"
    using i8 by (auto simp: s' onward_def same_routes_def no_livelier_def update_path_nth beaten_def split: if_splits)
  note fill = filled_eq(1) [OF path_ok_nth [OF c i8(1)], of L key "clk i"]
  note run' = run [unfolded heartbeat_path_def Let_def fill bind_res_Inr]
  have "sends L key s (letters [] evs) \<and> tun_packets evs = []"
  proof (cases "beats ?c ?p")
    case True
    then obtain e sn where e: "send_on L key (rs i) (vs_open s) ?p (cx_mtu ?c) ?b (cx_snmp ?c) = Inr (e, sn, evs)"
      using run' by (auto simp: beats_def bind_res_eq_Inr)
    have b0: "flag ?b = 0" "uint (len ?b) \<le> cx_mtu ?c"
      using i8(4) by simp_all
    obtain k dg where "px_sock ?p = Some k" "evs = [UdpSend k (px_remote ?p) dg]"
      "genuine L key (cx_mtu ?c) (px_token ?p) dg (contents ?b)"
      by (rule send_on_genuine [OF e r fits_hb [OF b i8(3)] b0])
    then show ?thesis
      using True i by (auto simp: sends_def sent_on_def beats_def contents_def)
  next
    case False
    then have "evs = []"
      using run' by (auto simp: beats_def)
    then show ?thesis
      by (simp add: sends_def)
  qed
  then show "sends L key s (letters [] evs)" and "tun_packets evs = []"
    by simp_all
qed

lemma heartbeat_effects:
  assumes s: "vpn_ok s" and r: "\<And>i. rng_ok (rs i)" and run: "heartbeat L key clk rs s = Inr (s', evs)"
  shows "onward s s'" and "same_routes s s'" and "no_livelier s s'"
    and "sends L key s (letters [] evs)" and "tun_packets evs = []"
proof -
  let ?P = "\<lambda>t. vpn_ok t \<and> onward s t \<and> same_routes s t \<and> no_livelier s t"
  have "?P s' \<and> (sends L key s (letters [] evs) \<and> tun_packets evs = [])"
    using run unfolding heartbeat_def
  proof (rule steps_effects [where P = ?P and Q = "\<lambda>es. sends L key s (letters [] es) \<and> tun_packets es = []"])
    fix f t t' es
    assume f: "f \<in> set (map (heartbeat_path L key clk rs) [0..<nat (cx_path_count (vs_ctx s))])"
      and t: "?P t" and step: "f t = Inr (t', es)"
    then obtain i where i: "f = heartbeat_path L key clk rs i" "i < nat (cx_path_count (vs_ctx t))"
      by (auto simp: onward_def)
    have ok: "vpn_ok t" "heartbeat_path L key clk rs i t = Inr (t', es)"
      using t step i(1) by simp_all
    note h = heartbeat_path_effects [OF ok(1) i(2) r ok(2)]
    show "?P t' \<and> (sends L key s (letters [] es) \<and> tun_packets es = [])"
      using heartbeat_path_keeps(1) [OF ok(1) i(2) r ok(2)] h t sends_before [OF h(4) _ _ _ s]
        onward_trans same_routes_trans no_livelier_trans by blast
  qed (use s in \<open>auto simp: sends_def\<close>)
  then show "onward s s'" and "same_routes s s'" and "no_livelier s s'"
    and "sends L key s (letters [] evs)" and "tun_packets evs = []"
    by simp_all
qed

subsection \<open>Workers\<close>

text \<open>What a round does to the paths; \<open>c'\<close> is \<open>c\<close> unless a packet is accepted.\<close>

definition round_keeps :: "ctx \<Rightarrow> effect list \<Rightarrow> ctx \<Rightarrow> bool" where
  "round_keeps c evs c' \<longleftrightarrow> cx_mtu c' = cx_mtu c
     \<and> (\<forall>i < 8. px_start (cx_paths c' ! i) = px_start (cx_paths c ! i) \<and> px_server (cx_paths c' ! i) = px_server (cx_paths c ! i)
          \<and> (cx_mode c = MODE_CLIENT \<longrightarrow> px_sock (cx_paths c' ! i) = px_sock (cx_paths c ! i)
               \<and> px_remote (cx_paths c' ! i) = px_remote (cx_paths c ! i) \<and> px_token (cx_paths c' ! i) = px_token (cx_paths c ! i)))
     \<and> (\<forall>ds. letters ds evs = []) \<and> (c' = c \<longrightarrow> tun_packets evs = [])"

lemma round_keeps_refl: "(\<forall>ds. letters ds evs = []) \<Longrightarrow> tun_packets evs = [] \<Longrightarrow> round_keeps c evs c"
  by (simp add: round_keeps_def)

lemma worker_packet_keeps:
  assumes run: "worker_packet L key w n tw c = Inr (c', w', evs)" and w: "wk_path w < length (cx_paths c)"
  shows "round_keeps c evs c'"
proof -
  obtain k b where d: "decapsulate L key (wk_token w) (wk_buf w) n = Inr (k, b)"
    using run by (auto simp: worker_packet_def bind_res_eq_Inr)
  show ?thesis
  proof (cases "k < 0")
    case True
    then show ?thesis
      using run by (auto simp: worker_packet_def d invalid_packet_def intro: round_keeps_refl)
  next
    case False
    then have c': "in_packets (cx_snmp c') = in_packets (cx_snmp c) + 1"
      using run by (auto simp: worker_packet_def d Let_def bind_res_eq_Inr split: if_splits)
    then have "c' \<noteq> c"
      by auto
    then show ?thesis
      using run w False
      by (auto simp: worker_packet_def d Let_def bind_res_eq_Inr round_keeps_def update_path_nth MODE_CLIENT_def MODE_SERVER_def
          split: if_splits)
  qed
qed

lemma worker_round_keeps:
  assumes run: "worker_round L key w rv c = Inr (c', wo, evs)" and w: "wk_path w < length (cx_paths c)"
  shows "round_keeps c evs c'" and "(\<forall>a bs tw. rv \<noteq> Datagram a bs tw) \<Longrightarrow> c' = c"
proof -
  obtain b where b: "recv_into (received c rv) (wk_buf w) = Inr b"
    using run by (auto simp: worker_round_def bind_res_eq_Inr)
  note run' = run [unfolded worker_round_def Let_def b bind_res_Inr]
  show "round_keeps c evs c'"
    using run' worker_packet_keeps w
    by (fastforce simp: bind_res_eq_Inr intro: round_keeps_refl split: if_splits recv.splits)
  show "(\<forall>a bs tw. rv \<noteq> Datagram a bs tw) \<Longrightarrow> c' = c"
    using run' by (auto split: if_splits recv.splits)
qed

lemma worker_step_keeps:
  assumes s: "vpn_ok s" and j: "j < length (vs_workers s)" and lz4: "lz4_ok L"
    and run: "worker_step L key j rv s = Inr (s', evs)"
  shows "onward s s'" and "round_keeps (vs_ctx s) evs (vs_ctx s')"
    and "(\<forall>a bs tw. rv \<noteq> Datagram a bs tw) \<Longrightarrow> vs_ctx s' = vs_ctx s"
proof -
  let ?w = "vs_workers s ! j" and ?c = "vs_ctx s"
  have c: "ctx_ok ?c" and wj: "worker_ok s ?w"
    using s j by (simp_all add: vpn_ok_def)
  have wp: "wk_path ?w < length (cx_paths ?c)"
    using worker_path_bound [OF wj c] c by (simp add: ctx_ok_def)
  obtain c1 wo where rnd: "worker_round L key ?w rv ?c = Inr (c1, wo, evs)"
    and rest: "(case wo of Some w' \<Rightarrow> Inr (s\<lparr>vs_ctx := c1, vs_workers := (vs_workers s)[j := w']\<rparr>, evs)
        | None \<Rightarrow> Inr (s\<lparr>vs_ctx := c1, vs_workers := take j (vs_workers s) @ drop (Suc j) (vs_workers s),
                       vs_open := removeAll (wk_sock ?w) (vs_open s)\<rparr>, evs)) = (Inr (s', evs) :: (vpn \<times> effect list) res)"
    using run by (auto simp: worker_step_def Let_def bind_res_eq_Inr split: option.splits)
  have ctx: "vs_ctx s' = c1" and next_same: "vs_next s' = vs_next s"
    using rest by (cases wo; auto)+
  show rk: "round_keeps ?c evs (vs_ctx s')"
    unfolding ctx by (rule worker_round_keeps(1) [OF rnd wp])
  show "(\<forall>a bs tw. rv \<noteq> Datagram a bs tw) \<Longrightarrow> vs_ctx s' = vs_ctx s"
    unfolding ctx by (rule worker_round_keeps(2) [OF rnd wp])
  have wo: "wo = None \<or> (\<exists>a b. wo = Some (?w\<lparr>wk_addr := a, wk_buf := b\<rparr>))"
    using worker_round_ok(2) [OF c _ _ _ _ lz4 rnd] wj by (auto simp: worker_ok_def)
  have ev: "evolves (wk_sock ?w) ?c (vs_ctx s')"
    by (rule worker_step_ok(2) [OF s j lz4 run])
  have "\<exists>w' \<in> set (vs_workers s). wk_sock w' = wk_sock w \<and> wk_token w' = wk_token w" if w: "w \<in> set (vs_workers s')" for w
  proof (cases wo)
    case None
    then have "w \<in> set (vs_workers s)"
      using w rest by (auto dest: in_set_takeD in_set_dropD)
    then show ?thesis
      by blast
  next
    case (Some w1)
    then obtain a b where w1: "w1 = ?w\<lparr>wk_addr := a, wk_buf := b\<rparr>"
      using wo by auto
    have "w \<in> set ((vs_workers s)[j := w1])"
      using w rest Some by auto
    then consider "w = w1" | "w \<in> set (vs_workers s)"
      using set_update_subset_insert [of "vs_workers s" j w1] by auto
    then show ?thesis
      using nth_mem [OF j] by cases (auto simp: w1)
  qed
  then show "onward s s'"
    using rk ev next_same by (simp add: onward_def round_keeps_def evolves_def)
qed

subsection \<open>Hops and the workers of a server\<close>

text \<open>On a client: only paths in use hold a socket, and such a path sends to the address of its token.\<close>

definition routed :: "(string \<Rightarrow> int \<Rightarrow> ipaddr) \<Rightarrow> vpn \<Rightarrow> bool" where
  "routed resolve s \<longleftrightarrow> (\<forall>i < 8. \<forall>k. px_sock (cx_paths (vs_ctx s) ! i) = Some k \<longrightarrow>
     i < nat (cx_path_count (vs_ctx s)) \<and> sock_token s k (px_token (cx_paths (vs_ctx s) ! i))
     \<and> px_remote (cx_paths (vs_ctx s) ! i) = resolve (cstr (px_server (cx_paths (vs_ctx s) ! i)))
          (px_start (cx_paths (vs_ctx s) ! i) + px_token (cx_paths (vs_ctx s) ! i)))"

lemma routed_same:
  assumes "routed resolve s" and "onward s t" "same_routes s t"
  shows "routed resolve t"
  unfolding routed_def
proof (intro allI impI)
  fix i k assume i: "i < 8" and k: "px_sock (cx_paths (vs_ctx t) ! i) = Some k"
  have "i < nat (cx_path_count (vs_ctx s))" "sock_token s k (px_token (cx_paths (vs_ctx s) ! i))"
    "px_remote (cx_paths (vs_ctx s) ! i) = resolve (cstr (px_server (cx_paths (vs_ctx s) ! i)))
          (px_start (cx_paths (vs_ctx s) ! i) + px_token (cx_paths (vs_ctx s) ! i))"
    using assms(1,3) i k by (simp_all add: routed_def same_routes_def)
  then show "i < nat (cx_path_count (vs_ctx t)) \<and> sock_token t k (px_token (cx_paths (vs_ctx t) ! i))
     \<and> px_remote (cx_paths (vs_ctx t) ! i) = resolve (cstr (px_server (cx_paths (vs_ctx t) ! i)))
          (px_start (cx_paths (vs_ctx t) ! i) + px_token (cx_paths (vs_ctx t) ! i))"
    using sock_token_onward [OF _ assms(2)] assms(2,3) i by (simp add: onward_def same_routes_def)
qed

lemma worker_start_keeps:
  assumes s: "vpn_ok s" and count: "i < nat (cx_path_count (vs_ctx s))"
    and run: "worker_start N i token timeout s = Inr (s', evs)"
  shows "onward s s'" and "\<And>ds. letters ds evs = []" and "tun_packets evs = []"
    and "cx_mode (vs_ctx s) \<noteq> MODE_CLIENT \<Longrightarrow> no_livelier s s'"
    and "cx_mode (vs_ctx s) = MODE_CLIENT \<Longrightarrow> (\<And>k. bound N k) \<Longrightarrow> routed (remote_of N) s \<Longrightarrow> routed (remote_of N) s'"
proof -
  have i: "i < length (cx_paths (vs_ctx s))"
    using count s by (auto simp: vpn_ok_def ctx_ok_def)
  have old: "wk_sock w < vs_next s" if "w \<in> set (vs_workers s)" for w
    using s that by (auto simp: vpn_ok_def worker_ok_def)
  show on: "onward s s'"
    using run i by (auto simp: worker_start_def Let_def onward_def update_path_nth split: if_splits)
  show "letters ds evs = []" for ds
    using run by (auto simp: worker_start_def Let_def split: if_splits)
  show "tun_packets evs = []"
    using run by (auto simp: worker_start_def Let_def split: if_splits)
  show "no_livelier s s'" if "cx_mode (vs_ctx s) \<noteq> MODE_CLIENT"
    using run i that by (auto simp: worker_start_def Let_def no_livelier_def update_path_nth split: if_splits)
  show "routed (remote_of N) s'" if m: "cx_mode (vs_ctx s) = MODE_CLIENT" "\<And>k. bound N k" and r: "routed (remote_of N) s"
    unfolding routed_def
  proof (intro allI impI)
    fix q k assume q: "q < 8" and k: "px_sock (cx_paths (vs_ctx s') ! q) = Some k"
    show "q < nat (cx_path_count (vs_ctx s')) \<and> sock_token s' k (px_token (cx_paths (vs_ctx s') ! q))
     \<and> px_remote (cx_paths (vs_ctx s') ! q) = remote_of N (cstr (px_server (cx_paths (vs_ctx s') ! q)))
          (px_start (cx_paths (vs_ctx s') ! q) + px_token (cx_paths (vs_ctx s') ! q))"
    proof (cases "q = i")
      case True
      obtain w where w: "vs_workers s' = vs_workers s @ [w]" "wk_sock w = vs_next s" "wk_token w = token" "vs_next s' = vs_next s + 1"
        using run i m(2) by (auto simp: worker_start_def Let_def split: if_splits)
      have p: "px_sock (cx_paths (vs_ctx s') ! i) = Some (vs_next s)" "px_token (cx_paths (vs_ctx s') ! i) = token"
        "px_remote (cx_paths (vs_ctx s') ! i) = remote_of N (cstr (px_server (cx_paths (vs_ctx s') ! i)))
          (px_start (cx_paths (vs_ctx s') ! i) + token)"
        using run i m by (auto simp: worker_start_def Let_def update_path_nth split: if_splits)
      have "sock_token s' (vs_next s) token"
        using old w by (fastforce simp: sock_token_def)
      then show ?thesis
        using k p True on count by (simp add: onward_def)
    next
      case False
      then have same: "cx_paths (vs_ctx s') ! q = cx_paths (vs_ctx s) ! q"
        using run i by (auto simp: worker_start_def Let_def update_path_nth split: if_splits)
      then show ?thesis
        using r q k sock_token_onward [OF _ on] on by (simp add: routed_def) (simp add: onward_def)
    qed
  qed
qed

lemma client_hop_keeps:
  assumes s: "vpn_ok s" and buf: "\<And>k. wf_pbuf (fresh_buf N k)" and mode: "cx_mode (vs_ctx s) = MODE_CLIENT"
    and run: "client_hop L key N clk s = Inr (s', evs)"
  shows "onward s s'" and "\<And>ds. letters ds evs = []" and "tun_packets evs = []"
    and "(\<And>k. bound N k) \<Longrightarrow> routed (remote_of N) s \<Longrightarrow> routed (remote_of N) s'"
proof -
  let ?P = "\<lambda>t. vpn_ok t \<and> onward s t \<and> ((\<forall>k. bound N k) \<and> routed (remote_of N) s \<longrightarrow> routed (remote_of N) t)"
  let ?Q = "\<lambda>es. (\<forall>ds. letters ds es = []) \<and> tun_packets es = []"
  have "?P s' \<and> ?Q evs"
    using run unfolding client_hop_def
  proof (rule steps_effects [where P = ?P and Q = ?Q])
    fix f t t' es
    assume f: "f \<in> set (map (hop_path L key N clk) [0..<nat (cx_path_count (vs_ctx s))])"
      and t: "?P t" and step: "f t = Inr (t', es)"
    have "cx_path_count (vs_ctx t) = cx_path_count (vs_ctx s)"
      using t by (simp add: onward_def)
    then obtain i where i: "f = hop_path L key N clk i" "i < nat (cx_path_count (vs_ctx t))"
      using f by auto
    have h: "hop_path L key N clk i t = Inr (t', es)" "vpn_ok t" "cx_mode (vs_ctx t) = MODE_CLIENT"
      using step i(1) t mode by (simp_all add: onward_def)
    obtain token where w: "worker_start N i token (5 * 1000) t = Inr (t', es)"
      using h(1) by (auto simp: hop_path_def bind_res_eq_Inr)
    note k = worker_start_keeps [OF h(2) i(2) w]
    show "?P t' \<and> ?Q es"
      using hop_path_ok(1) [OF h(2) i(2) buf h(1)] k(1-3) k(5) [OF h(3)] t onward_trans by blast
  qed (use s in auto)
  then show "onward s s'" and "\<And>ds. letters ds evs = []" and "tun_packets evs = []"
    and "(\<And>k. bound N k) \<Longrightarrow> routed (remote_of N) s \<Longrightarrow> routed (remote_of N) s'"
    by blast+
qed

subsection \<open>A datagram of the other side\<close>

lemma worker_step_stale_token:
  assumes run: "worker_step L key j (Datagram a bs tw) s = Inr (s', evs)" and mode: "cx_mode (vs_ctx s) \<noteq> MODE_CLIENT"
    and "wk_token (vs_workers s ! j) \<notin> set (px_valid (cx_paths (vs_ctx s) ! wk_path (vs_workers s ! j)))"
  shows "vs_ctx s' = vs_ctx s"
  using assms by (auto simp: worker_step_def worker_round_def Let_def bind_res_eq_Inr)

text \<open>What a worker does with a genuine datagram under its token: nothing, or it writes the packet.\<close>

lemma worker_step_genuine:
  assumes lz4: "lz4_ok L" and s: "vpn_ok s" and j: "j < length (vs_workers s)"
    and g: "genuine L key (cx_mtu (vs_ctx s)) (wk_token (vs_workers s ! j)) dg ds"
    and run: "worker_step L key j (Datagram peer dg tw) s = Inr (s', evs)"
  obtains "vs_ctx s' = vs_ctx s" "tun_packets evs = []"
  | "heard (vs_workers s ! j) peer (vs_ctx s) (vs_ctx s')" "tun_packets evs = (if ds = [] then [] else [ds])"
proof (cases "cx_mode (vs_ctx s) = MODE_CLIENT
    \<or> wk_token (vs_workers s ! j) \<in> set (px_valid (cx_paths (vs_ctx s) ! wk_path (vs_workers s ! j)))")
  case False
  then have "vs_ctx s' = vs_ctx s"
    using worker_step_stale_token [OF run] by simp
  then show ?thesis
    using that(1) worker_step_keeps(2) [OF s j lz4 run] by (simp add: round_keeps_def)
next
  case True
  obtain r p n e where p: "rng_ok r" "fits p (cx_mtu (vs_ctx s))" "flag p = 0" "uint (len p) \<le> cx_mtu (vs_ctx s)"
    "encapsulate L key r (wk_token (vs_workers s ! j)) p (cx_mtu (vs_ctx s)) = Inr (n, e)"
    "dg = take (nat n) (pbuf_bytes e)" "contents p = ds"
    using g unfolding genuine_def by blast
  obtain s1 w1 where s1: "worker_step L key j (Datagram peer (take (nat n) (pbuf_bytes e)) tw) s = Inr (s1,
      if len p = 0 then [] else TunWrite (contents p) # (if tw < 0 then [Logged ''tun_write''] else []))"
    "heard (vs_workers s ! j) peer (vs_ctx s) (vs_ctx s1)"
    by (rule worker_step_delivers [where peer=peer and tw=tw, OF lz4 p(1-5) s order.refl j True]) blast
  have "length ds = unat (len p)"
    using p(2,7) by (auto simp: fits_def wf_pbuf_def contents_def)
  then have "ds = [] \<longleftrightarrow> len p = 0"
    by (metis length_0_conv unat_eq_0)
  then show ?thesis
    using that(2) s1 run p(6,7) by auto
qed

end
