(* ===== verification/Longrun.thy ===== *)
theory Longrun
  imports Letters
begin

text \<open>
  What holds of a path over a long run, whatever the process does in between: a path on which
  nothing acceptable arrives expires with the heartbeats, and while the living paths stay the
  same each of them carries its share of the packets that the tun device supplies.
\<close>

section \<open>The time to live of a path\<close>

definition is_beat :: "input \<Rightarrow> bool" where
  "is_beat inp = (case inp of Beat clk rs \<Rightarrow> True | _ \<Rightarrow> False)"

text \<open>The input is a datagram that a worker of path \<open>i\<close> accepts.\<close>

definition renews :: "lib \<Rightarrow> byte list \<Rightarrow> nat \<Rightarrow> vpn \<Rightarrow> input \<Rightarrow> bool" where
  "renews L key i s inp = (case inp of
     Net j rv \<Rightarrow> wk_path (vs_workers s ! j) = i \<and> accepts L key (vs_ctx s) (vs_workers s ! j) rv
   | _ \<Rightarrow> False)"

abbreviation alive_of :: "nat \<Rightarrow> vpn \<Rightarrow> int" where
  "alive_of i s \<equiv> px_alive (cx_paths (vs_ctx s) ! i)"

lemma vpn_ok_index:
  assumes "vpn_ok s" and "i < nat (cx_path_count (vs_ctx s))"
  shows "i < 8" and "length (cx_paths (vs_ctx s)) = 8" and "path_ok (cx_paths (vs_ctx s) ! i)"
proof -
  have c: "ctx_ok (vs_ctx s)"
    using assms(1) by (simp add: vpn_ok_def)
  show "i < 8" and "length (cx_paths (vs_ctx s)) = 8"
    using index_bound [OF c assms(2)] c by (simp_all add: ctx_ok_def)
  then show "path_ok (cx_paths (vs_ctx s) ! i)"
    using path_ok_nth [OF c] by simp
qed

text \<open>A worker that a client starts leaves the times to live alone.\<close>

lemma worker_start_alive:
  assumes "worker_start N j token timeout s = Inr (s', evs)" and "cx_mode (vs_ctx s) = MODE_CLIENT"
    and "j < length (cx_paths (vs_ctx s))"
  shows "alive_of i s' = alive_of i s"
  using assms by (auto simp: worker_start_def Let_def update_path_nth split: if_splits)

lemma client_hop_alive:
  assumes s: "vpn_ok s" "cx_mode (vs_ctx s) = MODE_CLIENT" and N: "\<And>k. wf_pbuf (fresh_buf N k)"
    and run: "client_hop L key N clk s = Inr (s', evs)"
  shows "alive_of i s' = alive_of i s" and "vs_turn s' = vs_turn s"
proof -
  let ?P = "\<lambda>t. vpn_ok t \<and> same_shape s t \<and> alive_of i t = alive_of i s \<and> vs_turn t = vs_turn s"
  have "?P s'"
    using run unfolding client_hop_def
  proof (rule steps_keep [where P = ?P])
    fix f t t' evs
    assume f: "f \<in> set (map (hop_path L key N clk) [0..<nat (cx_path_count (vs_ctx s))])"
      and t: "?P t" and step: "f t = Inr (t', evs)"
    then obtain j where j: "f = hop_path L key N clk j" "j < nat (cx_path_count (vs_ctx t))"
      by (auto simp: same_shape_def)
    have run': "hop_path L key N clk j t = Inr (t', evs)"
      using step j(1) by simp
    have "\<exists>token. worker_start N j token (5 * 1000) t = Inr (t', evs)"
      using run' by (auto simp: hop_path_def bind_res_eq_Inr)
    then obtain token where ws: "worker_start N j token (5 * 1000) t = Inr (t', evs)"
      by blast
    have "cx_mode (vs_ctx t) = MODE_CLIENT" "j < length (cx_paths (vs_ctx t))"
      using t s(2) vpn_ok_index [OF _ j(2)] by (simp_all add: same_shape_def)
    from worker_start_alive [OF ws this] have "alive_of i t' = alive_of i t" .
    moreover have "vs_turn t' = vs_turn t"
      using ws by (auto simp: worker_start_def Let_def split: if_splits)
    moreover have "vpn_ok t'" "same_shape t t'"
      using hop_path_ok [OF _ j(2) N run'] t by simp_all
    ultimately show "?P t'"
      using t same_shape_trans [of s t t'] by simp
  qed (simp add: s)
  then show "alive_of i s' = alive_of i s" and "vs_turn s' = vs_turn s"
    by simp_all
qed

text \<open>The rounds of the first \<open>n\<close> paths.\<close>

lemma heartbeat_prefix_alive:
  assumes s: "vpn_ok s" and r: "\<And>i. rng_ok (rs i)" and n: "n \<le> nat (cx_path_count (vs_ctx s))"
    and i: "i < nat (cx_path_count (vs_ctx s))"
  shows "steps (map (heartbeat_path L key clk rs) [0..<n]) s = Inr (s', evs) \<Longrightarrow>
    vpn_ok s' \<and> same_shape s s' \<and> vs_turn s' = vs_turn s
    \<and> alive_of i s' = (if i < n then max 0 (alive_of i s - 1) else alive_of i s)"
  using n
proof (induction n arbitrary: s' evs)
  case 0
  then show ?case
    using s by simp
next
  case (Suc n)
  obtain s1 evs1 evs2 where run: "steps (map (heartbeat_path L key clk rs) [0..<n]) s = Inr (s1, evs1)"
    "heartbeat_path L key clk rs n s1 = Inr (s', evs2)"
    using Suc.prems(1) by (auto simp: steps_snoc bind_res_eq_Inr)
  have IH: "vpn_ok s1" "same_shape s s1" "vs_turn s1 = vs_turn s"
    "alive_of i s1 = (if i < n then max 0 (alive_of i s - 1) else alive_of i s)"
    using Suc.IH [OF run(1)] Suc.prems(2) by simp_all
  have n: "n < nat (cx_path_count (vs_ctx s1))"
    using Suc.prems(2) IH(2) by (simp add: same_shape_def)
  obtain sn b where s': "s' = s1\<lparr>vs_ctx := (update_path n (beaten (filled L key (clk n) (cx_paths (vs_ctx s1) ! n))) (vs_ctx s1))\<lparr>cx_snmp := sn\<rparr>,
       vs_hb_buf := b\<rparr>"
    by (rule heartbeat_path_form [OF IH(1) n r run(2)])
  have l: "n < length (cx_paths (vs_ctx s1))"
    using vpn_ok_index [OF IH(1) n] by simp
  have "0 \<le> alive_of i s"
    using vpn_ok_index(3) [OF s i] by (simp add: path_ok_def)
  then have "alive_of i s' = (if i < Suc n then max 0 (alive_of i s - 1) else alive_of i s)"
    using IH(4) l by (auto simp: s' update_path_nth beaten_def)
  moreover have "vpn_ok s'" "same_shape s1 s'"
    using heartbeat_path_keeps [OF IH(1) n r run(2)] by simp_all
  ultimately show ?case
    using IH(2,3) same_shape_trans by (auto simp: s')
qed

text \<open>Every input but a frame leaves the turn of the sender alone.\<close>

lemma vpn_step_alive:
  assumes lz4: "lz4_ok L" and s: "vpn_ok s" and i: "i < nat (cx_path_count (vs_ctx s))"
    and inp: "input_ok s inp" and run: "vpn_step tgt L key inp s = Some (Inr (s', evs))"
  shows "alive_of i s' = (if renews L key i s inp then 5 else if is_beat inp then max 0 (alive_of i s - 1) else alive_of i s)"
    and "(\<forall>frame r. inp \<noteq> Frame frame r) \<longrightarrow> vs_turn s' = vs_turn s"
    and "cx_path_count (vs_ctx s') = cx_path_count (vs_ctx s)"
proof -
  have "alive_of i s' = (if renews L key i s inp then 5 else if is_beat inp then max 0 (alive_of i s - 1) else alive_of i s)
    \<and> ((\<forall>frame r. inp \<noteq> Frame frame r) \<longrightarrow> vs_turn s' = vs_turn s)
    \<and> cx_path_count (vs_ctx s') = cx_path_count (vs_ctx s)"
  proof (cases inp)
    case (Frame frame r)
    then have "rng_ok r" "tun_worker tgt L key r frame s = Some (Inr (s', evs))"
      using inp run by (simp_all add: input_ok_def vpn_step_def)
    then show ?thesis
      using tun_worker_ok(2,6) [OF s] Frame by (simp add: renews_def is_beat_def)
  next
    case (Net j rv)
    then have j: "j < length (vs_workers s)" "worker_step L key j rv s = Inr (s', evs)"
      using inp run by (simp_all add: input_ok_def vpn_step_def)
    have l: "wk_path (vs_workers s ! j) < length (cx_paths (vs_ctx s))"
      using worker_nth_ok [OF s j(1)] vpn_ok_index [OF s, of "wk_path (vs_workers s ! j)"] by (auto simp: worker_ok_def)
    have "alive_of i s' = (if renews L key i s inp then 5 else alive_of i s)"
      using worker_step_paths [OF s j] l
      by (auto simp: Let_def Net renews_def renewed_def learnt_def nth_list_update)
    moreover have "vs_turn s' = vs_turn s"
      using j(2) by (auto simp: worker_step_def Let_def bind_res_eq_Inr split: option.splits)
    moreover have "cx_path_count (vs_ctx s') = cx_path_count (vs_ctx s)"
      using worker_step_ok(2) [OF s j(1) lz4 j(2)] by (simp add: evolves_def)
    ultimately show ?thesis
      using Net by (simp add: is_beat_def)
  next
    case (Hop clk N)
    then have h: "cx_mode (vs_ctx s) = MODE_CLIENT" "\<And>k. wf_pbuf (fresh_buf N k)" "client_hop L key N clk s = Inr (s', evs)"
      using inp run by (simp_all add: input_ok_def vpn_step_def)
    show ?thesis
      using client_hop_alive [OF s h] client_hop_ok(2) [OF s h(2,3)] Hop by (simp add: renews_def is_beat_def same_shape_def)
  next
    case (Beat clk rs)
    then have r: "\<And>i. rng_ok (rs i)" and h: "steps (map (heartbeat_path L key clk rs) [0..<nat (cx_path_count (vs_ctx s))]) s = Inr (s', evs)"
      using inp run by (simp_all add: input_ok_def vpn_step_def heartbeat_def)
    show ?thesis
      using heartbeat_prefix_alive [OF s r order.refl i h] i Beat by (simp add: renews_def is_beat_def same_shape_def)
  next
    case (Tick now)
    then have "snmp_round now s = Inr s'"
      using run by (simp add: vpn_step_def bind_res_eq_Inr)
    then show ?thesis
      using Tick by (auto simp: snmp_round_def Let_def renews_def is_beat_def split: if_splits)
  next
    case (Signalled sg)
    then show ?thesis
      using run by (auto simp: vpn_step_def signal_cb_def vpn_stop_def renews_def is_beat_def)
  qed
  then show "alive_of i s' = (if renews L key i s inp then 5 else if is_beat inp then max 0 (alive_of i s - 1) else alive_of i s)"
    and "(\<forall>frame r. inp \<noteq> Frame frame r) \<longrightarrow> vs_turn s' = vs_turn s"
    and "cx_path_count (vs_ctx s') = cx_path_count (vs_ctx s)"
    by blast+
qed

text \<open>Steps in which no worker of path \<open>i\<close> receives an acceptable datagram.\<close>

inductive quiet_step :: "target \<Rightarrow> lib \<Rightarrow> byte list \<Rightarrow> nat \<Rightarrow> vpn \<Rightarrow> input \<Rightarrow> vpn \<Rightarrow> bool" for tgt L key i where
  quiet: "input_ok s inp \<Longrightarrow> vpn_step tgt L key inp s = Some (Inr (s', evs)) \<Longrightarrow> \<not> renews L key i s inp \<Longrightarrow>
    quiet_step tgt L key i s inp s'"

inductive_cases quiet_stepE: "quiet_step tgt L key i s inp s'"

lemma quiet_trail_alive:
  assumes lz4: "lz4_ok L" and run: "trail (quiet_step tgt L key i) s inps s'" and s: "vpn_ok s"
    and i: "i < nat (cx_path_count (vs_ctx s))"
  shows "alive_of i s' = max 0 (alive_of i s - int (length (filter is_beat inps)))
    \<and> vpn_ok s' \<and> cx_path_count (vs_ctx s') = cx_path_count (vs_ctx s)"
  using run s i
proof (induction rule: trail.induct)
  case (rest s)
  then show ?case
    using vpn_ok_index(3) by (auto simp: path_ok_def)
next
  case (go s inp t inps u)
  obtain evs where st: "input_ok s inp" "vpn_step tgt L key inp s = Some (Inr (t, evs))" "\<not> renews L key i s inp"
    using go.hyps(1) by (rule quiet_stepE)
  have t: "vpn_ok t" "cx_path_count (vs_ctx t) = cx_path_count (vs_ctx s)"
    using vpn_step_ok(1) [OF lz4 go.prems(1) st(1,2)] vpn_step_alive(3) [OF lz4 go.prems st(1,2)] by simp_all
  have "0 \<le> alive_of i s"
    using vpn_ok_index(3) [OF go.prems] by (simp add: path_ok_def)
  then show ?case
    using go.IH t go.prems vpn_step_alive(1) [OF lz4 go.prems st(1,2)] st(3) by auto
qed

section \<open>The packets of the tun device\<close>

text \<open>
  What becomes of a packet that is read: the sender takes the next path, and sends exactly one
  datagram, made from this packet under the token of that path, when the path is alive.
\<close>

lemma tun_worker_path:
  assumes s: "vpn_ok s" and r: "rng_ok r" and run: "tun_worker tgt L key r frame s = Some (Inr (s', evs))"
    and ds: "frame_packet tgt s (Frame frame r) \<noteq> []"
  shows "next_path (alive_in (vs_ctx s)) (nat (cx_path_count (vs_ctx s))) (vs_turn s) (vs_turn s) = Some (vs_turn s')"
    and "if alive_in (vs_ctx s) (vs_turn s')
      then \<exists>k dg. px_sock (cx_paths (vs_ctx s) ! vs_turn s') = Some k
        \<and> evs = [UdpSend k (px_remote (cx_paths (vs_ctx s) ! vs_turn s')) dg]
        \<and> genuine L key (cx_mtu (vs_ctx s)) (px_token (cx_paths (vs_ctx s) ! vs_turn s')) dg (frame_packet tgt s (Frame frame r))
      else evs = []"
proof -
  let ?c = "vs_ctx s" and ?ds = "frame_packet tgt s (Frame frame r)"
  let ?next = "next_path (alive_in ?c) (nat (cx_path_count ?c)) (vs_turn s) (vs_turn s)"
  let ?goal = "?next = Some (vs_turn s') \<and> (if alive_in ?c (vs_turn s')
      then \<exists>k dg. px_sock (cx_paths ?c ! vs_turn s') = Some k
        \<and> evs = [UdpSend k (px_remote (cx_paths ?c ! vs_turn s')) dg]
        \<and> genuine L key (cx_mtu ?c) (px_token (cx_paths ?c ! vs_turn s')) dg ?ds
      else evs = [])"
  have goal: ?goal
  proof (rule tun_worker_form [where tgt=tgt and L=L and key=key and r=r and frame=frame, OF s])
    assume "fst (tun_read tgt frame (nat (cx_mtu ?c))) \<le> 0"
    then show ?goal
      using ds by (simp add: frame_packet_def split: prod.splits if_splits)
  next
    fix ds b
    assume rd: "tun_read tgt frame (nat (cx_mtu ?c)) = (int (length ds), ds)" and ne: "ds \<noteq> []" "int (length ds) \<le> cx_mtu ?c"
      and fit: "fits b (cx_mtu ?c)" and b: "flag b = 0" "contents b = ds" "unat (len b) = length ds"
      and form: "tun_worker tgt L key r frame s = udp_sender L key r (s\<lparr>vs_tun_buf := b\<rparr>)"
    have packet: "?ds = ds"
      using ne(1) by (simp add: frame_packet_def rd)
    have lb: "uint (len b) \<le> cx_mtu ?c"
      using b(3) ne(2) by (metis uint_nat)
    have pre: "0 < cx_path_count ?c" "vs_turn s < nat (cx_path_count ?c)"
      using s by (auto simp: vpn_ok_def ctx_ok_def)
    obtain q where q: "?next = Some q"
      using next_path_found [OF pre(2)] by metis
    let ?s = "s\<lparr>vs_tun_buf := b\<rparr>"
    have snd: "udp_sender L key r ?s =
         (if px_sock (cx_paths ?c ! q) = None then Some (Inl AssertFailed)
          else if \<not> alive_in ?c q then Some (Inr (?s\<lparr>vs_turn := q\<rparr>, []))
          else Some (bind_res (send_on L key r (vs_open s) (cx_paths ?c ! q) (cx_mtu ?c) b (cx_snmp ?c))
            (\<lambda>(e, sn, evs). Inr (?s\<lparr>vs_turn := q, vs_ctx := ?c\<lparr>cx_snmp := sn\<rparr>, vs_tun_buf := e\<rparr>, evs))))"
      using pre(1) q by (simp add: udp_sender_def Let_def alive_in_def not_less)
    note run' = run [unfolded form snd]
    show ?goal
    proof (cases "alive_in ?c q")
      case False
      then have "vs_turn s' = q" "evs = []"
        using run' by (auto split: if_splits)
      then show ?thesis
        using q False by simp
    next
      case True
      then obtain e sn where e: "send_on L key r (vs_open s) (cx_paths ?c ! q) (cx_mtu ?c) b (cx_snmp ?c) = Inr (e, sn, evs)"
        "vs_turn s' = q"
        using run' by (auto simp: bind_res_eq_Inr split: if_splits)
      obtain k dg where "px_sock (cx_paths ?c ! q) = Some k" "evs = [UdpSend k (px_remote (cx_paths ?c ! q)) dg]"
        "genuine L key (cx_mtu ?c) (px_token (cx_paths ?c ! q)) dg ds"
        using send_on_genuine [OF e(1) r fit b(1) lb] b(2) by metis
      then show ?thesis
        using True q e(2) by (simp add: packet)
    qed
  qed
  show "?next = Some (vs_turn s')"
    by (rule conjunct1 [OF goal])
  show "if alive_in (vs_ctx s) (vs_turn s')
      then \<exists>k dg. px_sock (cx_paths (vs_ctx s) ! vs_turn s') = Some k
        \<and> evs = [UdpSend k (px_remote (cx_paths (vs_ctx s) ! vs_turn s')) dg]
        \<and> genuine L key (cx_mtu (vs_ctx s)) (px_token (cx_paths (vs_ctx s) ! vs_turn s')) dg ?ds
      else evs = []"
    by (rule conjunct2 [OF goal])
qed

text \<open>A frame without a packet ends the coroutine and sends nothing.\<close>

lemma tun_worker_no_packet:
  assumes s: "vpn_ok s" and run: "tun_worker tgt L key r frame s = Some (Inr (s', evs))"
    and ds: "frame_packet tgt s (Frame frame r) = []"
  shows "s' = s\<lparr>vs_tun_alive := False\<rparr>" and "evs = [Logged ''tun_read'']"
proof -
  have "s' = s\<lparr>vs_tun_alive := False\<rparr> \<and> evs = [Logged ''tun_read'']"
  proof (rule tun_worker_form [where tgt=tgt and L=L and key=key and r=r and frame=frame, OF s])
    fix ds' b
    assume "tun_read tgt frame (nat (cx_mtu (vs_ctx s))) = (int (length ds'), ds')" "ds' \<noteq> []"
    then show ?thesis
      using ds by (simp add: frame_packet_def)
  qed (use run in simp)
  then show "s' = s\<lparr>vs_tun_alive := False\<rparr>" and "evs = [Logged ''tun_read'']"
    by simp_all
qed

lemma tun_worker_sends_alive:
  assumes s: "vpn_ok s" and r: "rng_ok r" and run: "tun_worker tgt L key r frame s = Some (Inr (s', evs))"
    and sent: "UdpSend k a dg \<in> set evs"
  shows "alive_in (vs_ctx s) (vs_turn s')" and "px_sock (cx_paths (vs_ctx s) ! vs_turn s') = Some k"
    and "px_remote (cx_paths (vs_ctx s) ! vs_turn s') = a"
proof -
  have "frame_packet tgt s (Frame frame r) \<noteq> []"
    using tun_worker_no_packet(2) [OF s run] sent by auto
  from tun_worker_path(2) [OF s r run this] sent
  show "alive_in (vs_ctx s) (vs_turn s')" and "px_sock (cx_paths (vs_ctx s) ! vs_turn s') = Some k"
    and "px_remote (cx_paths (vs_ctx s) ! vs_turn s') = a"
    by (auto split: if_splits)
qed

text \<open>The heartbeat of a server on a dead path only stores tokens.\<close>

lemma heartbeat_path_dead:
  assumes s: "vpn_ok s" and i: "i < nat (cx_path_count (vs_ctx s))"
    and dead: "cx_mode (vs_ctx s) = MODE_SERVER" "alive_of i s = 0"
  shows "\<exists>s'. heartbeat_path L key clk rs i s = Inr (s', [])"
  using filled_eq(1) [OF vpn_ok_index(3) [OF s i], of L key "clk i"] dead
  by (simp add: heartbeat_path_def Let_def MODE_SERVER_def MODE_CLIENT_def)

section \<open>Taking turns\<close>

text \<open>The living paths of a process.\<close>

definition living :: "vpn \<Rightarrow> nat list" where
  "living s = filter (alive_in (vs_ctx s)) [0..<nat (cx_path_count (vs_ctx s))]"

lemma living_iff: "i \<in> set (living s) \<longleftrightarrow> i < nat (cx_path_count (vs_ctx s)) \<and> alive_in (vs_ctx s) i"
  by (auto simp: living_def)

text \<open>Steps between states with the same living paths, with the packet that is read and the effects.\<close>

inductive steady_step :: "target \<Rightarrow> lib \<Rightarrow> byte list \<Rightarrow> vpn \<Rightarrow> byte list \<times> effect list \<Rightarrow> vpn \<Rightarrow> bool" for tgt L key where
  steady: "input_ok s i \<Longrightarrow> vpn_step tgt L key i s = Some (Inr (s', evs)) \<Longrightarrow> living s' = living s \<Longrightarrow>
    steady_step tgt L key s (frame_packet tgt s i, evs) s'"

inductive_cases steady_stepE: "steady_step tgt L key s l s'"

definition packets_of :: "(byte list \<times> effect list) list \<Rightarrow> nat" where
  "packets_of ls = length (filter (\<lambda>l. fst l \<noteq> []) ls)"

text \<open>In the step with label \<open>(ds, evs)\<close> from \<open>t\<close> to \<open>t'\<close>, path \<open>i\<close> carries the packet \<open>ds\<close>.\<close>

definition carries :: "lib \<Rightarrow> byte list \<Rightarrow> nat \<Rightarrow> vpn \<Rightarrow> byte list \<Rightarrow> effect list \<Rightarrow> bool" where
  "carries L key i t ds evs \<longleftrightarrow> ds \<noteq> [] \<and> (\<exists>k dg. let p = cx_paths (vs_ctx t) ! i in px_sock p = Some k
     \<and> evs = [UdpSend k (px_remote p) dg] \<and> genuine L key (cx_mtu (vs_ctx t)) (px_token p) dg ds)"

lemma turn_without_packet:
  assumes lz4: "lz4_ok L" and s: "vpn_ok s" and inp: "input_ok s i" and run: "vpn_step tgt L key i s = Some (Inr (s', evs))"
    and ds: "frame_packet tgt s i = []"
  shows "vs_turn s' = vs_turn s"
proof (cases "\<exists>frame r. i = Frame frame r")
  case True
  then obtain frame r where i: "i = Frame frame r"
    by blast
  then have "tun_worker tgt L key r frame s = Some (Inr (s', evs))"
    using run by (simp add: vpn_step_def)
  from tun_worker_no_packet(1) [OF s this] ds i show ?thesis
    by simp
next
  case False
  have "0 < nat (cx_path_count (vs_ctx s))"
    using s by (auto simp: vpn_ok_def)
  then show ?thesis
    using vpn_step_alive(2) [OF lz4 s _ inp run] False by blast
qed

lemma steady_turns:
  assumes lz4: "lz4_ok L" and run: "trail (steady_step tgt L key) s ls s'" and s: "vpn_ok s" and i: "i \<in> set (living s)"
    and d: "0 < d" "d \<le> nat (cx_path_count (vs_ctx s))" "(vs_turn s + d) mod nat (cx_path_count (vs_ctx s)) = i"
    and many: "d \<le> packets_of ls"
  shows "\<exists>us ds evs vs t t'. ls = us @ (ds, evs) # vs \<and> packets_of us < d
    \<and> trail (steady_step tgt L key) s us t \<and> steady_step tgt L key t (ds, evs) t'
    \<and> carries L key i t ds evs \<and> vs_turn t' = i"
  using run s i d many
proof (induction arbitrary: d rule: trail.induct)
  case (rest s)
  then show ?case
    by (simp add: packets_of_def)
next
  case (go s l t ls u)
  let ?n = "nat (cx_path_count (vs_ctx s))"
  obtain inp evs where l: "l = (frame_packet tgt s inp, evs)" and st: "input_ok s inp" "vpn_step tgt L key inp s = Some (Inr (t, evs))"
    "living t = living s"
    using go.hyps(1) by (rule steady_stepE)
  have n: "vs_turn s < ?n" "0 < ?n"
    using go.prems(1) by (auto simp: vpn_ok_def)
  have t: "vpn_ok t" "cx_path_count (vs_ctx t) = cx_path_count (vs_ctx s)" "i \<in> set (living t)"
    using vpn_step_ok(1) [OF lz4 go.prems(1) st(1,2)] vpn_step_alive(3) [OF lz4 go.prems(1) n(2) st(1,2)] st(3) go.prems(2) by simp_all
  have later: ?case if "\<exists>us ds evs vs t' t''. ls = us @ (ds, evs) # vs \<and> packets_of (l # us) < d
    \<and> trail (steady_step tgt L key) t us t' \<and> steady_step tgt L key t' (ds, evs) t'' \<and> carries L key i t' ds evs \<and> vs_turn t'' = i"
    using that go.hyps(1) by (elim exE) (rule exI [of _ "l # us" for us], auto)
  show ?case
  proof (cases "frame_packet tgt s inp = []")
    case True
    then have turn: "vs_turn t = vs_turn s" and p: "packets_of (l # us) = packets_of us" for us
      using turn_without_packet [OF lz4 go.prems(1) st(1,2)] by (simp_all add: l packets_of_def)
    show ?thesis
      by (rule later, unfold p) (rule go.IH, use t turn go.prems p in simp_all)
  next
    case False
    then obtain frame r where f: "inp = Frame frame r"
      by (auto simp: frame_packet_def split: input.splits)
    then have run': "rng_ok r" "tun_worker tgt L key r frame s = Some (Inr (t, evs))"
      and ne: "frame_packet tgt s (Frame frame r) \<noteq> []"
      using st(1,2) False by (simp_all add: input_ok_def vpn_step_def)
    note path = tun_worker_path [OF go.prems(1) run' ne]
    have i: "i < ?n" "alive_in (vs_ctx s) i"
      using go.prems(2) by (simp_all add: living_iff)
    obtain e where e: "0 < e" "e \<le> d" "vs_turn t = (vs_turn s + e) mod ?n"
      using next_path_within [OF n(1) go.prems(3,4), of "alive_in (vs_ctx s)"] go.prems(5) i(2) path(1) by auto
    have p: "packets_of (l # us) = Suc (packets_of us)" for us
      using False by (simp add: l packets_of_def)
    show ?thesis
    proof (cases "e = d")
      case True
      then have turn: "vs_turn t = i"
        using e(3) go.prems(5) by simp
      then have "carries L key i s (frame_packet tgt s inp) evs"
        using path(2) i(2) False unfolding carries_def Let_def f by simp
      then show ?thesis
        using go.hyps(1) go.prems(3) turn by (intro exI [of _ "[]"] exI [of _ "fst l"] exI [of _ evs] exI [of _ ls] exI [of _ s] exI [of _ t])
          (simp add: l packets_of_def trail.rest)
    next
      case False
      then have d: "0 < d - e" "d - e \<le> nat (cx_path_count (vs_ctx t))" "d - e \<le> packets_of ls"
        using e go.prems t(2) p [of ls] by simp_all
      have "(vs_turn t + (d - e)) mod ?n = (vs_turn s + e + (d - e)) mod ?n"
        unfolding e(3) by (rule mod_add_left_eq)
      then have turn: "(vs_turn t + (d - e)) mod nat (cx_path_count (vs_ctx t)) = i"
        using e(2) go.prems(5) t(2) by simp
      obtain us ds evs' vs t' t'' where "ls = us @ (ds, evs') # vs" "packets_of us < d - e"
        "trail (steady_step tgt L key) t us t'" "steady_step tgt L key t' (ds, evs') t''" "carries L key i t' ds evs'" "vs_turn t'' = i"
        using go.IH [OF t(1,3) d(1,2) turn d(3)] by blast
      then show ?thesis
        using e(1) p [of us] by (intro later) (fastforce simp del: trail_Cons)
    qed
  qed
qed

section \<open>Properties\<close>

text \<open>
  C18. A path on which nothing acceptable arrives expires. In any run of a client or a server
  with five heartbeats in it, whatever else the process does in between (packets, datagrams on
  other paths, datagrams that are rejected, hops, timeouts, signals), a path on which no worker
  accepts a datagram is dead at the end. From then on the sender never uses it: every datagram
  made from a packet of the tun device leaves on another path, which is alive. A server
  does not even send a heartbeat on it; a client does, which is how it can revive the path. Five
  pauses between heartbeats last less than 3.4 seconds.
\<close>

theorem silent_paths_expire:
  assumes "lz4_ok L" and "vpn_ok s" and "i < nat (cx_path_count (vs_ctx s))"
    and "trail (quiet_step tgt L key i) s inps s'" and "5 \<le> length (filter is_beat inps)"
  shows "px_alive (cx_paths (vs_ctx s') ! i) = 0
    \<and> (\<forall>frame r s'' evs k a dg. rng_ok r \<and> tun_worker tgt L key r frame s' = Some (Inr (s'', evs)) \<and> UdpSend k a dg \<in> set evs
        \<longrightarrow> vs_turn s'' \<noteq> i \<and> alive_in (vs_ctx s') (vs_turn s'')
          \<and> px_sock (cx_paths (vs_ctx s') ! vs_turn s'') = Some k \<and> px_remote (cx_paths (vs_ctx s') ! vs_turn s'') = a)
    \<and> (cx_mode (vs_ctx s') = MODE_SERVER \<longrightarrow> (\<forall>clk rs. \<exists>s''. heartbeat_path L key clk rs i s' = Inr (s'', [])))
    \<and> (\<forall>rs. length rs = 5 \<and> (\<forall>r \<in> set rs. rng_ok r) \<longrightarrow> sum_list (map heartbeat_pause rs) < 3400)"
proof -
  have run: "alive_of i s' = max 0 (alive_of i s - int (length (filter is_beat inps)))" "vpn_ok s'" "i < nat (cx_path_count (vs_ctx s'))"
    using quiet_trail_alive [OF assms(1,4,2,3)] assms(3) by simp_all
  have "alive_of i s \<le> 5"
    using vpn_ok_index(3) [OF assms(2,3)] by (simp add: path_ok_def)
  then have dead: "alive_of i s' = 0"
    using run(1) assms(5) by simp
  have "sum_list (map heartbeat_pause rs) < 3400" if "length rs = 5" "\<forall>r \<in> set rs. rng_ok r" for rs
    using pauses_bound [of rs] that by simp
  moreover have "vs_turn s'' \<noteq> i \<and> alive_in (vs_ctx s') (vs_turn s'')
      \<and> px_sock (cx_paths (vs_ctx s') ! vs_turn s'') = Some k \<and> px_remote (cx_paths (vs_ctx s') ! vs_turn s'') = a"
    if "rng_ok r" "tun_worker tgt L key r frame s' = Some (Inr (s'', evs))" "UdpSend k a dg \<in> set evs" for frame r s'' evs k a dg
    using tun_worker_sends_alive [OF run(2) that] dead by (auto simp: alive_in_def)
  ultimately show ?thesis
    using dead heartbeat_path_dead [OF run(2,3) _ dead] by blast
qed

lemma quiet_beats:
  assumes "vpn_ok s" "socks_ok s" and r: "\<And>i. rng_ok (rs i)"
  shows "\<exists>s'. trail (quiet_step tgt L key i) s (replicate n (Beat clk rs)) s' \<and> cx_mode (vs_ctx s') = cx_mode (vs_ctx s)"
  using assms(1,2)
proof (induction n arbitrary: s)
  case 0
  then show ?case by simp
next
  case (Suc n)
  obtain s1 evs where s1: "heartbeat L key clk rs s = Inr (s1, evs)" "vpn_ok s1" "socks_ok s1"
    by (rule heartbeat_ok [where rs=rs and L=L and key=key and clk=clk, OF Suc.prems r])
  have "quiet_step tgt L key i s (Beat clk rs) s1"
    by (rule quiet_step.quiet) (simp_all add: s1(1) input_ok_def vpn_step_def renews_def r)
  moreover have "cx_mode (vs_ctx s1) = cx_mode (vs_ctx s)"
    using heartbeat_keeps(2) [OF Suc.prems(1) r s1(1)] by (simp add: same_shape_def)
  ultimately show ?case
    using Suc.IH [OF s1(2,3)] by auto
qed

theorem silent_paths_expire_witness:
  "\<exists>s'. trail (quiet_step Linux demo_lib [1, 2] 1) demo_server
      (Signalled SIGUSR1 # replicate 5 (Beat (\<lambda>_ _. (1500000000, 0)) (\<lambda>_. demo_rng))) s'
    \<and> px_alive (cx_paths (vs_ctx demo_server) ! 1) = 5 \<and> px_alive (cx_paths (vs_ctx s') ! 1) = 0
    \<and> (\<forall>clk rs. \<exists>s''. heartbeat_path demo_lib [1, 2] clk rs 1 s' = Inr (s'', []))"
proof -
  have s: "vpn_ok demo_server" "socks_ok demo_server" "cx_mode (vs_ctx demo_server) = MODE_SERVER"
    using demo_server_state by (simp_all add: server_state_def)
  have q: "quiet_step Linux demo_lib [1, 2] 1 demo_server (Signalled SIGUSR1) demo_server"
    by (rule quiet_step.quiet) (simp_all add: input_ok_def vpn_step_def signal_cb_def renews_def)
  obtain s' where run: "trail (quiet_step Linux demo_lib [1, 2] 1) demo_server
      (replicate 5 (Beat (\<lambda>_ _. (1500000000, 0)) (\<lambda>_. demo_rng))) s'" "cx_mode (vs_ctx s') = MODE_SERVER"
    using quiet_beats [OF s(1,2), of "\<lambda>_. demo_rng"] demo_rng_ok s(3) by metis
  have tr: "trail (quiet_step Linux demo_lib [1, 2] 1) demo_server
      (Signalled SIGUSR1 # replicate 5 (Beat (\<lambda>_ _. (1500000000, 0)) (\<lambda>_. demo_rng))) s'"
    using q run(1) by (rule trail.go)
  have i: "1 < nat (cx_path_count (vs_ctx demo_server))" "px_alive (cx_paths (vs_ctx demo_server) ! 1) = 5"
    by (simp_all add: demo_server_def demo_peer_def demo_ctx_def)
  have "5 \<le> length (filter is_beat (Signalled SIGUSR1 # replicate 5 (Beat (\<lambda>_ _. (1500000000, 0)) (\<lambda>_. demo_rng))))"
    by (simp add: is_beat_def)
  from silent_paths_expire [OF demo_lz4_ok s(1) i(1) tr this] show ?thesis
    using tr i(2) run(2) by blast
qed

text \<open>
  C19. Every living path is used. In any run in which the living paths stay the same, whatever
  happens between the packets (heartbeats, datagrams, hops, counters), a living path carries one
  of the next packets from the tun device: when the run reads at least as many packets as there
  are paths, \<^verbatim>\<open>udp_sender\<close> sends one of the first of them, at most the number of paths, on this
  path, as exactly one datagram through the path's socket to its remote address, made from this
  packet under its token.
\<close>

theorem alive_path_is_used:
  assumes "lz4_ok L" and "vpn_ok s" and "trail (steady_step tgt L key) s ls s'" and "i \<in> set (living s)"
    and "nat (cx_path_count (vs_ctx s)) \<le> packets_of ls"
  shows "\<exists>us ds evs vs t t'. ls = us @ (ds, evs) # vs \<and> packets_of us < nat (cx_path_count (vs_ctx s))
    \<and> trail (steady_step tgt L key) s us t \<and> steady_step tgt L key t (ds, evs) t'
    \<and> carries L key i t ds evs \<and> vs_turn t' = i"
proof -
  have "i < nat (cx_path_count (vs_ctx s))" "vs_turn s < nat (cx_path_count (vs_ctx s))"
    using assms(2,4) by (simp_all add: living_iff vpn_ok_def)
  then obtain d where d: "0 < d" "d \<le> nat (cx_path_count (vs_ctx s))" "(vs_turn s + d) mod nat (cx_path_count (vs_ctx s)) = i"
    by (rule mod_reach)
  from steady_turns [OF assms(1,3,2,4) d] d(2) assms(5) show ?thesis
    by (meson le_trans less_le_trans)
qed

lemma tun_worker_stays:
  assumes s: "vpn_ok s" and r: "rng_ok r" and run: "tun_worker tgt L key r frame s = Some (Inr (s', evs))"
    and ds: "frame_packet tgt s (Frame frame r) \<noteq> []"
  shows "vs_tun_alive s' = vs_tun_alive s"
proof (rule tun_worker_form [where tgt=tgt and L=L and key=key and r=r and frame=frame, OF s])
  assume "fst (tun_read tgt frame (nat (cx_mtu (vs_ctx s)))) \<le> 0"
  then show ?thesis
    using ds by (simp add: frame_packet_def split: prod.splits if_splits)
next
  fix ds b
  assume ok: "vpn_ok (s\<lparr>vs_tun_buf := b\<rparr>)" and fit: "fits b (cx_mtu (vs_ctx s))"
    and form: "tun_worker tgt L key r frame s = udp_sender L key r (s\<lparr>vs_tun_buf := b\<rparr>)"
  have fit': "fits (vs_tun_buf (s\<lparr>vs_tun_buf := b\<rparr>)) (cx_mtu (vs_ctx (s\<lparr>vs_tun_buf := b\<rparr>)))"
    using fit by simp
  show ?thesis
    by (rule udp_sender_ok [OF ok r fit' run [unfolded form]]) simp
qed

lemma steady_frame:
  assumes s: "vpn_ok s" "socks_ok s" "\<not> unbound_path s" "vs_tun_alive s" and r: "rng_ok r"
    and ds: "ds \<noteq> []" "length ds \<le> 1024" and i: "i \<in> set (living s)"
  obtains evs s' where "steady_step tgt L key s (ds, evs) s'" "vpn_ok s'" "socks_ok s'" "\<not> unbound_path s'" "vs_tun_alive s'"
    "i \<in> set (living s')"
proof -
  let ?f = "Some (fst (tun_write tgt ds))"
  have mtu: "int (length ds) \<le> cx_mtu (vs_ctx s)"
    using s(1) ds(2) by (simp add: vpn_ok_def ctx_ok_def)
  have i': "i < nat (cx_path_count (vs_ctx s))" "alive_in (vs_ctx s) i"
    using i by (simp_all add: living_iff)
  obtain s' evs where run: "tun_worker tgt L key r ?f s = Some (Inr (s', evs))"
    by (rule tun_worker_sends [where tgt=tgt and L=L and key=key, OF s(1-3) r ds(1) mtu i'])
  have packet: "frame_packet tgt s (Frame ?f r) = ds"
    using ds(1) mtu tun_write_read [of ds "nat (cx_mtu (vs_ctx s))" tgt] by (simp add: frame_packet_def)
  note ok = tun_worker_ok [OF s(1) r run]
  have living: "living s' = living s"
    using ok(2,6) by (simp add: living_def alive_in_def [abs_def])
  have "steady_step tgt L key s (frame_packet tgt s (Frame ?f r), evs) s'"
    by (rule steady_step.steady) (use s(4) r run living in \<open>simp_all add: input_ok_def vpn_step_def\<close>)
  moreover have "socks_ok s'" "\<not> unbound_path s'"
    using s(2,3) ok(2,5,6) by (simp_all add: socks_ok_def unbound_path_def)
  moreover have "vs_tun_alive s'"
    using tun_worker_stays [OF s(1) r run] packet ds(1) s(4) by simp
  ultimately show ?thesis
    using that ok(1) living i packet by simp
qed

text \<open>A client with two living paths reads two packets; one of them leaves on path 0.\<close>

theorem alive_path_is_used_witness:
  "\<exists>e1 e2 s' us ds evs vs t. trail (steady_step Linux demo_lib [1, 2]) (demo_vpn\<lparr>vs_ctx := demo_both\<rparr>) [([1], e1), ([2, 3], e2)] s'
    \<and> [([1], e1), ([2, 3], e2)] = us @ (ds, evs) # vs \<and> carries demo_lib [1, 2] 0 t ds evs"
proof -
  let ?s = "demo_vpn\<lparr>vs_ctx := demo_both\<rparr>"
  have s: "vpn_ok ?s" "socks_ok ?s" "\<not> unbound_path ?s" "vs_tun_alive ?s" "0 \<in> set (living ?s)" "cx_path_count (vs_ctx ?s) = 2"
  proof -
    have f: "cx_path_count demo_both = 2" "vs_open demo_vpn = [0, 1]" "vs_tun_alive demo_vpn"
      "cx_paths demo_both ! 0 = zero_path_ctx\<lparr>px_sock := Some 0, px_alive := 3\<rparr>"
      "cx_paths demo_both ! 1 = cx_paths demo_ctx ! 1" "px_sock (cx_paths demo_ctx ! 1) = Some 1"
      by (simp_all add: demo_both_def demo_ctx_def demo_vpn_def)
    show "cx_path_count (vs_ctx ?s) = 2" "vs_tun_alive ?s"
      by (simp_all add: f)
    show "0 \<in> set (living ?s)"
      by (simp add: living_iff f alive_in_def)
    have "px_sock (cx_paths demo_both ! i) \<noteq> None" if "i < 2" for i
    proof (cases "i = 0")
      case False
      then have "i = 1"
        using that by simp
      then show ?thesis
        using f by simp
    qed (simp add: f)
    then show "\<not> unbound_path ?s"
      by (auto simp: unbound_path_def f(1))
    show "vpn_ok ?s" "socks_ok ?s"
      by (simp_all add: vpn_ok_def ctx_ok_def path_ok_def socks_ok_def demo_vpn_def demo_both_def demo_ctx_def zero_ctx_def
          zero_path_ctx_def token_ranged_def packet_of_fields POOL_def MODE_CLIENT_def)
  qed
  obtain e1 s1 where s1: "steady_step Linux demo_lib [1, 2] ?s ([1], e1) s1" "vpn_ok s1" "socks_ok s1" "\<not> unbound_path s1" "vs_tun_alive s1"
    "0 \<in> set (living s1)"
    by (rule steady_frame [OF s(1-4) demo_rng_ok, of "[1]" 0 Linux demo_lib "[1, 2]"]) (use s(5) in simp_all)
  obtain e2 s2 where s2: "steady_step Linux demo_lib [1, 2] s1 ([2, 3], e2) s2"
    by (rule steady_frame [OF s1(2-5) demo_rng_ok, of "[2, 3]" 0 Linux demo_lib "[1, 2]"]) (use s1(6) in simp_all)
  have tr: "trail (steady_step Linux demo_lib [1, 2]) ?s [([1], e1), ([2, 3], e2)] s2"
    using s1(1) s2 by auto
  have "nat (cx_path_count (vs_ctx ?s)) \<le> packets_of [([1], e1), ([2, 3], e2)]"
    unfolding s(6) by (simp add: packets_of_def)
  from alive_path_is_used [OF demo_lz4_ok s(1) tr s(5) this] tr show ?thesis
    by blast
qed

end
