(* ===== verification/Network.thy ===== *)
theory Network
  imports Letters "HOL-Library.Multiset"
begin

text \<open>
  A client and a server joined by a network. The network may lose, delay, reorder and, where
  \<open>nt_repeats\<close> is set, repeat datagrams, and it may deliver noise that the receiver rejects; it
  brings a datagram to the socket it is addressed to. The invariant says that whatever is under
  way is genuine for the socket it will reach, so that the tunnel carries packets unchanged.
\<close>

section \<open>The joint system\<close>

text \<open>
  \<open>nt_resolve\<close> is the resolver of the client, \<open>nt_port i p\<close> the address at which port \<open>p\<close> of the
  server's path \<open>i\<close> is reached, \<open>nt_site k\<close> the address the server sees for socket \<open>k\<close> of the client.
\<close>

record net =
  nt_repeats :: bool
  nt_resolve :: "string \<Rightarrow> int \<Rightarrow> ipaddr"
  nt_port :: "nat \<Rightarrow> int \<Rightarrow> ipaddr"
  nt_site :: "sock \<Rightarrow> ipaddr"

record world =
  wd_client :: vpn
  wd_server :: vpn
  wd_up :: "letter multiset"
  wd_down :: "letter multiset"
  client_read :: "byte list multiset"
  client_wrote :: "byte list multiset"
  server_read :: "byte list multiset"
  server_wrote :: "byte list multiset"

text \<open>The inputs other than datagrams. The client resolves names as before and can bind its sockets.\<close>

definition own_input :: "net \<Rightarrow> input \<Rightarrow> bool" where
  "own_input net i = (case i of
     Net j rv \<Rightarrow> (case rv of Datagram a bs tw \<Rightarrow> False | _ \<Rightarrow> True)
   | Hop clk N \<Rightarrow> remote_of N = nt_resolve net \<and> (\<forall>k. bound N k)
   | _ \<Rightarrow> True)"

definition parcel :: "byte list \<Rightarrow> byte list multiset" where
  "parcel ds = (if ds = [] then {#} else {#ds#})"

text \<open>The address of a worker of the server.\<close>

definition worker_port :: "net \<Rightarrow> vpn \<Rightarrow> worker \<Rightarrow> ipaddr" where
  "worker_port net s w = nt_port net (wk_path w) (px_start (cx_paths (vs_ctx s) ! wk_path w) + wk_token w)"

inductive world_step :: "target \<Rightarrow> target \<Rightarrow> net \<Rightarrow> lib \<Rightarrow> byte list \<Rightarrow> world \<Rightarrow> world \<Rightarrow> bool" for tgt tgt' net L key where
  client_acts: "input_ok (wd_client w) i \<Longrightarrow> own_input net i \<Longrightarrow> vpn_step tgt L key i (wd_client w) = Some (Inr (c, evs))
    \<Longrightarrow> ds = frame_packet tgt (wd_client w) i
    \<Longrightarrow> world_step tgt tgt' net L key w (w\<lparr>wd_client := c, wd_up := wd_up w + mset (letters ds evs),
          client_read := client_read w + parcel ds\<rparr>)"
| server_acts: "input_ok (wd_server w) i \<Longrightarrow> own_input net i \<Longrightarrow> vpn_step tgt' L key i (wd_server w) = Some (Inr (s, evs))
    \<Longrightarrow> ds = frame_packet tgt' (wd_server w) i
    \<Longrightarrow> world_step tgt tgt' net L key w (w\<lparr>wd_server := s, wd_down := wd_down w + mset (letters ds evs),
          server_read := server_read w + parcel ds\<rparr>)"
| server_hears: "l \<in># wd_up w \<Longrightarrow> j < length (vs_workers (wd_server w))
    \<Longrightarrow> lt_to l = worker_port net (wd_server w) (vs_workers (wd_server w) ! j)
    \<Longrightarrow> vpn_step tgt' L key (Net j (Datagram (nt_site net (lt_from l)) (lt_body l) tw)) (wd_server w) = Some (Inr (s, evs))
    \<Longrightarrow> world_step tgt tgt' net L key w (w\<lparr>wd_server := s, wd_up := wd_up w - {#l#},
          server_wrote := server_wrote w + mset (tun_packets evs)\<rparr>)"
| client_hears: "l \<in># wd_down w \<Longrightarrow> j < length (vs_workers (wd_client w))
    \<Longrightarrow> lt_to l = nt_site net (wk_sock (vs_workers (wd_client w) ! j))
    \<Longrightarrow> vpn_step tgt L key (Net j (Datagram a (lt_body l) tw)) (wd_client w) = Some (Inr (c, evs))
    \<Longrightarrow> world_step tgt tgt' net L key w (w\<lparr>wd_client := c, wd_down := wd_down w - {#l#},
          client_wrote := client_wrote w + mset (tun_packets evs)\<rparr>)"
| server_rejects: "j < length (vs_workers (wd_server w))
    \<Longrightarrow> vpn_step tgt' L key (Net j (Datagram a bs tw)) (wd_server w) = Some (Inr (s, evs))
    \<Longrightarrow> vs_ctx s = vs_ctx (wd_server w)
    \<Longrightarrow> world_step tgt tgt' net L key w (w\<lparr>wd_server := s, server_wrote := server_wrote w + mset (tun_packets evs)\<rparr>)"
| client_rejects: "j < length (vs_workers (wd_client w))
    \<Longrightarrow> vpn_step tgt L key (Net j (Datagram a bs tw)) (wd_client w) = Some (Inr (c, evs))
    \<Longrightarrow> vs_ctx c = vs_ctx (wd_client w)
    \<Longrightarrow> world_step tgt tgt' net L key w (w\<lparr>wd_client := c, client_wrote := client_wrote w + mset (tun_packets evs)\<rparr>)"
| lost: "up \<subseteq># wd_up w \<Longrightarrow> down \<subseteq># wd_down w
    \<Longrightarrow> world_step tgt tgt' net L key w (w\<lparr>wd_up := up, wd_down := down\<rparr>)"
| repeated: "nt_repeats net \<Longrightarrow> set_mset up \<subseteq> set_mset (wd_up w) \<Longrightarrow> set_mset down \<subseteq> set_mset (wd_down w)
    \<Longrightarrow> world_step tgt tgt' net L key w (w\<lparr>wd_up := up, wd_down := down\<rparr>)"

section \<open>Its invariant\<close>

definition parcels :: "letter multiset \<Rightarrow> byte list multiset" where
  "parcels ls = filter_mset (\<lambda>ds. ds \<noteq> []) (image_mset lt_packet ls)"

text \<open>All that was written or is under way was read, and once for each reading unless datagrams repeat.\<close>

definition carried :: "net \<Rightarrow> byte list multiset \<Rightarrow> letter multiset \<Rightarrow> byte list multiset \<Rightarrow> bool" where
  "carried net rd ls wr \<longleftrightarrow> set_mset (parcels ls + wr) \<subseteq> set_mset rd \<and> (\<not> nt_repeats net \<longrightarrow> parcels ls + wr \<subseteq># rd)"

lemma parcels_simps [simp]: "parcels {#} = {#}" "parcels (ls + ms) = parcels ls + parcels ms"
  by (simp_all add: parcels_def)

lemma carried_none [simp]: "carried net {#} {#} {#}"
  by (simp add: carried_def)

lemma carried_read: "carried net rd ls wr \<Longrightarrow> parcels new \<subseteq># ds \<Longrightarrow> carried net (rd + ds) (ls + new) wr"
proof -
  assume c: "carried net rd ls wr" and new: "parcels new \<subseteq># ds"
  have split: "parcels (ls + new) + wr = parcels ls + wr + parcels new"
    by (simp add: ac_simps)
  show "carried net (rd + ds) (ls + new) wr"
    using c set_mset_mono [OF new] unfolding carried_def split
    by (auto intro: subset_mset.add_mono new)
qed

lemma carried_less: "carried net rd ls wr \<Longrightarrow> ls' \<subseteq># ls \<Longrightarrow> carried net rd ls' wr"
proof -
  assume c: "carried net rd ls wr" and "ls' \<subseteq># ls"
  then have sub: "parcels ls' + wr \<subseteq># parcels ls + wr"
    unfolding parcels_def by (intro subset_mset.add_right_mono multiset_filter_mono image_mset_subseteq_mono)
  show "carried net rd ls' wr"
    using c set_mset_mono [OF sub] subset_mset.order_trans [OF sub] unfolding carried_def by blast
qed

lemma carried_repeated:
  assumes "carried net rd ls wr" and "nt_repeats net" and "set_mset ls' \<subseteq> set_mset ls"
  shows "carried net rd ls' wr"
  using assms by (auto simp: carried_def parcels_def)

lemma carried_written:
  assumes "carried net rd ls wr" and "l \<in># ls" and "out \<subseteq># parcel (lt_packet l)"
  shows "carried net rd (ls - {#l#}) (wr + out)"
proof -
  have "parcels ls = parcels (ls - {#l#} + {#l#})"
    using assms(2) by simp
  also have "\<dots> = parcels (ls - {#l#}) + parcel (lt_packet l)"
    unfolding parcels_simps by (simp add: parcels_def parcel_def)
  finally have "parcels (ls - {#l#}) + (wr + out) \<subseteq># parcels ls + wr"
    using assms(3) by (simp add: ac_simps subset_mset.add_left_mono)
  from set_mset_mono [OF this] subset_mset.order_trans [OF this] assms(1) show ?thesis
    unfolding carried_def by blast
qed

text \<open>The letters a segment sends hold its packet, at most once.\<close>

lemma parcels_letters:
  assumes "vpn_ok s" and "input_ok s i" and "vpn_step tgt L key i s = Some (Inr (s', evs))"
  shows "parcels (mset (letters (frame_packet tgt s i) evs)) \<subseteq># parcel (frame_packet tgt s i)"
proof (cases "frame_packet tgt s i = []")
  case True
  have "lt_packet l = []" if "l \<in> set (letters [] evs)" for l
    using that by (rule letters_packet)
  then have "set_mset (parcels (mset (letters [] evs))) = {}"
    by (auto simp: parcels_def)
  then show ?thesis
    using True by simp
next
  case False
  then obtain frame r where i: "i = Frame frame r"
    by (auto simp: frame_packet_def split: input.splits)
  then have run: "rng_ok r" "tun_worker tgt L key r frame s = Some (Inr (s', evs))"
    using assms(2,3) by (simp_all add: input_ok_def vpn_step_def)
  have one: "length (letters (frame_packet tgt s i) evs) \<le> 1"
    unfolding i by (rule tun_worker_sends_genuine(2) [OF assms(1) run])
  show ?thesis
  proof (cases "letters (frame_packet tgt s i) evs")
    case Nil
    then show ?thesis
      by (simp add: parcel_def)
  next
    case (Cons l ls)
    then have "ls = []" and "lt_packet l = frame_packet tgt s i"
      using one letters_packet [of l "frame_packet tgt s i" evs] by simp_all
    then show ?thesis
      using Cons False by (simp add: parcels_def parcel_def)
  qed
qed

text \<open>
  What holds of the two processes and the datagrams between them: whatever is under way to the
  server is genuine under the token of the port it is addressed to, and whatever is under way to
  a socket of the client is genuine under the token of that socket's worker.
\<close>

definition up_ok :: "net \<Rightarrow> lib \<Rightarrow> byte list \<Rightarrow> vpn \<Rightarrow> letter \<Rightarrow> bool" where
  "up_ok net L key c l \<longleftrightarrow> (\<exists>i < nat (cx_path_count (vs_ctx c)). \<exists>t.
     lt_to l = nt_resolve net (cstr (px_server (cx_paths (vs_ctx c) ! i))) (px_start (cx_paths (vs_ctx c) ! i) + t)
     \<and> sock_token c (lt_from l) t \<and> genuine L key (cx_mtu (vs_ctx c)) t (lt_body l) (lt_packet l))"

definition down_ok :: "net \<Rightarrow> lib \<Rightarrow> byte list \<Rightarrow> vpn \<Rightarrow> letter \<Rightarrow> bool" where
  "down_ok net L key c l \<longleftrightarrow> (\<exists>k t. lt_to l = nt_site net k \<and> sock_token c k t
     \<and> genuine L key (cx_mtu (vs_ctx c)) t (lt_body l) (lt_packet l))"

text \<open>A living path of the server answers to a socket of the client, under the token of its worker.\<close>

definition answers :: "net \<Rightarrow> vpn \<Rightarrow> vpn \<Rightarrow> bool" where
  "answers net c s \<longleftrightarrow> (\<forall>i < 8. 0 < px_alive (cx_paths (vs_ctx s) ! i) \<longrightarrow>
     (\<exists>k. px_remote (cx_paths (vs_ctx s) ! i) = nt_site net k \<and> sock_token c k (px_token (cx_paths (vs_ctx s) ! i))))"

text \<open>Ports of the server that are reached at the same address belong to the same token on both sides.\<close>

definition ports_match :: "net \<Rightarrow> vpn \<Rightarrow> vpn \<Rightarrow> bool" where
  "ports_match net c s \<longleftrightarrow> (\<forall>i < nat (cx_path_count (vs_ctx c)). \<forall>j < nat (cx_path_count (vs_ctx s)). \<forall>t u.
     nt_resolve net (cstr (px_server (cx_paths (vs_ctx c) ! i))) (px_start (cx_paths (vs_ctx c) ! i) + t)
       = nt_port net j (px_start (cx_paths (vs_ctx s) ! j) + u) \<longrightarrow> t = u)"

definition peers_ok :: "net \<Rightarrow> vpn \<Rightarrow> vpn \<Rightarrow> bool" where
  "peers_ok net c s \<longleftrightarrow> vpn_ok c \<and> vpn_ok s \<and> cx_mode (vs_ctx c) = MODE_CLIENT \<and> cx_mode (vs_ctx s) = MODE_SERVER
     \<and> cx_mtu (vs_ctx s) = cx_mtu (vs_ctx c) \<and> routed (nt_resolve net) c \<and> answers net c s \<and> ports_match net c s"

definition world_ok :: "net \<Rightarrow> lib \<Rightarrow> byte list \<Rightarrow> world \<Rightarrow> bool" where
  "world_ok net L key w \<longleftrightarrow> peers_ok net (wd_client w) (wd_server w)
     \<and> (\<forall>l \<in># wd_up w. up_ok net L key (wd_client w) l) \<and> (\<forall>l \<in># wd_down w. down_ok net L key (wd_client w) l)
     \<and> carried net (client_read w) (wd_up w) (server_wrote w) \<and> carried net (server_read w) (wd_down w) (client_wrote w)"

lemma world_okI:
  assumes "peers_ok net (wd_client w) (wd_server w)" and "\<And>l. l \<in># wd_up w \<Longrightarrow> up_ok net L key (wd_client w) l"
    and "\<And>l. l \<in># wd_down w \<Longrightarrow> down_ok net L key (wd_client w) l"
    and "carried net (client_read w) (wd_up w) (server_wrote w)" and "carried net (server_read w) (wd_down w) (client_wrote w)"
  shows "world_ok net L key w"
  using assms by (simp add: world_ok_def)

lemma letters_ok_onward:
  assumes "onward c c'" and "vpn_ok c"
  shows "up_ok net L key c l \<Longrightarrow> up_ok net L key c' l" and "down_ok net L key c l \<Longrightarrow> down_ok net L key c' l"
proof -
  have on: "cx_path_count (vs_ctx c') = cx_path_count (vs_ctx c)" "cx_mtu (vs_ctx c') = cx_mtu (vs_ctx c)"
    using assms(1) by (simp_all add: onward_def)
  show "up_ok net L key c' l" if up: "up_ok net L key c l"
  proof -
    obtain i t where i: "i < nat (cx_path_count (vs_ctx c))"
      and l: "lt_to l = nt_resolve net (cstr (px_server (cx_paths (vs_ctx c) ! i))) (px_start (cx_paths (vs_ctx c) ! i) + t)"
      "sock_token c (lt_from l) t" "genuine L key (cx_mtu (vs_ctx c)) t (lt_body l) (lt_packet l)"
      using up by (auto simp: up_ok_def)
    have "i < 8"
      using i assms(2) by (auto simp: vpn_ok_def ctx_ok_def)
    then have "px_server (cx_paths (vs_ctx c') ! i) = px_server (cx_paths (vs_ctx c) ! i)"
      "px_start (cx_paths (vs_ctx c') ! i) = px_start (cx_paths (vs_ctx c) ! i)"
      using assms(1) by (simp_all add: onward_def)
    then show ?thesis
      unfolding up_ok_def on using i l sock_token_onward [OF l(2) assms(1)] by metis
  qed
  show "down_ok net L key c' l" if "down_ok net L key c l"
    using that sock_token_onward [OF _ assms(1)] unfolding down_ok_def on by blast
qed

lemma ports_match_onward:
  assumes "onward c c'" "onward s s'" and "vpn_ok c" "vpn_ok s" and m: "ports_match net c s"
  shows "ports_match net c' s'"
proof -
  have "px_server (cx_paths (vs_ctx c') ! i) = px_server (cx_paths (vs_ctx c) ! i)"
    "px_start (cx_paths (vs_ctx c') ! i) = px_start (cx_paths (vs_ctx c) ! i)"
    if "i < nat (cx_path_count (vs_ctx c))" for i
    using that assms(1,3) by (auto simp: onward_def vpn_ok_def ctx_ok_def)
  moreover have "px_start (cx_paths (vs_ctx s') ! j) = px_start (cx_paths (vs_ctx s) ! j)"
    if "j < nat (cx_path_count (vs_ctx s))" for j
    using that assms(2,4) by (auto simp: onward_def vpn_ok_def ctx_ok_def)
  moreover have "cx_path_count (vs_ctx c') = cx_path_count (vs_ctx c)" "cx_path_count (vs_ctx s') = cx_path_count (vs_ctx s)"
    using assms(1,2) by (simp_all add: onward_def)
  ultimately show ?thesis
    using m by (simp add: ports_match_def)
qed

lemma answers_onward:
  assumes "answers net c s" and "onward c c'" and "no_livelier s s'" "same_routes s s'"
  shows "answers net c' s'"
  unfolding answers_def
proof (intro allI impI)
  fix i assume i: "i < 8" and "0 < px_alive (cx_paths (vs_ctx s') ! i)"
  then obtain k where "px_remote (cx_paths (vs_ctx s) ! i) = nt_site net k" "sock_token c k (px_token (cx_paths (vs_ctx s) ! i))"
    using assms(1,3) unfolding answers_def no_livelier_def by blast
  then show "\<exists>k. px_remote (cx_paths (vs_ctx s') ! i) = nt_site net k \<and> sock_token c' k (px_token (cx_paths (vs_ctx s') ! i))"
    using sock_token_onward [OF _ assms(2)] assms(4) i by (auto simp: same_routes_def)
qed

section \<open>Every step keeps it\<close>

lemma same_paths_onward:
  assumes "cx_paths (vs_ctx s') = cx_paths (vs_ctx s)" "cx_mode (vs_ctx s') = cx_mode (vs_ctx s)"
    "cx_mtu (vs_ctx s') = cx_mtu (vs_ctx s)" "cx_path_count (vs_ctx s') = cx_path_count (vs_ctx s)"
    "vs_workers s' = vs_workers s" "vs_next s' = vs_next s"
  shows "onward s s'" "same_routes s s'" "no_livelier s s'"
  using assms by (auto simp: onward_def same_routes_def no_livelier_def)

lemma own_step:
  assumes lz4: "lz4_ok L" and s: "vpn_ok s" and i: "input_ok s i" "own_input net i"
    and run: "vpn_step tgt L key i s = Some (Inr (s', evs))"
  shows "onward s s'" and "sends L key s (letters (frame_packet tgt s i) evs)"
    and "routed (nt_resolve net) s \<Longrightarrow> routed (nt_resolve net) s'"
    and "cx_mode (vs_ctx s) \<noteq> MODE_CLIENT \<Longrightarrow> same_routes s s' \<and> no_livelier s s'"
proof -
  have none: "sends L key s []"
    by (simp add: sends_def)
  let ?goal = "onward s s' \<and> sends L key s (letters (frame_packet tgt s i) evs)
    \<and> (routed (nt_resolve net) s \<longrightarrow> routed (nt_resolve net) s')
    \<and> (cx_mode (vs_ctx s) \<noteq> MODE_CLIENT \<longrightarrow> same_routes s s' \<and> no_livelier s s')"
  have ?goal
  proof (cases i)
    case (Frame frame r)
    then have h: "rng_ok r" "tun_worker tgt L key r frame s = Some (Inr (s', evs))"
      using i run by (simp_all add: input_ok_def vpn_step_def)
    show ?thesis
      using tun_worker_onward [OF s h] tun_worker_sends_genuine(1) [OF s h] routed_same unfolding Frame by blast
  next
    case (Net j rv)
    then have h: "j < length (vs_workers s)" "worker_step L key j rv s = Inr (s', evs)" "\<forall>a bs tw. rv \<noteq> Datagram a bs tw"
      using i run by (auto simp: input_ok_def own_input_def vpn_step_def split: recv.splits)
    note w = worker_step_keeps [OF s h(1) lz4 h(2)]
    have "same_routes s s'" "no_livelier s s'"
      using w(3) [OF h(3)] by (simp_all add: same_routes_def no_livelier_def)
    moreover have "letters (frame_packet tgt s i) evs = []"
      using w(2) by (simp add: round_keeps_def)
    ultimately show ?thesis
      using w(1) routed_same none by metis
  next
    case (Hop clk N)
    then have h: "\<And>k. wf_pbuf (fresh_buf N k)" "cx_mode (vs_ctx s) = MODE_CLIENT" "client_hop L key N clk s = Inr (s', evs)"
      and N: "remote_of N = nt_resolve net" "\<And>k. bound N k"
      using i run by (simp_all add: input_ok_def own_input_def vpn_step_def)
    show ?thesis
      using client_hop_keeps [OF s h] N none h(2) by metis
  next
    case (Beat clk rs)
    then have h: "\<And>i. rng_ok (rs i)" "heartbeat L key clk rs s = Inr (s', evs)" "frame_packet tgt s i = []"
      using i run by (simp_all add: input_ok_def vpn_step_def frame_packet_def)
    show ?thesis
      using heartbeat_effects [OF s h(1,2)] routed_same unfolding h(3) by blast
  next
    case (Tick now)
    then have "snmp_round now s = Inr s'" "evs = []"
      using run by (auto simp: vpn_step_def bind_res_eq_Inr)
    then have "onward s s'" "same_routes s s'" "no_livelier s s'"
      by (intro same_paths_onward; auto simp: snmp_round_def Let_def split: if_splits)+
    then show ?thesis
      using \<open>evs = []\<close> routed_same none by simp
  next
    case (Signalled sg)
    then have "s' = fst (signal_cb sg s)" "evs = []"
      using run by (simp_all add: vpn_step_def)
    then have "onward s s'" "same_routes s s'" "no_livelier s s'"
      by (intro same_paths_onward; simp add: signal_cb_def vpn_stop_def)+
    then show ?thesis
      using \<open>evs = []\<close> routed_same none by simp
  qed
  then show "onward s s'" and "sends L key s (letters (frame_packet tgt s i) evs)"
    and "routed (nt_resolve net) s \<Longrightarrow> routed (nt_resolve net) s'"
    and "cx_mode (vs_ctx s) \<noteq> MODE_CLIENT \<Longrightarrow> same_routes s s' \<and> no_livelier s s'"
    by blast+
qed

lemma client_letters_ok:
  assumes "vpn_ok c" and "cx_mode (vs_ctx c) = MODE_CLIENT" and "routed (nt_resolve net) c"
    and "sends L key c ls" and "l \<in> set ls"
  shows "up_ok net L key c l"
proof -
  obtain i where i: "i < nat (cx_path_count (vs_ctx c))" "sent_on L key (vs_ctx c) (cx_paths (vs_ctx c) ! i) l"
    using assms(4,5) by (auto simp: sends_def)
  then have "i < 8"
    using assms(1) by (auto simp: vpn_ok_def ctx_ok_def)
  moreover have "px_sock (cx_paths (vs_ctx c) ! i) = Some (lt_from l)"
    using i(2) by (simp add: sent_on_def)
  ultimately have "sock_token c (lt_from l) (px_token (cx_paths (vs_ctx c) ! i))"
    "px_remote (cx_paths (vs_ctx c) ! i) = nt_resolve net (cstr (px_server (cx_paths (vs_ctx c) ! i)))
          (px_start (cx_paths (vs_ctx c) ! i) + px_token (cx_paths (vs_ctx c) ! i))"
    using assms(3) by (simp_all add: routed_def)
  then show ?thesis
    using i unfolding up_ok_def sent_on_def by metis
qed

lemma server_letters_ok:
  assumes "peers_ok net c s" and "sends L key s ls" and "l \<in> set ls"
  shows "down_ok net L key c l"
proof -
  obtain i where i: "i < nat (cx_path_count (vs_ctx s))" "sent_on L key (vs_ctx s) (cx_paths (vs_ctx s) ! i) l"
    using assms(2,3) by (auto simp: sends_def)
  then have "i < 8" "0 < px_alive (cx_paths (vs_ctx s) ! i)"
    using assms(1) by (auto simp: peers_ok_def vpn_ok_def ctx_ok_def sent_on_def MODE_CLIENT_def MODE_SERVER_def)
  then obtain k where "px_remote (cx_paths (vs_ctx s) ! i) = nt_site net k" "sock_token c k (px_token (cx_paths (vs_ctx s) ! i))"
    using assms(1) unfolding peers_ok_def answers_def by blast
  moreover have "cx_mtu (vs_ctx s) = cx_mtu (vs_ctx c)"
    using assms(1) by (simp add: peers_ok_def)
  ultimately show ?thesis
    using i(2) unfolding down_ok_def sent_on_def by metis
qed

lemma peers_ok_client:
  assumes p: "peers_ok net c s" and on: "onward c c'" and ok: "vpn_ok c'" and r: "routed (nt_resolve net) c'"
  shows "peers_ok net c' s"
  using p on ok r answers_onward [OF _ on onward_refl(3,2)] ports_match_onward [OF on onward_refl(1)]
  by (simp add: peers_ok_def) (simp add: onward_def)

lemma peers_ok_server:
  assumes p: "peers_ok net c s" and on: "onward s s'" and ok: "vpn_ok s'" and a: "answers net c s'"
  shows "peers_ok net c s'"
  using p on ok a ports_match_onward [OF onward_refl(1) on]
  by (simp add: peers_ok_def) (simp add: onward_def)

lemma server_hears_ok:
  assumes lz4: "lz4_ok L" and p: "peers_ok net c s" and up: "up_ok net L key c l" and j: "j < length (vs_workers s)"
    and to: "lt_to l = worker_port net s (vs_workers s ! j)"
    and run: "worker_step L key j (Datagram (nt_site net (lt_from l)) (lt_body l) tw) s = Inr (s', evs)"
  shows "peers_ok net c s'" and "mset (tun_packets evs) \<subseteq># parcel (lt_packet l)"
proof -
  let ?w = "vs_workers s ! j"
  have c: "vpn_ok c" and s: "vpn_ok s" and mtu: "cx_mtu (vs_ctx s) = cx_mtu (vs_ctx c)"
    and mode: "cx_mode (vs_ctx s) = MODE_SERVER" and ans: "answers net c s" and pm: "ports_match net c s"
    using p by (simp_all add: peers_ok_def)
  have wok: "worker_ok s ?w" and ctx: "ctx_ok (vs_ctx s)"
    using s j by (simp_all add: vpn_ok_def)
  then have wp: "wk_path ?w < nat (cx_path_count (vs_ctx s))" "wk_path ?w < 8"
    using worker_path_bound [OF wok ctx] by (simp_all add: worker_ok_def zless_nat_eq_int_zless)
  obtain i t where i: "i < nat (cx_path_count (vs_ctx c))"
    and t: "lt_to l = nt_resolve net (cstr (px_server (cx_paths (vs_ctx c) ! i))) (px_start (cx_paths (vs_ctx c) ! i) + t)"
      "sock_token c (lt_from l) t" "genuine L key (cx_mtu (vs_ctx c)) t (lt_body l) (lt_packet l)"
    using up unfolding up_ok_def by blast
  have tok: "t = wk_token ?w"
    using pm i wp(1) t(1) to unfolding ports_match_def worker_port_def by metis
  have on: "onward s s'" and ok: "vpn_ok s'"
    using worker_step_keeps(1) [OF s j lz4 run] worker_step_ok(1) [OF s j lz4 run] by simp_all
  have g: "genuine L key (cx_mtu (vs_ctx s)) (wk_token ?w) (lt_body l) (lt_packet l)"
    using t(3) tok mtu by simp
  have "answers net c s' \<and> mset (tun_packets evs) \<subseteq># parcel (lt_packet l)"
  proof (rule worker_step_genuine [OF lz4 s j g run])
    assume "vs_ctx s' = vs_ctx s" "tun_packets evs = []"
    then show ?thesis
      using ans by (simp add: answers_def)
  next
    assume h: "heard ?w (nt_site net (lt_from l)) (vs_ctx s) (vs_ctx s')"
      and out: "tun_packets evs = (if lt_packet l = [] then [] else [lt_packet l])"
    have "\<exists>k. px_remote (cx_paths (vs_ctx s') ! q) = nt_site net k \<and> sock_token c k (px_token (cx_paths (vs_ctx s') ! q))"
      if "q < 8" "0 < px_alive (cx_paths (vs_ctx s') ! q)" for q
    proof (cases "q = wk_path ?w")
      case True
      then show ?thesis
        using h mode t(2) tok unfolding heard_def by metis
    next
      case False
      then show ?thesis
        using h ans that unfolding heard_def answers_def by metis
    qed
    then show ?thesis
      using out by (simp add: answers_def parcel_def)
  qed
  then show "peers_ok net c s'" and "mset (tun_packets evs) \<subseteq># parcel (lt_packet l)"
    using peers_ok_server [OF p on ok] by simp_all
qed

lemma client_hears_ok:
  assumes lz4: "lz4_ok L" and inj: "inj (nt_site net)" and p: "peers_ok net c s" and down: "down_ok net L key c l"
    and j: "j < length (vs_workers c)" and to: "lt_to l = nt_site net (wk_sock (vs_workers c ! j))"
    and run: "worker_step L key j (Datagram a (lt_body l) tw) c = Inr (c', evs)"
  shows "peers_ok net c' s" and "mset (tun_packets evs) \<subseteq># parcel (lt_packet l)"
proof -
  let ?w = "vs_workers c ! j"
  have c: "vpn_ok c" and r: "routed (nt_resolve net) c" and mode: "cx_mode (vs_ctx c) = MODE_CLIENT"
    using p by (simp_all add: peers_ok_def)
  obtain k t where kt: "lt_to l = nt_site net k" "sock_token c k t"
    "genuine L key (cx_mtu (vs_ctx c)) t (lt_body l) (lt_packet l)"
    using down unfolding down_ok_def by blast
  have "k = wk_sock ?w"
    using inj kt(1) to by (simp add: inj_eq)
  then have "wk_token ?w = t"
    using kt(2) nth_mem [OF j] by (simp add: sock_token_def)
  then have g: "genuine L key (cx_mtu (vs_ctx c)) (wk_token ?w) (lt_body l) (lt_packet l)"
    using kt(3) by simp
  note k = worker_step_keeps [OF c j lz4 run]
  have "same_routes c c'"
    using k(2) mode by (simp add: round_keeps_def same_routes_def)
  then show "peers_ok net c' s"
    using peers_ok_client [OF p k(1) worker_step_ok(1) [OF c j lz4 run]] routed_same [OF r k(1)] by blast
  show "mset (tun_packets evs) \<subseteq># parcel (lt_packet l)"
    by (rule worker_step_genuine [OF lz4 c j g run]) (simp_all add: parcel_def)
qed

lemma rejects_ok:
  assumes lz4: "lz4_ok L" and s: "vpn_ok s" and j: "j < length (vs_workers s)"
    and run: "worker_step L key j (Datagram a bs tw) s = Inr (s', evs)" and same: "vs_ctx s' = vs_ctx s"
  shows "onward s s'" and "vpn_ok s'" and "same_routes s s'" and "no_livelier s s'" and "tun_packets evs = []"
  using worker_step_keeps [OF s j lz4 run] worker_step_ok(1) [OF s j lz4 run] same
  by (simp_all add: same_routes_def no_livelier_def round_keeps_def)

lemma world_step_ok:
  assumes lz4: "lz4_ok L" and inj: "inj (nt_site net)" and ok: "world_ok net L key w"
    and step: "world_step tgt tgt' net L key w w'"
  shows "world_ok net L key w'"
proof -
  let ?c = "wd_client w" and ?s = "wd_server w"
  have p: "peers_ok net ?c ?s" and ups: "\<And>l. l \<in># wd_up w \<Longrightarrow> up_ok net L key ?c l"
    and downs: "\<And>l. l \<in># wd_down w \<Longrightarrow> down_ok net L key ?c l"
    and up: "carried net (client_read w) (wd_up w) (server_wrote w)" and down: "carried net (server_read w) (wd_down w) (client_wrote w)"
    using ok by (simp_all add: world_ok_def)
  have c: "vpn_ok ?c" "cx_mode (vs_ctx ?c) = MODE_CLIENT" "routed (nt_resolve net) ?c"
    and s: "vpn_ok ?s" "cx_mode (vs_ctx ?s) \<noteq> MODE_CLIENT" and ans: "answers net ?c ?s"
    using p by (simp_all add: peers_ok_def MODE_CLIENT_def MODE_SERVER_def)
  from step show ?thesis
  proof cases
    case (client_acts i c' evs ds)
    note o = own_step [OF lz4 c(1) client_acts(2-4)]
    have "peers_ok net c' ?s"
      using peers_ok_client [OF p o(1) vpn_step_ok(1) [OF lz4 c(1) client_acts(2,4)]] o(3) c(3) by blast
    moreover have "up_ok net L key c' l" if "l \<in># wd_up w + mset (letters ds evs)" for l
      using that ups client_letters_ok [OF c o(2)] letters_ok_onward(1) [OF o(1) c(1)] client_acts(5) by auto
    moreover have "carried net (client_read w + parcel ds) (wd_up w + mset (letters ds evs)) (server_wrote w)"
      unfolding client_acts(5) by (rule carried_read [OF up parcels_letters [OF c(1) client_acts(2,4)]])
    ultimately show ?thesis
      using downs letters_ok_onward(2) [OF o(1) c(1)] down unfolding client_acts(1) by (intro world_okI) simp_all
  next
    case (server_acts i s' evs ds)
    note o = own_step [OF lz4 s(1) server_acts(2-4)]
    have "peers_ok net ?c s'"
      using peers_ok_server [OF p o(1) vpn_step_ok(1) [OF lz4 s(1) server_acts(2,4)]] o(4) [OF s(2)]
        answers_onward [OF ans onward_refl(1)] by blast
    moreover have "down_ok net L key ?c l" if "l \<in># wd_down w + mset (letters ds evs)" for l
      using that downs server_letters_ok [OF p o(2)] server_acts(5) by auto
    moreover have "carried net (server_read w + parcel ds) (wd_down w + mset (letters ds evs)) (client_wrote w)"
      unfolding server_acts(5) by (rule carried_read [OF down parcels_letters [OF s(1) server_acts(2,4)]])
    ultimately show ?thesis
      using ups up unfolding server_acts(1) by (intro world_okI) simp_all
  next
    case (server_hears l j tw s' evs)
    have run: "worker_step L key j (Datagram (nt_site net (lt_from l)) (lt_body l) tw) ?s = Inr (s', evs)"
      using server_hears(5) by (simp add: vpn_step_def)
    note h = server_hears_ok [OF lz4 p ups [OF server_hears(2)] server_hears(3,4) run]
    have "up_ok net L key ?c l'" if "l' \<in># wd_up w - {#l#}" for l'
      using ups that by (meson in_diffD)
    moreover have "carried net (client_read w) (wd_up w - {#l#}) (server_wrote w + mset (tun_packets evs))"
      by (rule carried_written [OF up server_hears(2) h(2)])
    ultimately show ?thesis
      using h(1) downs down unfolding server_hears(1) by (intro world_okI) simp_all
  next
    case (client_hears l j a tw c' evs)
    have run: "worker_step L key j (Datagram a (lt_body l) tw) ?c = Inr (c', evs)"
      using client_hears(5) by (simp add: vpn_step_def)
    note h = client_hears_ok [OF lz4 inj p downs [OF client_hears(2)] client_hears(3,4) run]
    note o = letters_ok_onward [OF worker_step_keeps(1) [OF c(1) client_hears(3) lz4 run] c(1)]
    have "down_ok net L key c' l'" if "l' \<in># wd_down w - {#l#}" for l'
      using downs o(2) that by (meson in_diffD)
    moreover have "carried net (server_read w) (wd_down w - {#l#}) (client_wrote w + mset (tun_packets evs))"
      by (rule carried_written [OF down client_hears(2) h(2)])
    ultimately show ?thesis
      using h(1) ups o(1) up unfolding client_hears(1) by (intro world_okI) simp_all
  next
    case (server_rejects j a bs tw s' evs)
    have run: "worker_step L key j (Datagram a bs tw) ?s = Inr (s', evs)"
      using server_rejects(3) by (simp add: vpn_step_def)
    note k = rejects_ok [OF lz4 s(1) server_rejects(2) run server_rejects(4)]
    have "peers_ok net ?c s'"
      by (rule peers_ok_server [OF p k(1,2) answers_onward [OF ans onward_refl(1) k(4,3)]])
    then show ?thesis
      using ups downs up down k(5) unfolding server_rejects(1) by (intro world_okI) simp_all
  next
    case (client_rejects j a bs tw c' evs)
    have run: "worker_step L key j (Datagram a bs tw) ?c = Inr (c', evs)"
      using client_rejects(3) by (simp add: vpn_step_def)
    note k = rejects_ok [OF lz4 c(1) client_rejects(2) run client_rejects(4)]
    have "peers_ok net c' ?s"
      by (rule peers_ok_client [OF p k(1,2) routed_same [OF c(3) k(1,3)]])
    then show ?thesis
      using ups downs letters_ok_onward [OF k(1) c(1)] up down k(5) unfolding client_rejects(1) by (intro world_okI) simp_all
  next
    case (lost up' down')
    have "up_ok net L key ?c l" if "l \<in># up'" for l
      using ups mset_subset_eqD [OF lost(2) that] .
    moreover have "down_ok net L key ?c l" if "l \<in># down'" for l
      using downs mset_subset_eqD [OF lost(3) that] .
    ultimately show ?thesis
      using p carried_less [OF up lost(2)] carried_less [OF down lost(3)] unfolding lost(1) by (intro world_okI) simp_all
  next
    case (repeated up' down')
    have "up_ok net L key ?c l" if "l \<in># up'" for l
      using ups repeated(3) that by blast
    moreover have "down_ok net L key ?c l" if "l \<in># down'" for l
      using downs repeated(4) that by blast
    ultimately show ?thesis
      using p carried_repeated [OF up repeated(2,3)] carried_repeated [OF down repeated(2,4)] unfolding repeated(1)
      by (intro world_okI) simp_all
  qed
qed

section \<open>The beginning\<close>

text \<open>\<^verbatim>\<open>vpn_run\<close> up to its loop, for a configuration: the state of the process and what it has done so far.\<close>

definition starts :: "lib \<Rightarrow> byte list \<Rightarrow> conf \<Rightarrow> netenv \<Rightarrow> vpn \<Rightarrow> effect list \<Rightarrow> bool" where
  "starts L key c N s evs \<longleftrightarrow> (\<exists>ctx0 tun clk1 clk2 rs now0 now tb hb.
     init_ctx c = Inr ctx0 \<and> (\<forall>k. wf_pbuf (fresh_buf N k)) \<and> (\<forall>i. rng_ok (rs i)) \<and> wf_pbuf tb \<and> wf_pbuf hb
     \<and> run_start L key N clk1 clk2 rs now (boot (ctx0\<lparr>cx_tun := tun\<rparr>) tb hb now0) = Inr (s, evs))"

definition world_init :: "net \<Rightarrow> lib \<Rightarrow> byte list \<Rightarrow> conf \<Rightarrow> conf \<Rightarrow> world \<Rightarrow> bool" where
  "world_init net L key cc sc w \<longleftrightarrow> (\<exists>N N' evs evs'. remote_of N = nt_resolve net \<and> (\<forall>k. bound N k)
     \<and> starts L key cc N (wd_client w) evs \<and> starts L key sc N' (wd_server w) evs'
     \<and> wd_up w = mset (letters [] evs) \<and> wd_down w = mset (letters [] evs')
     \<and> client_read w = {#} \<and> server_read w = {#}
     \<and> client_wrote w = mset (tun_packets evs) \<and> server_wrote w = mset (tun_packets evs'))"

text \<open>The two configurations fit together: ports at the same address have the same token.\<close>

definition confs_match :: "net \<Rightarrow> conf \<Rightarrow> conf \<Rightarrow> bool" where
  "confs_match net cc sc \<longleftrightarrow> cf_mode cc = MODE_CLIENT \<and> cf_mode sc = MODE_SERVER \<and> cf_mtu cc = cf_mtu sc
     \<and> (\<forall>i < nat (cf_path_count cc). \<forall>j < nat (cf_path_count sc). \<forall>t u.
          nt_resolve net (cstr (server (cf_paths cc ! i))) (fst (port (cf_paths cc ! i)) + t)
            = nt_port net j (fst (port (cf_paths sc ! j)) + u) \<longrightarrow> t = u)"

lemma init_paths_nth:
  "init_paths pcs ps = Inr ps' \<Longrightarrow> i < length pcs \<Longrightarrow>
     px_start (ps' ! i) = fst (port (pcs ! i)) \<and> px_range (ps' ! i) = snd (port (pcs ! i)) - fst (port (pcs ! i))
     \<and> cstr (px_server (ps' ! i)) = cstr (server (pcs ! i))"
proof (induction pcs ps arbitrary: ps' i rule: init_paths.induct)
  case (3 pc pcs p ps)
  then obtain p' qs where p': "init_path pc p = Inr p'" "init_paths pcs ps = Inr qs" "ps' = p' # qs"
    by (auto simp: bind_res_eq_Inr)
  have "NUL \<notin> set (cstr (server pc))"
    by (auto simp: cstr_def dest: set_takeWhileD)
  then have "px_start p' = fst (port pc) \<and> px_range p' = snd (port pc) - fst (port pc) \<and> cstr (px_server p') = cstr (server pc)"
    using p'(1) by (auto simp: init_path_def Let_def write_at_def split: if_splits)
  then show ?case
    using 3(1) [OF p'(2)] 3(3) p'(3) p'(1,2) 3 by (cases i) auto
qed simp_all

definition configured :: "conf \<Rightarrow> vpn \<Rightarrow> bool" where
  "configured c s \<longleftrightarrow> cx_mode (vs_ctx s) = cf_mode c \<and> cx_mtu (vs_ctx s) = cf_mtu c \<and> cx_path_count (vs_ctx s) = cf_path_count c
     \<and> (\<forall>i < nat (cf_path_count c). px_start (cx_paths (vs_ctx s) ! i) = fst (port (cf_paths c ! i))
          \<and> px_range (cx_paths (vs_ctx s) ! i) = snd (port (cf_paths c ! i)) - fst (port (cf_paths c ! i))
          \<and> cstr (px_server (cx_paths (vs_ctx s) ! i)) = cstr (server (cf_paths c ! i)))"

lemma configured_onward: "configured c s \<Longrightarrow> onward s t \<Longrightarrow> vpn_ok s \<Longrightarrow> configured c t"
  by (auto simp: configured_def onward_def vpn_ok_def ctx_ok_def)

text \<open>The beginning in its three parts: the first hop or the workers of all ports, a heartbeat, the rest.\<close>

lemma starts_parts:
  assumes u: "usable tgt c" and st: "starts L key c N s evs"
  obtains b s1 s2 evs1 evs2 clk1 clk2 rs where "vpn_ok b" "socks_ok b" "vs_workers b = []" "configured c b"
    "\<And>i. i < 8 \<Longrightarrow> px_sock (cx_paths (vs_ctx b) ! i) = None \<and> px_alive (cx_paths (vs_ctx b) ! i) = 0"
    "\<And>k. wf_pbuf (fresh_buf N k)" "\<And>i. rng_ok (rs i)"
    "cf_mode c = MODE_CLIENT \<Longrightarrow> client_hop L key N clk1 b = Inr (s1, evs1)"
    "cf_mode c \<noteq> MODE_CLIENT \<Longrightarrow> steps (server_workers N (vs_ctx b)) b = Inr (s1, evs1)"
    "vpn_ok s1" "heartbeat L key clk2 rs s1 = Inr (s2, evs2)" "evs = evs1 @ evs2"
    "onward s2 s" "same_routes s2 s" "no_livelier s2 s" "vpn_ok s"
    "vs_tun_alive b" "vs_tun_alive s = vs_tun_alive s2" "vs_workers s = vs_workers s2"
proof -
  obtain ctx0 tun clk1 clk2 rs now0 now tb hb where st': "init_ctx c = Inr ctx0" "\<forall>k. wf_pbuf (fresh_buf N k)"
    "\<forall>i. rng_ok (rs i)" "wf_pbuf tb" "wf_pbuf hb"
    "run_start L key N clk1 clk2 rs now (boot (ctx0\<lparr>cx_tun := tun\<rparr>) tb hb now0) = Inr (s, evs)"
    using st unfolding starts_def by blast
  obtain c0 where "init_ctx c = Inr c0" "ctx_ok c0" "\<forall>p \<in> set (cx_paths c0). fresh_path p" "cx_mode c0 = cf_mode c"
    by (rule init_ctx_ok [OF u])
  then have c0: "ctx_ok ctx0" "\<forall>p \<in> set (cx_paths ctx0). fresh_path p" "cx_mode ctx0 = cf_mode c"
    using st'(1) by simp_all
  define b where "b = boot (ctx0\<lparr>cx_tun := tun\<rparr>) tb hb now0"
  have b: "vpn_ok b" "socks_ok b" "vs_workers b = []" "cx_mode (vs_ctx b) = cf_mode c"
    using boot_ok [OF c0(1,2) st'(4,5)] c0(3) by (simp_all add: b_def) (simp_all add: boot_def)
  have "cf_path_count c \<le> 8" "length (cf_paths c) = 8"
    using u by (auto simp: usable_def conf_ready_def conf_wf_def)
  then have conf: "configured c b"
    using st'(1) c0(3) init_paths_nth [of "take (nat (cf_path_count c)) (cf_paths c)" "cx_paths zero_ctx" "cx_paths ctx0"]
    by (auto simp: configured_def b_def boot_def init_ctx_def bind_res_eq_Inr)
  have fresh: "px_sock (cx_paths (vs_ctx b) ! i) = None \<and> px_alive (cx_paths (vs_ctx b) ! i) = 0" if "i < 8" for i
    using c0(1,2) that by (simp add: b_def boot_def ctx_ok_def fresh_path_def)
  have h: "\<And>k. wf_pbuf (fresh_buf N k)" "\<And>i. rng_ok (rs i)"
    using st'(2,3) by simp_all
  obtain s1 evs1 s2 evs2 s3 where run: "(if cx_mode (vs_ctx b) = MODE_CLIENT then client_hop L key N clk1 b
               else steps (server_workers N (vs_ctx b)) b) = Inr (s1, evs1)"
    "heartbeat L key clk2 rs s1 = Inr (s2, evs2)" "snmp_round now s2 = Inr s3"
    "s = s3\<lparr>vs_ctx := (vs_ctx s3)\<lparr>cx_running := 1\<rparr>\<rparr>" "evs = evs1 @ evs2"
    using st'(6) by (auto simp: run_start_def b_def [symmetric] bind_res_eq_Inr)
  have s1: "vpn_ok s1"
    using run(1) client_hop_ok(1) [OF b(1) h(1)] server_workers_ok(1) [OF b(1-3) h(1)] by (auto split: if_splits)
  have rest: "onward s2 s" "same_routes s2 s" "no_livelier s2 s"
    using run(3) by (intro same_paths_onward; auto simp: run(4) snmp_round_def Let_def split: if_splits)+
  have dev: "vs_tun_alive b" "vs_tun_alive s = vs_tun_alive s2" "vs_workers s = vs_workers s2"
    using run(3) by (auto simp: run(4) snmp_round_def Let_def b_def boot_def split: if_splits)
  have "initial L key c s"
    by (rule initialI [OF st'])
  then have "vpn_ok s"
    by (rule initial_ok(1) [OF u])
  then show ?thesis
    by (intro that [OF b(1-3) conf fresh h _ _ s1 run(2,5) rest _ dev]) (use run(1) b(4) in simp_all)
qed

lemma server_workers_keeps:
  assumes s: "vpn_ok s" "socks_ok s" "vs_workers s = []" and buf: "\<And>k. wf_pbuf (fresh_buf N k)"
    and mode: "cx_mode (vs_ctx s) \<noteq> MODE_CLIENT" and run: "steps (server_workers N (vs_ctx s)) s = Inr (s', evs)"
  shows "onward s s'" and "no_livelier s s'" and "\<And>ds. letters ds evs = []" and "tun_packets evs = []"
proof -
  let ?P = "\<lambda>t. vpn_ok t \<and> same_shape s t \<and> onward s t \<and> no_livelier s t"
  let ?Q = "\<lambda>es. (\<forall>ds. letters ds es = []) \<and> tun_packets es = []"
  have "?P s' \<and> ?Q evs"
    using run
  proof (rule steps_effects [where P = ?P and Q = ?Q])
    fix f t t' es
    assume f: "f \<in> set (server_workers N (vs_ctx s))" and t: "?P t" and step: "f t = Inr (t', es)"
    then obtain i j where ij: "f = worker_start N i (int j) (-1)" "i < nat (cx_path_count (vs_ctx s))"
      "int j \<le> px_range (cx_paths (vs_ctx s) ! i)"
      by (auto simp: server_workers_def)
    have "i < 8"
      using index_bound [OF _ ij(2)] s(1) by (simp add: vpn_ok_def)
    then have h: "i < nat (cx_path_count (vs_ctx t))" "int j \<le> px_range (cx_paths (vs_ctx t) ! i)" "0 \<le> int j"
      "worker_start N i (int j) (-1) t = Inr (t', es)" "vpn_ok t" "cx_mode (vs_ctx t) \<noteq> MODE_CLIENT"
      using ij t step mode by (simp_all add: same_shape_def)
    note st = worker_start_ok [OF h(5,1,3,2) buf h(4)] and k = worker_start_keeps [OF h(5,1,4)]
    show "?P t' \<and> ?Q es"
      using st(1,2) k(1-3) k(4) [OF h(6)] t same_shape_trans onward_trans no_livelier_trans by blast
  qed (use s in auto)
  then show "onward s s'" and "no_livelier s s'" and "\<And>ds. letters ds evs = []" and "tun_packets evs = []"
    by simp_all
qed

lemma client_starts:
  assumes u: "usable tgt c" and mode: "cf_mode c = MODE_CLIENT" and st: "starts L key c N s evs" and bound: "\<And>k. bound N k"
  shows "vpn_ok s" and "configured c s" and "routed (remote_of N) s" and "tun_packets evs = []"
    and "\<And>net l. nt_resolve net = remote_of N \<Longrightarrow> l \<in> set (letters [] evs) \<Longrightarrow> up_ok net L key s l"
proof -
  obtain b s1 s2 evs1 evs2 clk1 clk2 rs where b: "vpn_ok b" "socks_ok b" "vs_workers b = []" "configured c b"
    "\<And>i. i < 8 \<Longrightarrow> px_sock (cx_paths (vs_ctx b) ! i) = None \<and> px_alive (cx_paths (vs_ctx b) ! i) = 0"
    and h: "\<And>k. wf_pbuf (fresh_buf N k)" "\<And>i. rng_ok (rs i)"
    and hop: "cf_mode c = MODE_CLIENT \<Longrightarrow> client_hop L key N clk1 b = Inr (s1, evs1)"
      "cf_mode c \<noteq> MODE_CLIENT \<Longrightarrow> steps (server_workers N (vs_ctx b)) b = Inr (s1, evs1)"
    and s1: "vpn_ok s1" "heartbeat L key clk2 rs s1 = Inr (s2, evs2)" "evs = evs1 @ evs2"
    and s2: "onward s2 s" "same_routes s2 s" "no_livelier s2 s" and s: "vpn_ok s"
    by (rule starts_parts [OF u st]) blast
  have mb: "cx_mode (vs_ctx b) = MODE_CLIENT"
    using b(4) mode by (simp add: configured_def)
  note k1 = client_hop_keeps [OF b(1) h(1) mb hop(1) [OF mode]]
  note k2 = heartbeat_effects [OF s1(1) h(2) s1(2)]
  note on = onward_trans [OF k2(1) s2(1)]
  have "routed (remote_of N) b"
    using b(5) by (simp add: routed_def)
  then have r1: "routed (remote_of N) s1"
    using k1(4) bound by blast
  then show "routed (remote_of N) s"
    by (rule routed_same [OF _ on same_routes_trans [OF k2(2) s2(2)]])
  show "configured c s"
    by (rule configured_onward [OF b(4) onward_trans [OF k1(1) on] b(1)])
  show "tun_packets evs = []"
    using k1(3) k2(5) s1(3) by simp
  show "vpn_ok s"
    by (rule s)
  show "up_ok net L key s l" if "nt_resolve net = remote_of N" "l \<in> set (letters [] evs)" for net l
  proof -
    have "cx_mode (vs_ctx s1) = MODE_CLIENT"
      using k1(1) mb by (simp add: onward_def)
    moreover have "l \<in> set (letters [] evs2)"
      using that(2) k1(2) s1(3) by simp
    ultimately have "up_ok net L key s1 l"
      using client_letters_ok [OF s1(1) _ _ k2(4)] r1 that(1) by simp
    then show ?thesis
      by (rule letters_ok_onward(1) [OF on s1(1)])
  qed
qed

lemma server_starts:
  assumes u: "usable tgt c" and mode: "cf_mode c = MODE_SERVER" and st: "starts L key c N s evs"
  shows "vpn_ok s" and "configured c s" and "\<And>i. i < 8 \<Longrightarrow> px_alive (cx_paths (vs_ctx s) ! i) \<le> 0"
    and "tun_packets evs = []" and "letters [] evs = []"
proof -
  obtain b s1 s2 evs1 evs2 clk1 clk2 rs where b: "vpn_ok b" "socks_ok b" "vs_workers b = []" "configured c b"
    "\<And>i. i < 8 \<Longrightarrow> px_sock (cx_paths (vs_ctx b) ! i) = None \<and> px_alive (cx_paths (vs_ctx b) ! i) = 0"
    and h: "\<And>k. wf_pbuf (fresh_buf N k)" "\<And>i. rng_ok (rs i)"
    and hop: "cf_mode c = MODE_CLIENT \<Longrightarrow> client_hop L key N clk1 b = Inr (s1, evs1)"
      "cf_mode c \<noteq> MODE_CLIENT \<Longrightarrow> steps (server_workers N (vs_ctx b)) b = Inr (s1, evs1)"
    and s1: "vpn_ok s1" "heartbeat L key clk2 rs s1 = Inr (s2, evs2)" "evs = evs1 @ evs2"
    and s2: "onward s2 s" "same_routes s2 s" "no_livelier s2 s" and s: "vpn_ok s"
    by (rule starts_parts [OF u st]) blast
  have m: "cf_mode c \<noteq> MODE_CLIENT" "cx_mode (vs_ctx b) \<noteq> MODE_CLIENT"
    using b(4) mode by (simp_all add: configured_def MODE_CLIENT_def MODE_SERVER_def)
  note k1 = server_workers_keeps [OF b(1-3) h(1) m(2) hop(2) [OF m(1)]]
  note k2 = heartbeat_effects [OF s1(1) h(2) s1(2)]
  have dead: "px_alive (cx_paths (vs_ctx t) ! i) \<le> 0" if "no_livelier b t" "i < 8" for t i
    using that b(5) by (fastforce simp: no_livelier_def)
  show "px_alive (cx_paths (vs_ctx s) ! i) \<le> 0" if "i < 8" for i
    by (rule dead [OF no_livelier_trans [OF k1(2) no_livelier_trans [OF k2(3) s2(3)]] that])
  show "configured c s"
    by (rule configured_onward [OF b(4) onward_trans [OF k1(1) onward_trans [OF k2(1) s2(1)]] b(1)])
  show "tun_packets evs = []"
    using k1(4) k2(5) s1(3) by simp
  show "vpn_ok s"
    by (rule s)
  have "letters [] evs2 = []"
  proof (rule ccontr)
    assume "letters [] evs2 \<noteq> []"
    then obtain i l where i: "i < nat (cx_path_count (vs_ctx s1))" "sent_on L key (vs_ctx s1) (cx_paths (vs_ctx s1) ! i) l"
      using k2(4) list.set_sel(1) unfolding sends_def by blast
    then have "i < 8" "cx_mode (vs_ctx s1) \<noteq> MODE_CLIENT"
      using s1(1) k1(1) m(2) by (auto simp: vpn_ok_def ctx_ok_def onward_def)
    then show False
      using i(2) dead [OF k1(2), of i] by (auto simp: sent_on_def)
  qed
  then show "letters [] evs = []"
    using k1(3) s1(3) by simp
qed

lemma world_init_ok:
  assumes u: "usable tgt cc" "usable tgt' sc" and m: "confs_match net cc sc" and w: "world_init net L key cc sc w"
  shows "world_ok net L key w"
proof -
  obtain N N' evs evs' where N: "remote_of N = nt_resolve net" "\<And>k. bound N k"
    and st: "starts L key cc N (wd_client w) evs" "starts L key sc N' (wd_server w) evs'"
    and f: "wd_up w = mset (letters [] evs)" "wd_down w = mset (letters [] evs')" "client_read w = {#}" "server_read w = {#}"
      "client_wrote w = mset (tun_packets evs)" "server_wrote w = mset (tun_packets evs')"
    using w unfolding world_init_def by blast
  have modes: "cf_mode cc = MODE_CLIENT" "cf_mode sc = MODE_SERVER" "cf_mtu cc = cf_mtu sc"
    using m by (simp_all add: confs_match_def)
  note c = client_starts [OF u(1) modes(1) st(1) N(2)] and s = server_starts [OF u(2) modes(2) st(2)]
  have conf: "configured cc (wd_client w)" "configured sc (wd_server w)"
    by (rule c(2), rule s(2))
  have "ports_match net (wd_client w) (wd_server w)"
    using m conf by (simp add: ports_match_def confs_match_def configured_def)
  moreover have "answers net (wd_client w) (wd_server w)"
    using s(3) by (fastforce simp: answers_def)
  ultimately have "peers_ok net (wd_client w) (wd_server w)"
    using c(1,3) s(1) conf modes N(1) by (simp add: peers_ok_def configured_def)
  moreover have "parcels (mset (letters [] evs)) = {#}"
  proof -
    have "set_mset (parcels (mset (letters [] evs))) = {}"
      by (auto simp: parcels_def dest: letters_packet)
    then show ?thesis by simp
  qed
  ultimately show ?thesis
    using c(4) c(5) [OF N(1) [symmetric]] s(4,5) f by (intro world_okI) (simp_all add: carried_def)
qed

interpretation joint: invariant_system "world_init net L key cc sc" "world_step tgt tgt' net L key"
  "\<lambda>w. lz4_ok L \<and> inj (nt_site net) \<and> usable tgt cc \<and> usable tgt' sc \<and> confs_match net cc sc \<longrightarrow> world_ok net L key w"
  for tgt tgt' net L key cc sc
  by unfold_locales (use world_init_ok world_step_ok in blast)+

lemma starts_exists:
  assumes "usable tgt c" and "\<And>k. wf_pbuf (fresh_buf N k)"
  obtains s evs where "starts L key c N s evs"
proof -
  obtain c0 now s evs where run: "init_ctx c = Inr c0" "run_start L key N (\<lambda>_. (0, 0)) (\<lambda>_ _. (0, 0)) (\<lambda>_. demo_rng) now
       (boot (c0\<lparr>cx_tun := 0\<rparr>) (packet_of []) (packet_of []) 0) = Inr (s, evs)"
    by (rule run_start_runs [OF assms])
  have "starts L key c N s evs"
    unfolding starts_def
    by (intro exI [of _ c0] exI [of _ 0] exI [of _ "\<lambda>_. (0, 0)"] exI [of _ "\<lambda>_ _. (0, 0)"] exI [of _ "\<lambda>_. demo_rng"]
        exI [of _ now] exI [of _ "packet_of []"] conjI) (use run assms(2) demo_rng_ok in \<open>simp_all add: packet_of_fields\<close>)
  then show ?thesis
    by (rule that)
qed

end
