(* ===== verification/Connect.thy ===== *)
theory Connect
  imports Network Timed Delivery
begin

text \<open>
  What a client and a server joined by a network can and cannot do: every packet that comes out
  was put in, and from every state the client can still get a packet through.
\<close>

section \<open>A hop renews the client\<close>

text \<open>Path \<open>i\<close> has a running worker whose socket and token it sends with.\<close>

definition manned :: "vpn \<Rightarrow> nat \<Rightarrow> bool" where
  "manned s i \<longleftrightarrow> (\<exists>w \<in> set (vs_workers s). px_sock (cx_paths (vs_ctx s) ! i) = Some (wk_sock w)
     \<and> wk_token w = px_token (cx_paths (vs_ctx s) ! i))"

lemma client_hop_tokens:
  assumes s: "vpn_ok s" and buf: "\<And>k. wf_pbuf (fresh_buf N k)" and mode: "cx_mode (vs_ctx s) = MODE_CLIENT"
    and run: "client_hop L key N clk s = Inr (s', evs)"
  shows "vs_tun_alive s' = vs_tun_alive s"
    and "i < nat (cx_path_count (vs_ctx s)) \<Longrightarrow>
      px_token (cx_paths (vs_ctx s') ! i) = token_of L key (px_range (cx_paths (vs_ctx s) ! i)) (step_of (clk i) 0)"
proof -
  let ?n = "nat (cx_path_count (vs_ctx s))"
  have prefix: "vpn_ok t \<and> onward s t \<and> vs_tun_alive t = vs_tun_alive s
      \<and> (\<forall>i < m. px_token (cx_paths (vs_ctx t) ! i) = token_of L key (px_range (cx_paths (vs_ctx s) ! i)) (step_of (clk i) 0))"
    if "m \<le> ?n" "steps (map (hop_path L key N clk) [0..<m]) s = Inr (t, es)" for m t es
    using that
  proof (induction m arbitrary: t es)
    case 0
    then show ?case
      using s by simp
  next
    case (Suc m)
    obtain t1 es1 es2 where t1: "steps (map (hop_path L key N clk) [0..<m]) s = Inr (t1, es1)"
      "hop_path L key N clk m t1 = Inr (t, es2)"
      using Suc.prems(2) by (auto simp: steps_snoc bind_res_eq_Inr)
    have IH: "vpn_ok t1" "onward s t1" "vs_tun_alive t1 = vs_tun_alive s"
      "\<forall>i < m. px_token (cx_paths (vs_ctx t1) ! i) = token_of L key (px_range (cx_paths (vs_ctx s) ! i)) (step_of (clk i) 0)"
      using Suc.IH [OF _ t1(1)] Suc.prems(1) by simp_all
    have m: "m < nat (cx_path_count (vs_ctx t1))" and mode1: "cx_mode (vs_ctx t1) = MODE_CLIENT"
      using IH(2) Suc.prems(1) mode by (simp_all add: onward_def)
    have c: "ctx_ok (vs_ctx t1)"
      using IH(1) by (simp add: vpn_ok_def)
    have m8: "m < 8" "m < length (cx_paths (vs_ctx t1))"
      using index_bound [OF c m] c by (simp_all add: ctx_ok_def)
    have rg: "px_range (cx_paths (vs_ctx t1) ! m) = px_range (cx_paths (vs_ctx s) ! m)" "token_ranged (px_range (cx_paths (vs_ctx t1) ! m))"
      using IH(2) m8 path_ok_nth [OF c m8(1)] by (simp_all add: onward_def path_ok_def)
    have ws: "worker_start N m (token_of L key (px_range (cx_paths (vs_ctx s) ! m)) (step_of (clk m) 0)) (5 * 1000) t1 = Inr (t, es2)"
      using t1(2) by (simp add: hop_path_def totp_step [OF rg(2) [unfolded rg(1)]] rg(1))
    have new: "px_token (cx_paths (vs_ctx t) ! m) = token_of L key (px_range (cx_paths (vs_ctx s) ! m)) (step_of (clk m) 0)"
      by (rule worker_start_token [OF ws mode1 m8(2)])
    have same: "vs_tun_alive t = vs_tun_alive t1" "i \<noteq> m \<Longrightarrow> cx_paths (vs_ctx t) ! i = cx_paths (vs_ctx t1) ! i" for i
      using ws m8(2) by (auto simp: worker_start_def Let_def update_path_nth split: if_splits)
    have "px_token (cx_paths (vs_ctx t) ! i) = token_of L key (px_range (cx_paths (vs_ctx s) ! i)) (step_of (clk i) 0)"
      if "i < Suc m" for i
      using that new same(2) [of i] IH(4) by (cases "i = m") auto
    then show ?case
      using hop_path_ok(1) [OF IH(1) m buf t1(2)] onward_trans [OF IH(2) worker_start_keeps(1) [OF IH(1) m ws]] IH(3) same(1)
      by simp
  qed
  show "vs_tun_alive s' = vs_tun_alive s"
    and "i < ?n \<Longrightarrow> px_token (cx_paths (vs_ctx s') ! i) = token_of L key (px_range (cx_paths (vs_ctx s) ! i)) (step_of (clk i) 0)"
    using prefix [OF order.refl run [unfolded client_hop_def]] by blast+
qed

lemma socks_ok_routed:
  assumes s: "vpn_ok s" and r: "routed resolve s" and m: "\<And>i. i < nat (cx_path_count (vs_ctx s)) \<Longrightarrow> manned s i"
  shows "socks_ok s"
  unfolding socks_ok_def
proof (intro ballI allI impI)
  fix p k assume "p \<in> set (cx_paths (vs_ctx s))" and k: "px_sock p = Some k"
  then obtain i where i: "i < 8" "p = cx_paths (vs_ctx s) ! i"
    using s by (auto simp: in_set_conv_nth vpn_ok_def ctx_ok_def)
  then have "i < nat (cx_path_count (vs_ctx s))"
    using r k by (auto simp: routed_def)
  then show "k \<in> set (vs_open s)"
    using m [of i] i(2) k s by (auto simp: manned_def vpn_ok_def worker_ok_def)
qed

lemma client_hop_renews:
  assumes s: "vpn_ok s" and mode: "cx_mode (vs_ctx s) = MODE_CLIENT" and r: "routed (remote_of N) s"
    and N: "\<And>k. wf_pbuf (fresh_buf N k)" "\<And>k. bound N k" "\<And>k. now_of N k = u"
  obtains s' evs where "client_hop L key N clk s = Inr (s', evs)" "vpn_ok s'" "socks_ok s'" "onward s s'"
    "routed (remote_of N) s'" "vs_tun_alive s' = vs_tun_alive s" "\<And>ds. letters ds evs = []"
    "\<And>i. i < nat (cx_path_count (vs_ctx s)) \<Longrightarrow> manned s' i
       \<and> px_token (cx_paths (vs_ctx s') ! i) = token_of L key (px_range (cx_paths (vs_ctx s) ! i)) (step_of (clk i) 0)"
proof -
  obtain s' evs where run: "client_hop L key N clk s = Inr (s', evs)"
    using client_hop_runs [OF s N(1)] by blast
  note k = client_hop_keeps [OF s N(1) mode run]
  have r': "routed (remote_of N) s'"
    by (rule k(4) [OF N(2) r])
  have ok: "vpn_ok s'"
    by (rule client_hop_ok(1) [OF s N(1) run])
  have c8: "i < nat (cx_path_count (vs_ctx s)) \<Longrightarrow> i < 8" for i
    using s by (auto simp: vpn_ok_def ctx_ok_def)
  have manned: "manned s' i" if i: "i < nat (cx_path_count (vs_ctx s))" for i
  proof -
    have "held (u + 5000) i s'"
      using client_hop_held(2) [OF s N(1) run N(3)] N(2) i by blast
    then obtain w where w: "w \<in> set (vs_workers s')" "px_sock (cx_paths (vs_ctx s') ! i) = Some (wk_sock w)"
      by (auto simp: held_def)
    then have "sock_token s' (wk_sock w) (px_token (cx_paths (vs_ctx s') ! i))"
      using r' c8 [OF i] by (simp add: routed_def)
    then show ?thesis
      using w by (auto simp: manned_def sock_token_def)
  qed
  have "cx_path_count (vs_ctx s') = cx_path_count (vs_ctx s)"
    using k(1) by (simp add: onward_def)
  then have "socks_ok s'"
    using socks_ok_routed [OF ok r'] manned by simp
  then show ?thesis
    using that [OF run ok _ k(1) r'] client_hop_tokens [OF s N(1) mode run] k(2) manned by simp
qed

section \<open>The two processes of a run\<close>

lemma world_step_parts:
  assumes "world_step tgt tgt' net L key w w'"
  shows "wd_client w' = wd_client w
      \<or> (\<exists>i evs. input_ok (wd_client w) i \<and> vpn_step tgt L key i (wd_client w) = Some (Inr (wd_client w', evs)))"
    and "wd_server w' = wd_server w
      \<or> (\<exists>i evs. input_ok (wd_server w) i \<and> vpn_step tgt' L key i (wd_server w) = Some (Inr (wd_server w', evs)))"
  using assms by (cases; force simp: input_ok_def)+

lemma vpn_step_onward:
  assumes lz4: "lz4_ok L" and s: "vpn_ok s" and i: "input_ok s i" and run: "vpn_step tgt L key i s = Some (Inr (s', evs))"
  shows "onward s s'"
proof (cases i)
  case (Net j rv)
  then have "j < length (vs_workers s)" "worker_step L key j rv s = Inr (s', evs)"
    using i run by (simp_all add: input_ok_def vpn_step_def)
  then show ?thesis
    by (rule worker_step_keeps(1) [OF s _ lz4])
next
  case (Hop clk N)
  then have "\<And>k. wf_pbuf (fresh_buf N k)" "cx_mode (vs_ctx s) = MODE_CLIENT" "client_hop L key N clk s = Inr (s', evs)"
    using i run by (simp_all add: input_ok_def vpn_step_def)
  then show ?thesis
    by (rule client_hop_keeps(1) [OF s])
qed (use own_step(1) [OF lz4 s i _ run] in \<open>simp_all add: own_input_def\<close>)

lemma world_parts:
  assumes lz4: "lz4_ok L" and u: "usable tgt cc" "usable tgt' sc" and m: "confs_match net cc sc"
    and w: "reach (world_init net L key cc sc) (world_step tgt tgt' net L key) w"
  shows "configured cc (wd_client w)" and "configured sc (wd_server w)" and "server_state (wd_server w)"
proof -
  have "vpn_ok (wd_client w) \<and> configured cc (wd_client w) \<and> configured sc (wd_server w) \<and> server_state (wd_server w)"
    using w
  proof (induction rule: reach.induct)
    case (start w)
    then obtain N N' evs evs' where N: "\<And>k. bound N k"
      and st: "starts L key cc N (wd_client w) evs" "starts L key sc N' (wd_server w) evs'"
      unfolding world_init_def by blast
    have modes: "cf_mode cc = MODE_CLIENT" "cf_mode sc = MODE_SERVER"
      using m by (simp_all add: confs_match_def)
    have "initial L key sc (wd_server w)"
      using st(2) unfolding starts_def initial_def by blast
    then show ?case
      using client_starts(1,2) [OF u(1) modes(1) st(1) N] server_starts(2) [OF u(2) modes(2) st(2)]
        initial_ok(3) [OF u(2) _ modes(2)] by blast
  next
    case (move w w')
    then have c: "vpn_ok (wd_client w)" "configured cc (wd_client w)" and s: "configured sc (wd_server w)" "server_state (wd_server w)"
      and ok: "vpn_ok (wd_server w)"
      by (simp_all add: server_state_def)
    note parts = world_step_parts [OF move.hyps(2)]
    have "vpn_ok (wd_client w') \<and> configured cc (wd_client w')"
      using parts(1) c vpn_step_ok(1) [OF lz4 c(1)] configured_onward [OF c(2) vpn_step_onward [OF lz4 c(1)] c(1)] by auto
    moreover have "configured sc (wd_server w') \<and> server_state (wd_server w')"
      using parts(2) s server_step_ok [OF lz4 s(2)] configured_onward [OF s(1) vpn_step_onward [OF lz4 ok] ok] by auto
    ultimately show ?case
      by blast
  qed
  then show "configured cc (wd_client w)" and "configured sc (wd_server w)" and "server_state (wd_server w)"
    by blast+
qed

section \<open>A server on all its ports\<close>

definition staffed :: "vpn \<Rightarrow> bool" where
  "staffed s \<longleftrightarrow> (\<forall>i < nat (cx_path_count (vs_ctx s)). \<forall>t. 0 \<le> t \<and> t \<le> px_range (cx_paths (vs_ctx s) ! i) \<longrightarrow>
     (\<exists>w \<in> set (vs_workers s). wk_path w = i \<and> wk_token w = t))"

lemma staffed_same:
  assumes "staffed s" and "onward s s'" and "vpn_ok s"
    and "\<forall>w \<in> set (vs_workers s). \<exists>w' \<in> set (vs_workers s'). wk_path w' = wk_path w \<and> wk_token w' = wk_token w"
  shows "staffed s'"
  unfolding staffed_def
proof (intro allI impI)
  fix i t assume i: "i < nat (cx_path_count (vs_ctx s'))" and t: "0 \<le> t \<and> t \<le> px_range (cx_paths (vs_ctx s') ! i)"
  have "i < nat (cx_path_count (vs_ctx s))" "px_range (cx_paths (vs_ctx s') ! i) = px_range (cx_paths (vs_ctx s) ! i)"
    using i assms(2,3) by (auto simp: onward_def vpn_ok_def ctx_ok_def)
  then obtain w where "w \<in> set (vs_workers s)" "wk_path w = i" "wk_token w = t"
    using assms(1) t unfolding staffed_def by metis
  then show "\<exists>w \<in> set (vs_workers s'). wk_path w = i \<and> wk_token w = t"
    using assms(4) by metis
qed

lemma staffed_updated:
  assumes "staffed s" and "onward s s'" and "vpn_ok s" and "j < length (vs_workers s)"
    and "vs_workers s' = (vs_workers s)[j := w']" "wk_path w' = wk_path (vs_workers s ! j)" "wk_token w' = wk_token (vs_workers s ! j)"
  shows "staffed s'"
proof (rule staffed_same [OF assms(1-3)], rule ballI)
  fix w assume "w \<in> set (vs_workers s)"
  then obtain m where m: "m < length (vs_workers s)" "w = vs_workers s ! m"
    by (auto simp: in_set_conv_nth)
  have "vs_workers s' ! m \<in> set (vs_workers s')"
    using m(1) assms(5) by simp
  then show "\<exists>w' \<in> set (vs_workers s'). wk_path w' = wk_path w \<and> wk_token w' = wk_token w"
    using m assms(5-7) by (intro bexI [of _ "vs_workers s' ! m"]) (cases "m = j", simp_all)
qed

section \<open>Segments that succeed\<close>

lemma letter_of_send:
  "UdpSend k a dg \<in> set evs \<Longrightarrow> \<lparr>lt_from = k, lt_to = a, lt_body = dg, lt_packet = ds\<rparr> \<in> set (letters ds evs)"
  by (induction ds evs rule: letters.induct) auto

text \<open>A genuine datagram is accepted under a valid token.\<close>

lemma genuine_accepted:
  assumes lz4: "lz4_ok L" and s: "vpn_ok s" "socks_ok s" and j: "j < length (vs_workers s)"
    and g: "genuine L key (cx_mtu (vs_ctx s)) (wk_token (vs_workers s ! j)) dg ds"
    and tok: "cx_mode (vs_ctx s) = MODE_CLIENT
      \<or> wk_token (vs_workers s ! j) \<in> set (px_valid (cx_paths (vs_ctx s) ! wk_path (vs_workers s ! j)))"
  obtains s' w' where "worker_step L key j (Datagram peer dg 0) s = Inr (s', if ds = [] then [] else [TunWrite ds])"
    "vpn_ok s'" "socks_ok s'" "onward s s'" "heard (vs_workers s ! j) peer (vs_ctx s) (vs_ctx s')"
    "vs_tun_alive s' = vs_tun_alive s" "vs_workers s' = (vs_workers s)[j := w']" "wk_path w' = wk_path (vs_workers s ! j)"
    "wk_token w' = wk_token (vs_workers s ! j)" "wk_sock w' = wk_sock (vs_workers s ! j)"
    "cx_mode (vs_ctx s) = MODE_CLIENT \<Longrightarrow> same_routes s s'"
proof -
  let ?w = "vs_workers s ! j"
  obtain r p n e where p: "rng_ok r" "fits p (cx_mtu (vs_ctx s))" "flag p = 0" "uint (len p) \<le> cx_mtu (vs_ctx s)"
    "encapsulate L key r (wk_token ?w) p (cx_mtu (vs_ctx s)) = Inr (n, e)"
    "dg = take (nat n) (pbuf_bytes e)" "contents p = ds"
    using g unfolding genuine_def by blast
  obtain s' w' where st: "worker_step L key j (Datagram peer (take (nat n) (pbuf_bytes e)) 0) s = Inr (s',
      if len p = 0 then [] else TunWrite (contents p) # (if (0 :: int) < 0 then [Logged ''tun_write''] else []))"
    "heard ?w peer (vs_ctx s) (vs_ctx s')" "vpn_ok s'" "vs_workers s' = (vs_workers s)[j := w']" "vs_open s' = vs_open s"
    "wk_path w' = wk_path ?w" "wk_token w' = wk_token ?w" "wk_sock w' = wk_sock ?w"
    "evolves (wk_sock ?w) (vs_ctx s) (vs_ctx s')"
    by (rule worker_step_delivers [where peer=peer and tw=0, OF lz4 p(1-5) s(1) order.refl j tok])
  have "length ds = unat (len p)"
    using p(2,7) by (auto simp: fits_def wf_pbuf_def contents_def)
  then have "ds = [] \<longleftrightarrow> len p = 0"
    by (metis length_0_conv unat_eq_0)
  then have run: "worker_step L key j (Datagram peer dg 0) s = Inr (s', if ds = [] then [] else [TunWrite ds])"
    using st(1) p(6,7) by auto
  note k = worker_step_keeps [OF s(1) j lz4 run]
  have "ctx_ok (vs_ctx s)" "wk_sock ?w \<in> set (vs_open s')"
    using s(1) j st(5) by (auto simp: vpn_ok_def worker_ok_def)
  then have "socks_ok s'"
    using socks_ok_evolves [OF st(9) _ s(2) _ st(5)] by blast
  moreover have "vs_tun_alive s' = vs_tun_alive s"
    using run by (auto simp: worker_step_def Let_def bind_res_eq_Inr split: option.splits)
  moreover have "cx_mode (vs_ctx s) = MODE_CLIENT \<Longrightarrow> same_routes s s'"
    using k(2) by (simp add: round_keeps_def same_routes_def)
  ultimately show ?thesis
    using that [OF run st(3) _ k(1) st(2)] st(4,6-8) by blast
qed

lemma heartbeat_succeeds:
  assumes s: "vpn_ok s" "socks_ok s"
  obtains s' evs where "heartbeat L key (\<lambda>_ _. tv) (\<lambda>_. demo_rng) s = Inr (s', evs)" "vpn_ok s'" "socks_ok s'"
    "onward s s'" "same_routes s s'" "vs_workers s' = vs_workers s" "vs_tun_alive s' = vs_tun_alive s"
    "\<And>i. i < nat (cx_path_count (vs_ctx s)) \<Longrightarrow> beats (vs_ctx s) (cx_paths (vs_ctx s) ! i) \<Longrightarrow>
       \<exists>l \<in> set (letters [] evs). sent_on L key (vs_ctx s) (cx_paths (vs_ctx s) ! i) l"
    "\<And>i. i < nat (cx_path_count (vs_ctx s)) \<Longrightarrow>
       token_of L key (px_range (cx_paths (vs_ctx s) ! i)) (step_of tv 0) \<in> set (px_valid (cx_paths (vs_ctx s') ! i))"
proof -
  let ?clk = "\<lambda>(_ :: nat) (_ :: nat). tv" and ?rs = "\<lambda>_ :: nat. demo_rng"
  have r: "\<And>i. rng_ok (?rs i)"
    by (rule demo_rng_ok)
  obtain sn b evs s' where run: "heartbeat L key ?clk ?rs s = Inr (s', evs)" "vpn_ok s'" "socks_ok s'"
    "s' = round_state s (beaten_paths L key ?clk (nat (cx_path_count (vs_ctx s))) (cx_paths (vs_ctx s))) sn b"
    by (rule heartbeat_ok [where rs="?rs" and L=L and key=key and clk="?clk", OF s r])
  note k = heartbeat_effects [OF s(1) r run(1)]
  have "\<exists>l \<in> set (letters [] evs). sent_on L key (vs_ctx s) (cx_paths (vs_ctx s) ! i) l"
    if i: "i < nat (cx_path_count (vs_ctx s))" "beats (vs_ctx s) (cx_paths (vs_ctx s) ! i)" for i
  proof -
    let ?p = "cx_paths (vs_ctx s) ! i"
    obtain s2 evs2 b n e where h: "heartbeat L key ?clk ?rs s = Inr (s2, evs2)"
      "UdpSend (the (px_sock ?p)) (px_remote ?p) (take (nat n) (pbuf_bytes e)) \<in> set evs2"
      "fits b (cx_mtu (vs_ctx s))" "flag b = 0" "len b = 0"
      "encapsulate L key demo_rng (px_token ?p) b (cx_mtu (vs_ctx s)) = Inr (n, e)"
      by (rule heartbeat_sends [where L=L and key=key and clk="?clk", OF s r i])
    have "0 \<le> cx_mtu (vs_ctx s)"
      using s(1) by (simp add: vpn_ok_def ctx_ok_def)
    then have "genuine L key (cx_mtu (vs_ctx s)) (px_token ?p) (take (nat n) (pbuf_bytes e)) []"
      unfolding genuine_def using h(3-6) demo_rng_ok by (intro exI [of _ demo_rng] exI [of _ b] exI [of _ n] exI [of _ e]) (simp add: contents_def)
    moreover have "px_sock ?p \<noteq> None" "cx_mode (vs_ctx s) = MODE_CLIENT \<or> 0 < px_alive ?p"
      using i(2) by (auto simp: beats_def)
    ultimately show ?thesis
      using letter_of_send [OF h(2), of "[]"] h(1) run(1) by (intro bexI) (auto simp: sent_on_def)
  qed
  moreover have "token_of L key (px_range (cx_paths (vs_ctx s) ! i)) (step_of tv 0) \<in> set (px_valid (cx_paths (vs_ctx s') ! i))"
    if i: "i < nat (cx_path_count (vs_ctx s))" for i
  proof -
    obtain s2 evs2 where "heartbeat L key ?clk ?rs s = Inr (s2, evs2)"
      "token_of L key (px_range (cx_paths (vs_ctx s) ! i)) (step_of tv 0 + word_of_int 0) \<in> set (px_valid (cx_paths (vs_ctx s2) ! i))"
      by (rule token_window [where x=0 and L=L and key=key and clk="?clk" and rs="?rs" and T="step_of tv 0", OF s r i]) simp_all
    then show ?thesis
      using run(1) by simp
  qed
  ultimately show ?thesis
    using that [OF run(1-3) k(1,2)] run(4) by (simp add: round_state_def)
qed

section \<open>From the client to the server\<close>

text \<open>The client hopped in half second \<open>T\<close> and all its sockets are in place.\<close>

definition client_ready :: "net \<Rightarrow> lib \<Rightarrow> byte list \<Rightarrow> u64 \<Rightarrow> vpn \<Rightarrow> bool" where
  "client_ready net L key T c \<longleftrightarrow> vpn_ok c \<and> socks_ok c \<and> cx_mode (vs_ctx c) = MODE_CLIENT \<and> vs_tun_alive c \<and> routed (nt_resolve net) c
     \<and> (\<forall>i < nat (cx_path_count (vs_ctx c)). manned c i
          \<and> px_token (cx_paths (vs_ctx c) ! i) = token_of L key (px_range (cx_paths (vs_ctx c) ! i)) T)"

text \<open>The server listens on all ports and accepts the tokens of half second \<open>T\<close>.\<close>

definition server_open :: "lib \<Rightarrow> byte list \<Rightarrow> u64 \<Rightarrow> vpn \<Rightarrow> bool" where
  "server_open L key T s \<longleftrightarrow> vpn_ok s \<and> socks_ok s \<and> cx_mode (vs_ctx s) = MODE_SERVER \<and> staffed s
     \<and> (\<forall>i < nat (cx_path_count (vs_ctx s)).
          token_of L key (px_range (cx_paths (vs_ctx s) ! i)) T \<in> set (px_valid (cx_paths (vs_ctx s) ! i)))"

text \<open>Path \<open>i\<close> of the client leads to path \<open>i\<close> of the server.\<close>

definition aligned_paths :: "net \<Rightarrow> vpn \<Rightarrow> vpn \<Rightarrow> bool" where
  "aligned_paths net c s \<longleftrightarrow> cx_path_count (vs_ctx s) = cx_path_count (vs_ctx c) \<and> cx_mtu (vs_ctx s) = cx_mtu (vs_ctx c)
     \<and> (\<forall>i < nat (cx_path_count (vs_ctx c)). px_range (cx_paths (vs_ctx s) ! i) = px_range (cx_paths (vs_ctx c) ! i)
          \<and> (\<forall>t. nt_resolve net (cstr (px_server (cx_paths (vs_ctx c) ! i))) (px_start (cx_paths (vs_ctx c) ! i) + t)
               = nt_port net i (px_start (cx_paths (vs_ctx s) ! i) + t)))"

lemma aligned_onward:
  assumes "aligned_paths net c s" and "onward c c'" "onward s s'" and "vpn_ok c"
  shows "aligned_paths net c' s'"
proof -
  have "i < nat (cx_path_count (vs_ctx c)) \<Longrightarrow> i < 8" for i
    using assms(4) by (auto simp: vpn_ok_def ctx_ok_def)
  then show ?thesis
    using assms(1-3) by (simp add: aligned_paths_def onward_def)
qed

lemma up_delivered:
  assumes lz4: "lz4_ok L" and c: "client_ready net L key T c" and s: "server_open L key T s" and al: "aligned_paths net c s"
    and i: "i < nat (cx_path_count (vs_ctx c))" and l: "sent_on L key (vs_ctx c) (cx_paths (vs_ctx c) ! i) l"
  obtains j s' where "j < length (vs_workers s)" "lt_to l = worker_port net s (vs_workers s ! j)"
    "worker_step L key j (Datagram (nt_site net (lt_from l)) (lt_body l) 0) s
       = Inr (s', if lt_packet l = [] then [] else [TunWrite (lt_packet l)])"
    "server_open L key T s'" "onward s s'" "0 < px_alive (cx_paths (vs_ctx s') ! i)"
    "px_remote (cx_paths (vs_ctx s') ! i) = nt_site net (lt_from l)"
    "px_sock (cx_paths (vs_ctx s') ! i) \<noteq> None" "px_token (cx_paths (vs_ctx s') ! i) = px_token (cx_paths (vs_ctx c) ! i)"
proof -
  let ?p = "cx_paths (vs_ctx c) ! i" and ?q = "cx_paths (vs_ctx s) ! i"
  let ?tok = "token_of L key (px_range ?p) T"
  have okc: "vpn_ok c" "ctx_ok (vs_ctx c)" and oks: "vpn_ok s" "socks_ok s" and mode: "cx_mode (vs_ctx s) = MODE_SERVER" and st: "staffed s"
    using c s by (simp_all add: client_ready_def server_open_def vpn_ok_def)
  have i8: "i < 8"
    by (rule index_bound [OF okc(2) i])
  have tok: "px_token ?p = ?tok" and same: "px_range ?q = px_range ?p" "cx_mtu (vs_ctx s) = cx_mtu (vs_ctx c)"
    and n: "i < nat (cx_path_count (vs_ctx s))"
    using c al i by (simp_all add: client_ready_def aligned_paths_def)
  have "token_ranged (px_range ?p)"
    using path_ok_nth [OF okc(2) i8] by (simp add: path_ok_def)
  then obtain w where "w \<in> set (vs_workers s)" "wk_path w = i" "wk_token w = ?tok"
    using st n token_of_bounds [of "px_range ?p" L key T] same(1) unfolding staffed_def by metis
  then obtain j where j: "j < length (vs_workers s)" "wk_path (vs_workers s ! j) = i" "wk_token (vs_workers s ! j) = ?tok"
    by (auto simp: in_set_conv_nth)
  have "px_sock ?p = Some (lt_from l)" "lt_to l = px_remote ?p"
    and g: "genuine L key (cx_mtu (vs_ctx s)) (wk_token (vs_workers s ! j)) (lt_body l) (lt_packet l)"
    using l tok j(3) same(2) by (simp_all add: sent_on_def)
  moreover have "routed (nt_resolve net) c"
    using c by (simp add: client_ready_def)
  ultimately have "lt_to l = nt_resolve net (cstr (px_server ?p)) (px_start ?p + ?tok)"
    using i8 tok by (simp add: routed_def)
  then have to: "lt_to l = worker_port net s (vs_workers s ! j)"
    using al i j by (simp add: aligned_paths_def worker_port_def)
  have "token_of L key (px_range ?q) T \<in> set (px_valid ?q)"
    using s n by (simp add: server_open_def)
  then have "wk_token (vs_workers s ! j) \<in> set (px_valid (cx_paths (vs_ctx s) ! wk_path (vs_workers s ! j)))"
    using j same(1) by simp
  then obtain s' w' where a: "worker_step L key j (Datagram (nt_site net (lt_from l)) (lt_body l) 0) s
       = Inr (s', if lt_packet l = [] then [] else [TunWrite (lt_packet l)])"
    "vpn_ok s'" "socks_ok s'" "onward s s'" "heard (vs_workers s ! j) (nt_site net (lt_from l)) (vs_ctx s) (vs_ctx s')"
    "vs_workers s' = (vs_workers s)[j := w']" "wk_path w' = wk_path (vs_workers s ! j)" "wk_token w' = wk_token (vs_workers s ! j)"
    using genuine_accepted [where peer="nt_site net (lt_from l)", OF lz4 oks j(1) g] by metis
  have "px_valid (cx_paths (vs_ctx s') ! m) = px_valid (cx_paths (vs_ctx s) ! m)" for m
    using a(5) j(2) by (cases "m = i") (simp_all add: heard_def)
  moreover have "px_range (cx_paths (vs_ctx s') ! m) = px_range (cx_paths (vs_ctx s) ! m)" if "m < nat (cx_path_count (vs_ctx s))" for m
    using a(4) that oks(1) by (auto simp: onward_def vpn_ok_def ctx_ok_def)
  moreover have "cx_path_count (vs_ctx s') = cx_path_count (vs_ctx s)" "cx_mode (vs_ctx s') = cx_mode (vs_ctx s)"
    using a(4) by (simp_all add: onward_def)
  ultimately have "server_open L key T s'"
    using s a(2,3) staffed_updated [OF st a(4) oks(1) j(1) a(6-8)] by (simp add: server_open_def)
  then show ?thesis
    by (rule that [OF j(1) to a(1) _ a(4)]) (use a(5) j(2,3) mode tok in \<open>simp_all add: heard_def\<close>)
qed

lemma client_ready_same:
  assumes "client_ready net L key T c" and "vpn_ok c'" "socks_ok c'" and on: "onward c c'" and same: "same_routes c c'"
    and "vs_tun_alive c' = vs_tun_alive c"
    and ws: "\<forall>w \<in> set (vs_workers c). \<exists>w' \<in> set (vs_workers c'). wk_sock w' = wk_sock w \<and> wk_token w' = wk_token w"
  shows "client_ready net L key T c'"
proof -
  have c: "vpn_ok c" "routed (nt_resolve net) c"
    using assms(1) by (simp_all add: client_ready_def)
  have "manned c' i \<and> px_token (cx_paths (vs_ctx c') ! i) = token_of L key (px_range (cx_paths (vs_ctx c') ! i)) T"
    if i: "i < nat (cx_path_count (vs_ctx c))" for i
  proof -
    have "i < 8"
      using i c(1) by (auto simp: vpn_ok_def ctx_ok_def)
    then have p: "px_sock (cx_paths (vs_ctx c') ! i) = px_sock (cx_paths (vs_ctx c) ! i)"
      "px_token (cx_paths (vs_ctx c') ! i) = px_token (cx_paths (vs_ctx c) ! i)"
      "px_range (cx_paths (vs_ctx c') ! i) = px_range (cx_paths (vs_ctx c) ! i)"
      using on same by (simp_all add: onward_def same_routes_def)
    have "manned c i" "px_token (cx_paths (vs_ctx c) ! i) = token_of L key (px_range (cx_paths (vs_ctx c) ! i)) T"
      using assms(1) i by (simp_all add: client_ready_def)
    then show ?thesis
      using ws unfolding manned_def p by metis
  qed
  then show ?thesis
    using assms(1-3,6) routed_same [OF c(2) on same] on by (simp add: client_ready_def onward_def)
qed

lemma workers_updated:
  assumes "ws' = ws[j := w']" and "wk_sock w' = wk_sock (ws ! j)" "wk_token w' = wk_token (ws ! j)"
  shows "\<forall>w \<in> set ws. \<exists>w' \<in> set ws'. wk_sock w' = wk_sock w \<and> wk_token w' = wk_token w"
proof
  fix w assume "w \<in> set ws"
  then obtain m where m: "m < length ws" "w = ws ! m"
    by (auto simp: in_set_conv_nth)
  have "ws' ! m \<in> set ws'"
    using m(1) assms(1) by simp
  moreover have "wk_sock (ws' ! m) = wk_sock w \<and> wk_token (ws' ! m) = wk_token w"
    using m assms by (cases "m = j") simp_all
  ultimately show "\<exists>w' \<in> set ws'. wk_sock w' = wk_sock w \<and> wk_token w' = wk_token w"
    by blast
qed

text \<open>The answer of the server to the socket of path \<open>i\<close> makes that path alive.\<close>

lemma down_delivered:
  assumes lz4: "lz4_ok L" and c: "client_ready net L key T c" and i: "i < nat (cx_path_count (vs_ctx c))"
    and k: "px_sock (cx_paths (vs_ctx c) ! i) = Some k"
    and g: "genuine L key (cx_mtu (vs_ctx c)) (px_token (cx_paths (vs_ctx c) ! i)) dg []"
  obtains j c' where "j < length (vs_workers c)" "wk_sock (vs_workers c ! j) = k"
    "worker_step L key j (Datagram peer dg 0) c = Inr (c', [])" "client_ready net L key T c'" "onward c c'"
    "\<exists>q < nat (cx_path_count (vs_ctx c')). alive_in (vs_ctx c') q"
proof -
  have ok: "vpn_ok c" "socks_ok c" and mode: "cx_mode (vs_ctx c) = MODE_CLIENT" and "manned c i"
    using c i by (simp_all add: client_ready_def)
  then obtain w where "w \<in> set (vs_workers c)" "wk_sock w = k" "wk_token w = px_token (cx_paths (vs_ctx c) ! i)"
    using k by (auto simp: manned_def)
  then obtain j where j: "j < length (vs_workers c)" "wk_sock (vs_workers c ! j) = k"
    "wk_token (vs_workers c ! j) = px_token (cx_paths (vs_ctx c) ! i)"
    by (auto simp: in_set_conv_nth)
  have g': "genuine L key (cx_mtu (vs_ctx c)) (wk_token (vs_workers c ! j)) dg []"
    using g j(3) by simp
  obtain c' w' where a: "worker_step L key j (Datagram peer dg 0) c = Inr (c', if [] = ([] :: byte list) then [] else [TunWrite []])"
    "vpn_ok c'" "socks_ok c'" "onward c c'" "heard (vs_workers c ! j) peer (vs_ctx c) (vs_ctx c')"
    "vs_tun_alive c' = vs_tun_alive c" "vs_workers c' = (vs_workers c)[j := w']" "wk_path w' = wk_path (vs_workers c ! j)"
    "wk_token w' = wk_token (vs_workers c ! j)" "wk_sock w' = wk_sock (vs_workers c ! j)" "same_routes c c'"
    using genuine_accepted [where peer=peer, OF lz4 ok j(1) g' disjI1 [OF mode]] mode by metis
  have "wk_path (vs_workers c ! j) < nat (cx_path_count (vs_ctx c'))"
    using worker_nth_ok [OF ok(1) j(1)] a(4) by (simp add: worker_ok_def onward_def zless_nat_eq_int_zless)
  moreover have "alive_in (vs_ctx c') (wk_path (vs_workers c ! j))"
    using a(5) by (simp add: heard_def alive_in_def)
  ultimately show ?thesis
    using that [OF j(1,2) _ client_ready_same [OF c a(2-4,11,6) workers_updated [OF a(7,10,9)]] a(4)] a(1) by auto
qed

section \<open>A run that delivers\<close>

text \<open>Both sides as they are needed, and the packets the server has written so far.\<close>

definition joined :: "net \<Rightarrow> lib \<Rightarrow> byte list \<Rightarrow> u64 \<Rightarrow> world \<Rightarrow> bool" where
  "joined net L key T w \<longleftrightarrow> client_ready net L key T (wd_client w) \<and> server_open L key T (wd_server w)
     \<and> aligned_paths net (wd_client w) (wd_server w)"

lemma server_beats:
  assumes ok: "vpn_ok s" "socks_ok s" and mode: "cx_mode (vs_ctx s) = MODE_SERVER" and st: "staffed s" and T: "T = step_of tv 0"
  obtains s' evs where "vpn_step tgt L key (Beat (\<lambda>_ _. tv) (\<lambda>_. demo_rng)) s = Some (Inr (s', evs))" "server_open L key T s'"
    "onward s s'" "same_routes s s'"
    "\<And>i. i < nat (cx_path_count (vs_ctx s)) \<Longrightarrow> beats (vs_ctx s) (cx_paths (vs_ctx s) ! i) \<Longrightarrow>
       \<exists>l \<in> set (letters [] evs). sent_on L key (vs_ctx s) (cx_paths (vs_ctx s) ! i) l"
proof -
  obtain s' evs where h: "heartbeat L key (\<lambda>_ _. tv) (\<lambda>_. demo_rng) s = Inr (s', evs)" "vpn_ok s'" "socks_ok s'"
    "onward s s'" "same_routes s s'" "vs_workers s' = vs_workers s"
    "\<And>i. i < nat (cx_path_count (vs_ctx s)) \<Longrightarrow> beats (vs_ctx s) (cx_paths (vs_ctx s) ! i) \<Longrightarrow>
       \<exists>l \<in> set (letters [] evs). sent_on L key (vs_ctx s) (cx_paths (vs_ctx s) ! i) l"
    "\<And>i. i < nat (cx_path_count (vs_ctx s)) \<Longrightarrow>
       token_of L key (px_range (cx_paths (vs_ctx s) ! i)) (step_of tv 0) \<in> set (px_valid (cx_paths (vs_ctx s') ! i))"
    by (rule heartbeat_succeeds [where L=L and key=key and tv=tv, OF ok]) blast
  have "px_range (cx_paths (vs_ctx s') ! i) = px_range (cx_paths (vs_ctx s) ! i)" if "i < nat (cx_path_count (vs_ctx s))" for i
    using h(4) that ok(1) by (auto simp: onward_def vpn_ok_def ctx_ok_def)
  moreover have "staffed s'"
    by (intro staffed_same [OF st h(4) ok(1)]) (auto simp: h(6))
  moreover have "cx_path_count (vs_ctx s') = cx_path_count (vs_ctx s)" "cx_mode (vs_ctx s') = cx_mode (vs_ctx s)"
    using h(4) by (simp_all add: onward_def)
  ultimately have "server_open L key T s'"
    using mode h(2,3,8) T by (simp add: server_open_def)
  then show ?thesis
    using that [OF _ _ h(4,5,7)] h(1) by (simp add: vpn_step_def)
qed

lemma renewed:
  assumes lz4: "lz4_ok L" and w: "world_ok net L key w" and s: "server_state (wd_server w)" "staffed (wd_server w)"
    and dev: "vs_tun_alive (wd_client w)" and al: "aligned_paths net (wd_client w) (wd_server w)" and T: "T = step_of tv 0"
  obtains w' where "(world_step tgt tgt' net L key)\<^sup>*\<^sup>* w w'" "joined net L key T w'" "server_wrote w' = server_wrote w"
proof -
  let ?c = "wd_client w" and ?s = "wd_server w"
  have c: "vpn_ok ?c" "cx_mode (vs_ctx ?c) = MODE_CLIENT" "routed (nt_resolve net) ?c" and oks: "vpn_ok ?s" "socks_ok ?s"
    using w s(1) by (simp_all add: world_ok_def peers_ok_def server_state_def)
  define N where "N = \<lparr>remote_of = nt_resolve net, local_of = \<lambda>_ _. no_addr, bound = \<lambda>_. True, fresh_buf = \<lambda>_. packet_of [], now_of = \<lambda>_. 0\<rparr>"
  have N: "\<And>k. wf_pbuf (fresh_buf N k)" "\<And>k. bound N k" "\<And>k. now_of N k = 0" "remote_of N = nt_resolve net"
    and bd: "\<forall>k. bound N k"
    by (simp_all add: N_def packet_of_fields)
  obtain c' evs where hop: "client_hop L key N (\<lambda>_. tv) ?c = Inr (c', evs)" "vpn_ok c'" "socks_ok c'" "onward ?c c'"
    "routed (remote_of N) c'" "vs_tun_alive c' = vs_tun_alive ?c" "\<And>ds. letters ds evs = []"
    "\<And>i. i < nat (cx_path_count (vs_ctx ?c)) \<Longrightarrow> manned c' i
       \<and> px_token (cx_paths (vs_ctx c') ! i) = token_of L key (px_range (cx_paths (vs_ctx ?c) ! i)) (step_of tv 0)"
    by (rule client_hop_renews [where L=L and key=key and clk="\<lambda>_. tv", OF c(1,2) _ N(1-3)]) (use c(3) N(4) in auto)
  have "px_range (cx_paths (vs_ctx c') ! i) = px_range (cx_paths (vs_ctx ?c) ! i)" if "i < nat (cx_path_count (vs_ctx ?c))" for i
    using hop(4) that c(1) by (auto simp: onward_def vpn_ok_def ctx_ok_def)
  then have ready: "client_ready net L key T c'"
    using hop c(2) dev N(4) T by (simp add: client_ready_def onward_def)
  have step1: "vpn_step tgt L key (Hop (\<lambda>_. tv) N) ?c = Some (Inr (c', evs))"
    by (simp add: vpn_step_def hop(1))
  let ?w1 = "w\<lparr>wd_client := c', wd_up := wd_up w + mset (letters [] evs), client_read := client_read w + parcel []\<rparr>"
  have w1: "world_step tgt tgt' net L key w ?w1"
    by (rule world_step.client_acts [OF _ _ step1]) (use N(1,4) bd c(2) in \<open>simp_all add: input_ok_def own_input_def frame_packet_def\<close>)
  have "cx_mode (vs_ctx ?s) = MODE_SERVER"
    using s(1) by (simp add: server_state_def)
  then obtain s' evs' where beat: "vpn_step tgt' L key (Beat (\<lambda>_ _. tv) (\<lambda>_. demo_rng)) ?s = Some (Inr (s', evs'))"
    "server_open L key T s'" "onward ?s s'"
    by (rule server_beats [where L=L and key=key and tgt=tgt', OF oks _ s(2) T])
  have step2: "vpn_step tgt' L key (Beat (\<lambda>_ _. tv) (\<lambda>_. demo_rng)) (wd_server ?w1) = Some (Inr (s', evs'))"
    by (simp add: beat(1))
  let ?w2 = "?w1\<lparr>wd_server := s', wd_down := wd_down ?w1 + mset (letters [] evs'), server_read := server_read ?w1 + parcel []\<rparr>"
  have w2: "world_step tgt tgt' net L key ?w1 ?w2"
    by (rule world_step.server_acts [OF _ _ step2]) (simp_all add: input_ok_def own_input_def frame_packet_def demo_rng_ok)
  have "joined net L key T ?w2"
    using ready beat(2) aligned_onward [OF al hop(4) beat(3) c(1)] by (simp add: joined_def)
  moreover have "server_wrote ?w2 = server_wrote w"
    by simp
  ultimately show ?thesis
    using that rtranclp.rtrancl_into_rtrancl [OF r_into_rtranclp [of "world_step tgt tgt' net L key", OF w1] w2] by blast
qed

text \<open>The heartbeat of the client reaches the server.\<close>

definition greeted :: "net \<Rightarrow> world \<Rightarrow> bool" where
  "greeted net w \<longleftrightarrow> (\<exists>k. px_sock (cx_paths (vs_ctx (wd_client w)) ! 0) = Some k
     \<and> px_remote (cx_paths (vs_ctx (wd_server w)) ! 0) = nt_site net k
     \<and> 0 < px_alive (cx_paths (vs_ctx (wd_server w)) ! 0) \<and> px_sock (cx_paths (vs_ctx (wd_server w)) ! 0) \<noteq> None
     \<and> px_token (cx_paths (vs_ctx (wd_server w)) ! 0) = px_token (cx_paths (vs_ctx (wd_client w)) ! 0))"

lemma joined_count:
  assumes "joined net L key T w"
  shows "0 < nat (cx_path_count (vs_ctx (wd_client w)))" "0 < nat (cx_path_count (vs_ctx (wd_server w)))"
  using assms by (auto simp: joined_def client_ready_def server_open_def vpn_ok_def ctx_ok_def)

lemma greeting:
  assumes lz4: "lz4_ok L" and w: "joined net L key T w"
  obtains w' where "(world_step tgt tgt' net L key)\<^sup>*\<^sup>* w w'" "joined net L key T w'" "server_wrote w' = server_wrote w" "greeted net w'"
proof -
  let ?c = "wd_client w" and ?s = "wd_server w"
  have c: "client_ready net L key T ?c" and s: "server_open L key T ?s" and al: "aligned_paths net ?c ?s"
    using w by (simp_all add: joined_def)
  have ok: "vpn_ok ?c" "socks_ok ?c" and mode: "cx_mode (vs_ctx ?c) = MODE_CLIENT"
    and m: "manned ?c 0" "routed (nt_resolve net) ?c"
    using c joined_count(1) [OF w] by (auto simp: client_ready_def)
  obtain c' evs where h: "heartbeat L key (\<lambda>_ _. (0, 0)) (\<lambda>_. demo_rng) ?c = Inr (c', evs)" "vpn_ok c'" "socks_ok c'"
    "onward ?c c'" "same_routes ?c c'" "vs_workers c' = vs_workers ?c" "vs_tun_alive c' = vs_tun_alive ?c"
    "\<And>i. i < nat (cx_path_count (vs_ctx ?c)) \<Longrightarrow> beats (vs_ctx ?c) (cx_paths (vs_ctx ?c) ! i) \<Longrightarrow>
       \<exists>l \<in> set (letters [] evs). sent_on L key (vs_ctx ?c) (cx_paths (vs_ctx ?c) ! i) l"
    by (rule heartbeat_succeeds [where L=L and key=key and tv="(0, 0)", OF ok]) blast
  have "beats (vs_ctx ?c) (cx_paths (vs_ctx ?c) ! 0)"
    using m(1) mode by (auto simp: beats_def manned_def)
  then obtain l where l: "l \<in> set (letters [] evs)" "sent_on L key (vs_ctx ?c) (cx_paths (vs_ctx ?c) ! 0) l"
    using h(8) joined_count(1) [OF w] by blast
  have ready: "client_ready net L key T c'"
    by (rule client_ready_same [OF c h(2-5,7)]) (auto simp: h(6))
  have step1: "vpn_step tgt L key (Beat (\<lambda>_ _. (0, 0)) (\<lambda>_. demo_rng)) ?c = Some (Inr (c', evs))"
    by (simp add: vpn_step_def h(1))
  let ?w1 = "w\<lparr>wd_client := c', wd_up := wd_up w + mset (letters [] evs), client_read := client_read w + parcel []\<rparr>"
  have w1: "world_step tgt tgt' net L key w ?w1"
    by (rule world_step.client_acts [OF _ _ step1]) (simp_all add: input_ok_def own_input_def frame_packet_def demo_rng_ok)
  obtain j s' where d: "j < length (vs_workers ?s)" "lt_to l = worker_port net ?s (vs_workers ?s ! j)"
    "worker_step L key j (Datagram (nt_site net (lt_from l)) (lt_body l) 0) ?s
       = Inr (s', if lt_packet l = [] then [] else [TunWrite (lt_packet l)])"
    "server_open L key T s'" "onward ?s s'" "0 < px_alive (cx_paths (vs_ctx s') ! 0)"
    "px_remote (cx_paths (vs_ctx s') ! 0) = nt_site net (lt_from l)"
    "px_sock (cx_paths (vs_ctx s') ! 0) \<noteq> None" "px_token (cx_paths (vs_ctx s') ! 0) = px_token (cx_paths (vs_ctx ?c) ! 0)"
    by (rule up_delivered [OF lz4 c s al joined_count(1) [OF w] l(2)])
  have empty: "lt_packet l = []"
    by (rule letters_packet [OF l(1)])
  let ?w2 = "?w1\<lparr>wd_server := s', wd_up := wd_up ?w1 - {#l#}, server_wrote := server_wrote ?w1 + mset (tun_packets [])\<rparr>"
  have w2: "world_step tgt tgt' net L key ?w1 ?w2"
    by (rule world_step.server_hears [where j=j and tw=0]) (use l(1) d(1-3) empty in \<open>simp_all add: vpn_step_def\<close>)
  have "joined net L key T ?w2"
    using ready d(4) aligned_onward [OF al h(4) d(5) ok(1)] by (simp add: joined_def)
  moreover have "greeted net ?w2"
    using l(2) d(6-9) h(5) by (simp add: greeted_def sent_on_def same_routes_def)
  ultimately show ?thesis
    using that rtranclp.rtrancl_into_rtrancl [OF r_into_rtranclp [of "world_step tgt tgt' net L key", OF w1] w2] by simp
qed

text \<open>The heartbeat of the server reaches the client.\<close>

lemma answer:
  assumes lz4: "lz4_ok L" and w: "joined net L key T w" "greeted net w" and T: "T = step_of tv 0"
  obtains w' q where "(world_step tgt tgt' net L key)\<^sup>*\<^sup>* w w'" "joined net L key T w'" "server_wrote w' = server_wrote w"
    "q < nat (cx_path_count (vs_ctx (wd_client w')))" "alive_in (vs_ctx (wd_client w')) q"
proof -
  let ?c = "wd_client w" and ?s = "wd_server w"
  have c: "client_ready net L key T ?c" and s: "server_open L key T ?s" and al: "aligned_paths net ?c ?s"
    using w by (simp_all add: joined_def)
  obtain k where k: "px_sock (cx_paths (vs_ctx ?c) ! 0) = Some k" "px_remote (cx_paths (vs_ctx ?s) ! 0) = nt_site net k"
    "0 < px_alive (cx_paths (vs_ctx ?s) ! 0)" "px_sock (cx_paths (vs_ctx ?s) ! 0) \<noteq> None"
    "px_token (cx_paths (vs_ctx ?s) ! 0) = px_token (cx_paths (vs_ctx ?c) ! 0)"
    using w(2) unfolding greeted_def by blast
  have ok: "vpn_ok ?s" "socks_ok ?s" and mode: "cx_mode (vs_ctx ?s) = MODE_SERVER" and st: "staffed ?s"
    using s by (simp_all add: server_open_def)
  obtain s' evs where h: "vpn_step tgt' L key (Beat (\<lambda>_ _. tv) (\<lambda>_. demo_rng)) ?s = Some (Inr (s', evs))" "server_open L key T s'"
    "onward ?s s'" "\<And>i. i < nat (cx_path_count (vs_ctx ?s)) \<Longrightarrow> beats (vs_ctx ?s) (cx_paths (vs_ctx ?s) ! i) \<Longrightarrow>
       \<exists>l \<in> set (letters [] evs). sent_on L key (vs_ctx ?s) (cx_paths (vs_ctx ?s) ! i) l"
    by (rule server_beats [where L=L and key=key and tgt=tgt', OF ok mode st T]) blast
  have "beats (vs_ctx ?s) (cx_paths (vs_ctx ?s) ! 0)"
    using k(3,4) by (simp add: beats_def)
  then obtain l where l: "l \<in> set (letters [] evs)" "sent_on L key (vs_ctx ?s) (cx_paths (vs_ctx ?s) ! 0) l"
    using h(4) joined_count(2) [OF w(1)] by blast
  let ?w1 = "w\<lparr>wd_server := s', wd_down := wd_down w + mset (letters [] evs), server_read := server_read w + parcel []\<rparr>"
  have w1: "world_step tgt tgt' net L key w ?w1"
    by (rule world_step.server_acts [OF _ _ h(1)]) (simp_all add: input_ok_def own_input_def frame_packet_def demo_rng_ok)
  have "genuine L key (cx_mtu (vs_ctx ?c)) (px_token (cx_paths (vs_ctx ?c) ! 0)) (lt_body l) []"
    using l(2) letters_packet [OF l(1)] k(5) al by (simp add: sent_on_def aligned_paths_def)
  then obtain j c' where d: "j < length (vs_workers ?c)" "wk_sock (vs_workers ?c ! j) = k"
    "worker_step L key j (Datagram no_addr (lt_body l) 0) ?c = Inr (c', [])" "client_ready net L key T c'" "onward ?c c'"
    "\<exists>q < nat (cx_path_count (vs_ctx c')). alive_in (vs_ctx c') q"
    by (rule down_delivered [where peer=no_addr, OF lz4 c joined_count(1) [OF w(1)] k(1)])
  let ?w2 = "?w1\<lparr>wd_client := c', wd_down := wd_down ?w1 - {#l#}, client_wrote := client_wrote ?w1 + mset (tun_packets [])\<rparr>"
  have to: "lt_to l = nt_site net k"
    using l(2) k(2) by (simp add: sent_on_def)
  have w2: "world_step tgt tgt' net L key ?w1 ?w2"
    by (rule world_step.client_hears [where j=j and tw=0 and a=no_addr]) (use l(1) d(1-3) to in \<open>simp_all add: vpn_step_def\<close>)
  have "vpn_ok ?c"
    using c by (simp add: client_ready_def)
  then have "joined net L key T ?w2"
    using h(2) d(4) aligned_onward [OF al d(5) h(3)] by (simp add: joined_def)
  then show ?thesis
    using that d(6) rtranclp.rtrancl_into_rtrancl [OF r_into_rtranclp [of "world_step tgt tgt' net L key", OF w1] w2] by auto
qed

text \<open>A packet of the client's device reaches the server's.\<close>

lemma delivery:
  assumes lz4: "lz4_ok L" and w: "joined net L key T w"
    and q: "q < nat (cx_path_count (vs_ctx (wd_client w)))" "alive_in (vs_ctx (wd_client w)) q"
    and ds: "ds \<noteq> []" "int (length ds) \<le> cx_mtu (vs_ctx (wd_client w))"
  obtains w' where "(world_step tgt tgt' net L key)\<^sup>*\<^sup>* w w'" "server_wrote w' = add_mset ds (server_wrote w)"
    "client_read w' = add_mset ds (client_read w)"
proof -
  let ?c = "wd_client w" and ?s = "wd_server w"
  have c: "client_ready net L key T ?c" and s: "server_open L key T ?s" and al: "aligned_paths net ?c ?s"
    using w by (simp_all add: joined_def)
  have ok: "vpn_ok ?c" "socks_ok ?c" and dev: "vs_tun_alive ?c"
    using c by (simp_all add: client_ready_def)
  have "\<not> unbound_path ?c"
    using c by (auto simp: client_ready_def unbound_path_def manned_def)
  let ?f = "Some (fst (tun_write tgt ds))"
  obtain i b n e c' where i: "i < nat (cx_path_count (vs_ctx ?c))" "alive_in (vs_ctx ?c) i"
    and b: "fits b (cx_mtu (vs_ctx ?c))" "flag b = 0" "contents b = ds" "unat (len b) = length ds"
    and e: "encapsulate L key demo_rng (px_token (cx_paths (vs_ctx ?c) ! i)) b (cx_mtu (vs_ctx ?c)) = Inr (n, e)"
    and run: "tun_worker tgt L key demo_rng ?f ?c = Some (Inr (c',
       [UdpSend (the (px_sock (cx_paths (vs_ctx ?c) ! i))) (px_remote (cx_paths (vs_ctx ?c) ! i)) (take (nat n) (pbuf_bytes e))]))"
    by (rule tun_worker_sends [where tgt=tgt and L=L and key=key, OF ok \<open>\<not> unbound_path ?c\<close> demo_rng_ok ds q])
  let ?evs = "[UdpSend (the (px_sock (cx_paths (vs_ctx ?c) ! i))) (px_remote (cx_paths (vs_ctx ?c) ! i)) (take (nat n) (pbuf_bytes e))]"
  have "tun_read tgt ?f (nat (cx_mtu (vs_ctx ?c))) = (int (length ds), ds)"
    using ds(2) by (intro tun_write_read) simp
  then have packet: "frame_packet tgt ?c (Frame ?f demo_rng) = ds"
    using ds(1) by (simp add: frame_packet_def)
  have step1: "vpn_step tgt L key (Frame ?f demo_rng) ?c = Some (Inr (c', ?evs))"
    by (simp add: vpn_step_def run)
  define w1 where "w1 = w\<lparr>wd_client := c', wd_up := wd_up w + mset (letters ds ?evs), client_read := client_read w + parcel ds\<rparr>"
  have step1': "world_step tgt tgt' net L key w w1"
    unfolding w1_def by (rule world_step.client_acts [OF _ _ step1]) (simp_all add: input_ok_def own_input_def packet demo_rng_ok dev)
  define l where "l = \<lparr>lt_from = the (px_sock (cx_paths (vs_ctx ?c) ! i)), lt_to = px_remote (cx_paths (vs_ctx ?c) ! i),
    lt_body = take (nat n) (pbuf_bytes e), lt_packet = ds\<rparr>"
  have "uint (len b) \<le> cx_mtu (vs_ctx ?c)"
    using b(4) ds(2) by (metis uint_nat)
  then have "genuine L key (cx_mtu (vs_ctx ?c)) (px_token (cx_paths (vs_ctx ?c) ! i)) (take (nat n) (pbuf_bytes e)) ds"
    unfolding genuine_def using b(1-3) e demo_rng_ok by blast
  moreover have "px_sock (cx_paths (vs_ctx ?c) ! i) \<noteq> None" "cx_mode (vs_ctx ?c) = MODE_CLIENT"
    using c i(1) by (auto simp: client_ready_def manned_def)
  ultimately have sent: "sent_on L key (vs_ctx ?c) (cx_paths (vs_ctx ?c) ! i) l"
    by (auto simp: sent_on_def l_def)
  obtain j s' where d: "j < length (vs_workers ?s)" "lt_to l = worker_port net ?s (vs_workers ?s ! j)"
    "worker_step L key j (Datagram (nt_site net (lt_from l)) (lt_body l) 0) ?s
       = Inr (s', if lt_packet l = [] then [] else [TunWrite (lt_packet l)])"
    by (rule up_delivered [OF lz4 c s al i(1) sent])
  define w2 where "w2 = w1\<lparr>wd_server := s', wd_up := wd_up w1 - {#l#}, server_wrote := server_wrote w1 + mset (tun_packets [TunWrite ds])\<rparr>"
  have f: "l \<in># wd_up w1" "wd_server w1 = ?s" "lt_packet l = ds"
    by (simp_all add: w1_def l_def)
  have step2': "world_step tgt tgt' net L key w1 w2"
    unfolding w2_def by (rule world_step.server_hears [where j=j and tw=0, OF f(1)]) (use d ds(1) f in \<open>simp_all add: vpn_step_def\<close>)
  have out: "server_wrote w2 = add_mset ds (server_wrote w)" "client_read w2 = add_mset ds (client_read w)"
    using ds(1) by (simp_all add: w1_def w2_def parcel_def)
  have "(world_step tgt tgt' net L key)\<^sup>*\<^sup>* w w2"
    using step1' step2' by simp
  then show ?thesis
    by (rule that [OF _ out])
qed

section \<open>What the beginning provides\<close>

lemma heartbeat_device:
  assumes s: "vpn_ok s" and r: "\<And>i. rng_ok (rs i)" and run: "heartbeat L key clk rs s = Inr (s', evs)"
  shows "vs_tun_alive s' = vs_tun_alive s"
proof -
  let ?P = "\<lambda>t. vpn_ok t \<and> same_shape s t \<and> vs_tun_alive t = vs_tun_alive s"
  have "?P s'"
    using run unfolding heartbeat_def
  proof (rule steps_keep [where P = ?P])
    fix f t t' evs
    assume f: "f \<in> set (map (heartbeat_path L key clk rs) [0..<nat (cx_path_count (vs_ctx s))])"
      and t: "?P t" and step: "f t = Inr (t', evs)"
    then obtain i where i: "f = heartbeat_path L key clk rs i" "i < nat (cx_path_count (vs_ctx t))"
      by (auto simp: same_shape_def)
    have ok: "vpn_ok t" "heartbeat_path L key clk rs i t = Inr (t', evs)"
      using t step i(1) by simp_all
    have "vs_tun_alive t' = vs_tun_alive t"
      by (rule heartbeat_path_form [OF ok(1) i(2) r ok(2)]) simp
    then show "?P t'"
      using heartbeat_path_keeps(1,2) [OF ok(1) i(2) r ok(2)] t same_shape_trans by auto
  qed (simp add: s)
  then show ?thesis by simp
qed

lemma client_device:
  assumes u: "usable tgt c" and mode: "cf_mode c = MODE_CLIENT" and st: "starts L key c N s evs"
  shows "vs_tun_alive s"
proof -
  obtain b s1 s2 evs1 evs2 clk1 clk2 rs where b: "vpn_ok b" "configured c b" "vs_tun_alive b"
    and h: "\<And>k. wf_pbuf (fresh_buf N k)" "\<And>i. rng_ok (rs i)"
    and hop: "cf_mode c = MODE_CLIENT \<Longrightarrow> client_hop L key N clk1 b = Inr (s1, evs1)"
    and s1: "vpn_ok s1" "heartbeat L key clk2 rs s1 = Inr (s2, evs2)" and s: "vs_tun_alive s = vs_tun_alive s2"
    by (rule starts_parts [OF u st]) blast
  have "cx_mode (vs_ctx b) = MODE_CLIENT"
    using b(2) mode by (simp add: configured_def)
  then have "vs_tun_alive s1 = vs_tun_alive b"
    using client_hop_tokens(1) [OF b(1) h(1) _ hop [OF mode]] by blast
  moreover have "vs_tun_alive s2 = vs_tun_alive s1"
    by (rule heartbeat_device [OF s1(1) h(2) s1(2)])
  ultimately show ?thesis
    using b(3) s by simp
qed

text \<open>A server that can bind all its ports has a worker on each.\<close>

lemma worker_starts_staff:
  assumes "steps (map (\<lambda>(i, j). worker_start N i (int j) (-1)) ps) s = Inr (s', evs)" and "\<And>k. bound N k"
  shows "set (vs_workers s) \<subseteq> set (vs_workers s')
    \<and> (\<forall>(i, j) \<in> set ps. \<exists>w \<in> set (vs_workers s'). wk_path w = i \<and> wk_token w = int j)"
  using assms(1)
proof (induction ps arbitrary: s evs)
  case Nil
  then show ?case by simp
next
  case (Cons a ps)
  obtain i j where a: "a = (i, j)"
    by fastforce
  obtain t es es' where t: "worker_start N i (int j) (-1) s = Inr (t, es)"
    "steps (map (\<lambda>(i, j). worker_start N i (int j) (-1)) ps) t = Inr (s', es')"
    using Cons.prems by (auto simp: a bind_res_eq_Inr)
  obtain w where "vs_workers t = vs_workers s @ [w]" "wk_path w = i" "wk_token w = int j"
    using t(1) assms(2) by (auto simp: worker_start_def Let_def split: if_splits)
  then show ?case
    using Cons.IH [OF t(2)] by (auto simp: a)
qed

lemma server_staffed:
  assumes u: "usable tgt c" and mode: "cf_mode c = MODE_SERVER" and st: "starts L key c N s evs" and bound: "\<And>k. bound N k"
  shows "staffed s"
proof -
  obtain b s1 s2 evs1 evs2 clk2 rs where b: "vpn_ok b" "socks_ok b" "vs_workers b = []" "configured c b"
    and h: "\<And>k. wf_pbuf (fresh_buf N k)" "\<And>i. rng_ok (rs i)"
    and hop: "cf_mode c \<noteq> MODE_CLIENT \<Longrightarrow> steps (server_workers N (vs_ctx b)) b = Inr (s1, evs1)"
    and s1: "vpn_ok s1" "heartbeat L key clk2 rs s1 = Inr (s2, evs2)" "onward s2 s" and s: "vs_workers s = vs_workers s2"
    by (rule starts_parts [OF u st]) blast
  have m: "cf_mode c \<noteq> MODE_CLIENT" "cx_mode (vs_ctx b) \<noteq> MODE_CLIENT"
    using b(4) mode by (simp_all add: configured_def MODE_CLIENT_def MODE_SERVER_def)
  let ?n = "nat (cx_path_count (vs_ctx b))" and ?r = "\<lambda>i. nat (px_range (cx_paths (vs_ctx b) ! i) + 1)"
  have ws: "server_workers N (vs_ctx b) = map (\<lambda>(i, j). worker_start N i (int j) (-1))
      (concat (map (\<lambda>i. map (Pair i) [0..<?r i]) [0..<?n]))"
    by (simp add: server_workers_def map_concat comp_def)
  have staff: "\<exists>w \<in> set (vs_workers s1). wk_path w = i \<and> wk_token w = int j" if "i < ?n" "j < ?r i" for i j
    using worker_starts_staff [OF hop [OF m(1), unfolded ws] bound] that by fastforce
  have on: "onward b s1" and keep: "vs_workers s2 = vs_workers s1" and on': "onward s1 s"
    using server_workers_keeps(1) [OF b(1-3) h(1) m(2) hop [OF m(1)]] heartbeat_keeps(4) [OF s1(1) h(2) s1(2)]
      onward_trans [OF heartbeat_effects(1) [OF s1(1) h(2) s1(2)] s1(3)] by blast+
  have "staffed s1"
    unfolding staffed_def
  proof (intro allI impI)
    fix i t assume i: "i < nat (cx_path_count (vs_ctx s1))" and t: "0 \<le> t \<and> t \<le> px_range (cx_paths (vs_ctx s1) ! i)"
    have "i < ?n" "px_range (cx_paths (vs_ctx s1) ! i) = px_range (cx_paths (vs_ctx b) ! i)"
      using i on b(1) by (auto simp: onward_def vpn_ok_def ctx_ok_def)
    then show "\<exists>w \<in> set (vs_workers s1). wk_path w = i \<and> wk_token w = t"
      using staff [of i "nat t"] t by auto
  qed
  then show ?thesis
    by (rule staffed_same [OF _ on' s1(1)]) (auto simp: s keep)
qed

section \<open>From every state to a delivery\<close>

text \<open>Path \<open>i\<close> of the client's file leads, port by port, to path \<open>i\<close> of the server's.\<close>

definition confs_aligned :: "net \<Rightarrow> conf \<Rightarrow> conf \<Rightarrow> bool" where
  "confs_aligned net cc sc \<longleftrightarrow> cf_path_count sc = cf_path_count cc
     \<and> (\<forall>i < nat (cf_path_count cc).
          snd (port (cf_paths sc ! i)) - fst (port (cf_paths sc ! i)) = snd (port (cf_paths cc ! i)) - fst (port (cf_paths cc ! i))
          \<and> (\<forall>t. nt_resolve net (cstr (server (cf_paths cc ! i))) (fst (port (cf_paths cc ! i)) + t)
               = nt_port net i (fst (port (cf_paths sc ! i)) + t)))"

lemma configured_aligned:
  assumes "configured cc c" "configured sc s" and "confs_match net cc sc" "confs_aligned net cc sc"
  shows "aligned_paths net c s"
  using assms by (simp add: configured_def aligned_paths_def confs_aligned_def confs_match_def)

lemma deliverable:
  assumes lz4: "lz4_ok L" and u: "usable tgt cc" "usable tgt' sc" and m: "confs_match net cc sc" "confs_aligned net cc sc"
    and inj: "inj (nt_site net)" and w: "reach (world_init net L key cc sc) (world_step tgt tgt' net L key) w"
    and dev: "vs_tun_alive (wd_client w)" and st: "staffed (wd_server w)" and ds: "ds \<noteq> []" "int (length ds) \<le> cf_mtu cc"
  obtains w' where "(world_step tgt tgt' net L key)\<^sup>*\<^sup>* w w'" "server_wrote w' = add_mset ds (server_wrote w)" "ds \<in># client_read w'"
proof -
  define T where "T = step_of (0, 0) 0"
  have ok: "world_ok net L key w"
    using joint.reach_inv [OF w] lz4 u m(1) inj by blast
  note parts = world_parts [OF lz4 u m(1) w]
  have al: "aligned_paths net (wd_client w) (wd_server w)"
    by (rule configured_aligned [OF parts(1,2) m])
  obtain w1 where w1: "(world_step tgt tgt' net L key)\<^sup>*\<^sup>* w w1" "joined net L key T w1" "server_wrote w1 = server_wrote w"
    by (rule renewed [OF lz4 ok parts(3) st dev al T_def])
  obtain w2 where w2: "(world_step tgt tgt' net L key)\<^sup>*\<^sup>* w1 w2" "joined net L key T w2" "server_wrote w2 = server_wrote w1" "greeted net w2"
    by (rule greeting [OF lz4 w1(2)])
  obtain w3 q where w3: "(world_step tgt tgt' net L key)\<^sup>*\<^sup>* w2 w3" "joined net L key T w3" "server_wrote w3 = server_wrote w2"
    and q: "q < nat (cx_path_count (vs_ctx (wd_client w3)))" "alive_in (vs_ctx (wd_client w3)) q"
    by (rule answer [OF lz4 w2(2,4) T_def])
  have steps: "(world_step tgt tgt' net L key)\<^sup>*\<^sup>* w w3"
    by (rule rtranclp_trans [OF rtranclp_trans [OF w1(1) w2(1)] w3(1)])
  have "configured cc (wd_client w3)"
    by (rule world_parts(1) [OF lz4 u m(1) reach_steps [OF w steps]])
  then have len: "int (length ds) \<le> cx_mtu (vs_ctx (wd_client w3))"
    using ds(2) by (simp add: configured_def)
  obtain w4 where "(world_step tgt tgt' net L key)\<^sup>*\<^sup>* w3 w4" "server_wrote w4 = add_mset ds (server_wrote w3)"
    "client_read w4 = add_mset ds (client_read w3)"
    by (rule delivery [OF lz4 w3(2) q ds(1) len])
  then show ?thesis
    using that [OF rtranclp_trans [OF steps]] w1(3) w2(3) w3(3) by simp
qed

section \<open>A client and a server that fit\<close>

text \<open>A client for the server of \<open>demo_server_file\<close>, and a network that keeps port numbers.\<close>

definition demo_client_file :: string where
  "demo_client_file = ''mode=client'' @ [CHR 0x0A] @ ''server=::1'' @ [CHR 0x0A] @ ''port=2000-2009'' @ [CHR 0x0A]
     @ ''key=k'' @ [CHR 0x0A] @ ''mtu=1400'' @ [CHR 0x0A] @ ''address=10.0.0.2'' @ [CHR 0x0A]"

definition demo_link :: net where
  "demo_link = \<lparr>nt_repeats = False, nt_resolve = Pair, nt_port = \<lambda>_. Pair ''::1'', nt_site = \<lambda>k. (''10.9.9.9'', int k)\<rparr>"

text \<open>What the witnesses need of the two files, over the parsed configurations.\<close>

definition fitting :: "conf_error + conf \<Rightarrow> conf_error + conf \<Rightarrow> bool" where
  "fitting x y \<longleftrightarrow> (case x of Inl _ \<Rightarrow> False | Inr c \<Rightarrow> (case y of Inl _ \<Rightarrow> False | Inr d \<Rightarrow>
     cf_mode c = MODE_CLIENT \<and> cf_mtu c = 1400 \<and> cf_path_count c = 1
     \<and> list_all (\<lambda>p. 0 \<le> fst (port p) \<and> snd (port p) \<le> 65535) (cf_paths c)
     \<and> cstr (server (cf_paths c ! 0)) = ''::1'' \<and> port (cf_paths c ! 0) = (2000, 2009)
     \<and> cf_mode d = MODE_SERVER \<and> cf_mtu d = 1400 \<and> cf_path_count d = 1
     \<and> list_all (\<lambda>p. 0 \<le> fst (port p) \<and> snd (port p) \<le> 65535) (cf_paths d) \<and> port (cf_paths d ! 0) = (2000, 2009)))"

lemma demo_files_fit:
  "fitting (parse_args Linux (\<lambda>_. Some demo_client_file) [''-c'', ''f'']) (parse_args Linux (\<lambda>_. Some demo_server_file) [''-c'', ''f''])"
  by code_simp

lemma demo_confs:
  "usable Linux (parsed demo_client_file)" "cf_mode (parsed demo_client_file) = MODE_CLIENT" "cf_mtu (parsed demo_client_file) = 1400"
  "cf_path_count (parsed demo_client_file) = 1" "cstr (server (cf_paths (parsed demo_client_file) ! 0)) = ''::1''"
  "port (cf_paths (parsed demo_client_file) ! 0) = (2000, 2009)"
  "usable Linux (parsed demo_server_file)" "cf_mode (parsed demo_server_file) = MODE_SERVER" "cf_mtu (parsed demo_server_file) = 1400"
  "cf_path_count (parsed demo_server_file) = 1" "port (cf_paths (parsed demo_server_file) ! 0) = (2000, 2009)"
  using demo_files_fit parsed_usable [of Linux "\<lambda>_. Some demo_client_file" "[''-c'', ''f'']"]
    parsed_usable [of Linux "\<lambda>_. Some demo_server_file" "[''-c'', ''f'']"]
  by (auto simp: fitting_def parsed_def list_all_iff split: sum.splits)

lemma demo_link_ok: "inj (nt_site demo_link)" "confs_match demo_link (parsed demo_client_file) (parsed demo_server_file)"
  "confs_aligned demo_link (parsed demo_client_file) (parsed demo_server_file)"
  by (simp_all add: inj_def confs_match_def confs_aligned_def demo_confs demo_link_def)

lemma demo_world_exists:
  obtains w where "world_init demo_link L key (parsed demo_client_file) (parsed demo_server_file) w"
    "reach (world_init demo_link L key (parsed demo_client_file) (parsed demo_server_file)) (world_step tgt tgt' demo_link L key) w"
    "vs_tun_alive (wd_client w)" "staffed (wd_server w)"
proof -
  define N where "N = \<lparr>remote_of = Pair, local_of = \<lambda>_ _. no_addr, bound = \<lambda>_. True, fresh_buf = \<lambda>_. packet_of [], now_of = \<lambda>_. 0\<rparr>"
  have N: "\<And>k. wf_pbuf (fresh_buf N k)" "\<And>k. bound N k"
    by (simp_all add: N_def packet_of_fields)
  note u = demo_confs(1,7)
  obtain c evs where c: "starts L key (parsed demo_client_file) N c evs"
    by (rule starts_exists [OF u(1) N(1)])
  obtain s evs' where s: "starts L key (parsed demo_server_file) N s evs'"
    by (rule starts_exists [OF u(2) N(1)])
  let ?w = "\<lparr>wd_client = c, wd_server = s, wd_up = mset (letters [] evs), wd_down = mset (letters [] evs'),
      client_read = {#}, client_wrote = mset (tun_packets evs), server_read = {#}, server_wrote = mset (tun_packets evs')\<rparr>"
  have init: "world_init demo_link L key (parsed demo_client_file) (parsed demo_server_file) ?w"
    unfolding world_init_def by (intro exI [of _ N] exI [of _ evs] exI [of _ evs']) (use c s in \<open>simp add: N_def demo_link_def\<close>)
  show ?thesis
    by (rule that [OF init], rule reach.start, rule init) (simp_all add: client_device [OF u(1) demo_confs(2) c] server_staffed [OF u(2) demo_confs(8) s N(2)])
qed

section \<open>Properties\<close>

text \<open>
  C3. The tunnel carries packets unchanged, in both directions. A client and a server run with the
  same key and MTU on fitting configurations, joined by a network that loses, delays and reorders
  datagrams, that may add whatever the receivers reject, and that brings the other datagrams to
  the sockets they are addressed to. Then, whatever the two processes do and in whatever order,
  every packet that one side writes to its tun device was read from the tun device of the other;
  and as long as the network does not repeat datagrams, no packet is written more often than it
  was read. Tokens, sessions and addresses may change at any time on the way; the client is
  supposed to be able to bind the sockets it hops to.
\<close>

theorem tunnel_carries_packets:
  assumes "lz4_ok L" and "usable tgt cc" "usable tgt' sc" and "confs_match net cc sc" and "inj (nt_site net)"
    and "reach (world_init net L key cc sc) (world_step tgt tgt' net L key) w"
  shows "set_mset (server_wrote w) \<subseteq> set_mset (client_read w) \<and> set_mset (client_wrote w) \<subseteq> set_mset (server_read w)
    \<and> (\<not> nt_repeats net \<longrightarrow> server_wrote w \<subseteq># client_read w \<and> client_wrote w \<subseteq># server_read w)"
proof -
  have "world_ok net L key w"
    using joint.reach_inv [OF assms(6)] assms(1-5) by blast
  then have "carried net (client_read w) (wd_up w) (server_wrote w)" "carried net (server_read w) (wd_down w) (client_wrote w)"
    by (simp_all add: world_ok_def)
  then show ?thesis
    by (auto simp: carried_def intro: subset_mset.order_trans [OF mset_subset_eq_add_right])
qed


theorem tunnel_carries_packets_witness:
  "\<exists>w. reach (world_init demo_link demo_lib [] (parsed demo_client_file) (parsed demo_server_file)) (world_step Linux Linux demo_link demo_lib []) w
     \<and> [1, 2, 3] \<in># server_wrote w \<and> [1, 2, 3] \<in># client_read w \<and> server_wrote w \<subseteq># client_read w"
proof -
  note ok = demo_lz4_ok demo_confs(1,7) demo_link_ok(2)
  obtain w where w: "world_init demo_link demo_lib [] (parsed demo_client_file) (parsed demo_server_file) w"
    "reach (world_init demo_link demo_lib [] (parsed demo_client_file) (parsed demo_server_file)) (world_step Linux Linux demo_link demo_lib []) w"
    "vs_tun_alive (wd_client w)" "staffed (wd_server w)"
    by (rule demo_world_exists)
  obtain w' where w': "(world_step Linux Linux demo_link demo_lib [])\<^sup>*\<^sup>* w w'" "server_wrote w' = add_mset [1, 2, 3] (server_wrote w)"
    "[1, 2, 3] \<in># client_read w'"
    by (rule deliverable [OF ok demo_link_ok(3,1) w(2-4), where ds="[1, 2, 3]"])
      (simp_all add: demo_confs)
  note r = reach_steps [OF w(2) w'(1)]
  have "\<not> nt_repeats demo_link"
    by (simp add: demo_link_def)
  then show ?thesis
    using tunnel_carries_packets [OF ok demo_link_ok(1) r] r w'(2,3) by auto
qed

text \<open>
  C4. The tunnel recovers from every state. Take a client and a server as before, whose paths lead
  to each other port by port, in any state that they can reach: whatever was lost, however stale
  the tokens, sessions and addresses of the two sides are. If the client's tun device is open and
  the server still has a worker on each of its ports, then there is a continuation in which a
  packet of any length up to the MTU that the client reads comes out, unchanged, of the
  server's tun device, and nothing else does: a hop, a heartbeat of each side and one packet are enough.
\<close>

theorem tunnel_recovers:
  assumes "lz4_ok L" and "usable tgt cc" "usable tgt' sc" and "confs_match net cc sc" "confs_aligned net cc sc"
    and "inj (nt_site net)" and "reach (world_init net L key cc sc) (world_step tgt tgt' net L key) w"
    and "vs_tun_alive (wd_client w)" and "staffed (wd_server w)" and "ds \<noteq> []" and "int (length ds) \<le> cf_mtu cc"
  shows "\<exists>w'. (world_step tgt tgt' net L key)\<^sup>*\<^sup>* w w'
    \<and> server_wrote w' = add_mset ds (server_wrote w) \<and> ds \<in># client_read w'"
  using deliverable [OF assms] by metis

theorem tunnel_recovers_witness:
  "\<exists>w w'. world_init demo_link demo_lib [] (parsed demo_client_file) (parsed demo_server_file) w
     \<and> (world_step Linux Linux demo_link demo_lib [])\<^sup>*\<^sup>* w w' \<and> server_wrote w' = add_mset [7] (server_wrote w)"
proof -
  obtain w where w: "world_init demo_link demo_lib [] (parsed demo_client_file) (parsed demo_server_file) w"
    "reach (world_init demo_link demo_lib [] (parsed demo_client_file) (parsed demo_server_file)) (world_step Linux Linux demo_link demo_lib []) w"
    "vs_tun_alive (wd_client w)" "staffed (wd_server w)"
    by (rule demo_world_exists)
  then show ?thesis
    using tunnel_recovers [OF demo_lz4_ok demo_confs(1,7) demo_link_ok(2,3,1) w(2-4), of "[7]"]
    by (auto simp: demo_confs)
qed

end
