(* ===== verification/Lifetime.thy ===== *)
theory Lifetime
  imports Startup
begin

text \<open>
  The life of the process after its start: the main coroutine looks at \<open>cx_running\<close> again and
  again while the others run. It ends exactly when a signal has asked for it, and then closes the
  tun device it was started with.
\<close>

section \<open>Who stops the process\<close>

definition stops :: "input \<Rightarrow> bool" where
  "stops i = (case i of Signalled sg \<Rightarrow> sg \<noteq> SIGUSR1 | _ \<Rightarrow> False)"

definition undisturbed :: "vpn \<Rightarrow> vpn \<Rightarrow> bool" where
  "undisturbed s t \<longleftrightarrow> cx_running (vs_ctx t) = cx_running (vs_ctx s) \<and> cx_tun (vs_ctx t) = cx_tun (vs_ctx s)
     \<and> cx_mode (vs_ctx t) = cx_mode (vs_ctx s)"

lemma undisturbed_refl [simp]: "undisturbed s s"
  by (simp add: undisturbed_def)

lemma undisturbed_trans: "undisturbed s t \<Longrightarrow> undisturbed t u \<Longrightarrow> undisturbed s u"
  by (simp add: undisturbed_def)

lemma steps_undisturbed:
  assumes "steps fs s = Inr (s', evs)" and "\<And>f t t' es. f \<in> set fs \<Longrightarrow> f t = Inr (t', es) \<Longrightarrow> undisturbed t t'"
  shows "undisturbed s s'"
  using assms undisturbed_trans by (intro steps_keep [where P = "undisturbed s", OF assms(1)]) auto

lemma worker_start_undisturbed: "worker_start N i token timeout s = Inr (s', evs) \<Longrightarrow> undisturbed s s'"
  by (auto simp: worker_start_def Let_def undisturbed_def split: if_splits)

lemma udp_sender_undisturbed:
  assumes "udp_sender L key r s = Some (Inr (s', evs))"
  shows "undisturbed s s'"
proof (cases "if 0 < cx_path_count (vs_ctx s) then next_path (alive_in (vs_ctx s)) (nat (cx_path_count (vs_ctx s))) (vs_turn s) (vs_turn s)
    else Some (vs_turn s)")
  case None
  then show ?thesis
    using assms by (simp add: udp_sender_def)
next
  case (Some q)
  show ?thesis
    using assms unfolding udp_sender_def Some Let_def by (auto simp: undisturbed_def bind_res_eq_Inr split: if_splits)
qed

lemma tun_worker_undisturbed:
  assumes "tun_worker tgt L key r frame s = Some (Inr (s', evs))"
  shows "undisturbed s s'"
proof -
  have buf: "undisturbed (s\<lparr>vs_tun_buf := b\<rparr>) s' \<Longrightarrow> undisturbed s s'" for b
    by (simp add: undisturbed_def)
  obtain n ds where rd: "tun_read tgt frame (nat (cx_mtu (vs_ctx s))) = (n, ds)"
    by fastforce
  show ?thesis
  proof (cases "n \<le> 0")
    case True
    then show ?thesis
      using assms rd by (auto simp: tun_worker_def undisturbed_def)
  next
    case False
    then obtain b where "udp_sender L key r (s\<lparr>vs_tun_buf := b\<rparr>) = Some (Inr (s', evs))"
      using assms rd by (auto simp: tun_worker_def split: sum.splits)
    then show ?thesis
      by (rule buf [OF udp_sender_undisturbed])
  qed
qed

lemma worker_packet_undisturbed:
  assumes "worker_packet L key w n tw c = Inr (c', w', evs)"
  shows "cx_running c' = cx_running c \<and> cx_tun c' = cx_tun c \<and> cx_mode c' = cx_mode c"
proof -
  obtain k b where d: "decapsulate L key (wk_token w) (wk_buf w) n = Inr (k, b)"
    using assms by (auto simp: worker_packet_def bind_res_eq_Inr)
  show ?thesis
    using assms unfolding worker_packet_def d by (auto simp: Let_def bind_res_eq_Inr split: if_splits)
qed

lemma worker_round_undisturbed:
  assumes "worker_round L key w rv c = Inr (c', wo, evs)"
  shows "cx_running c' = cx_running c \<and> cx_tun c' = cx_tun c \<and> cx_mode c' = cx_mode c"
  using assms worker_packet_undisturbed unfolding worker_round_def Let_def
  by (fastforce simp: bind_res_eq_Inr split: if_splits recv.splits)

lemma worker_step_undisturbed: "worker_step L key j rv s = Inr (s', evs) \<Longrightarrow> undisturbed s s'"
  using worker_round_undisturbed unfolding worker_step_def Let_def undisturbed_def
  by (fastforce simp: bind_res_eq_Inr split: option.splits)

lemma client_hop_undisturbed: "client_hop L key N clk s = Inr (s', evs) \<Longrightarrow> undisturbed s s'"
  unfolding client_hop_def
  by (erule steps_undisturbed) (auto simp: hop_path_def bind_res_eq_Inr dest: worker_start_undisturbed)

lemma heartbeat_undisturbed: "heartbeat L key clk rs s = Inr (s', evs) \<Longrightarrow> undisturbed s s'"
  unfolding heartbeat_def
  by (erule steps_undisturbed) (auto simp: heartbeat_path_def Let_def undisturbed_def bind_res_eq_Inr split: if_splits)

lemma vpn_step_running:
  assumes "vpn_step tgt L key i s = Some (Inr (s', evs))"
  shows "cx_running (vs_ctx s') = (if stops i then 0 else cx_running (vs_ctx s))"
    and "cx_tun (vs_ctx s') = cx_tun (vs_ctx s)" and "cx_mode (vs_ctx s') = cx_mode (vs_ctx s)"
proof -
  have "undisturbed (if stops i then vpn_stop s else s) s'"
  proof (cases i)
    case (Tick now)
    then show ?thesis
      using assms by (auto simp: vpn_step_def stops_def snmp_round_def Let_def undisturbed_def bind_res_eq_Inr split: if_splits)
  next
    case (Signalled sg)
    then show ?thesis
      using assms by (auto simp: vpn_step_def stops_def signal_cb_def split: if_splits)
  qed (use assms in \<open>auto simp: vpn_step_def stops_def dest: tun_worker_undisturbed worker_step_undisturbed
        client_hop_undisturbed heartbeat_undisturbed\<close>)
  then show "cx_running (vs_ctx s') = (if stops i then 0 else cx_running (vs_ctx s))"
    and "cx_tun (vs_ctx s') = cx_tun (vs_ctx s)" and "cx_mode (vs_ctx s') = cx_mode (vs_ctx s)"
    by (auto simp: undisturbed_def vpn_stop_def split: if_splits)
qed

section \<open>A run without end\<close>

text \<open>The states and inputs of a run, one for each segment.\<close>

definition runs_on :: "target \<Rightarrow> lib \<Rightarrow> byte list \<Rightarrow> (nat \<Rightarrow> vpn) \<Rightarrow> (nat \<Rightarrow> input) \<Rightarrow> bool" where
  "runs_on tgt L key \<sigma> \<iota> \<longleftrightarrow> (\<forall>n. input_ok (\<sigma> n) (\<iota> n) \<and> (\<exists>evs. vpn_step tgt L key (\<iota> n) (\<sigma> n) = Some (Inr (\<sigma> (Suc n), evs))))"

lemma run_running:
  assumes "runs_on tgt L key \<sigma> \<iota>" and "cx_running (vs_ctx (\<sigma> 0)) = 1"
  shows "cx_running (vs_ctx (\<sigma> n)) = (if \<exists>m < n. stops (\<iota> m) then 0 else 1)"
    and "cx_tun (vs_ctx (\<sigma> n)) = cx_tun (vs_ctx (\<sigma> 0))" and "cx_mode (vs_ctx (\<sigma> n)) = cx_mode (vs_ctx (\<sigma> 0))"
proof -
  have "cx_running (vs_ctx (\<sigma> n)) = (if \<exists>m < n. stops (\<iota> m) then 0 else 1) \<and> cx_tun (vs_ctx (\<sigma> n)) = cx_tun (vs_ctx (\<sigma> 0))
    \<and> cx_mode (vs_ctx (\<sigma> n)) = cx_mode (vs_ctx (\<sigma> 0))"
  proof (induction n)
    case 0
    then show ?case
      using assms(2) by simp
  next
    case (Suc n)
    obtain evs where "vpn_step tgt L key (\<iota> n) (\<sigma> n) = Some (Inr (\<sigma> (Suc n), evs))"
      using assms(1) unfolding runs_on_def by blast
    from vpn_step_running [OF this] Suc.IH show ?case
      by (auto simp: less_Suc_eq)
  qed
  then show "cx_running (vs_ctx (\<sigma> n)) = (if \<exists>m < n. stops (\<iota> m) then 0 else 1)"
    and "cx_tun (vs_ctx (\<sigma> n)) = cx_tun (vs_ctx (\<sigma> 0))" and "cx_mode (vs_ctx (\<sigma> n)) = cx_mode (vs_ctx (\<sigma> 0))"
    by blast+
qed

text \<open>The loop: it ends at the first state in which it sees 0, and only there.\<close>

lemma main_loop_ends: "\<forall>k. n \<le> k \<and> k < m \<longrightarrow> cx_running (vs_ctx (view k)) \<noteq> 0 \<Longrightarrow> cx_running (vs_ctx (view m)) = 0 \<Longrightarrow> n \<le> m
  \<Longrightarrow> main_loop view n = Some m"
proof (induction "m - n" arbitrary: n)
  case 0
  then show ?case
    by (subst main_loop.simps) simp
next
  case (Suc d)
  then have "main_loop view (n + 1) = Some m"
    by (intro Suc.hyps(1)) auto
  then show ?case
    using Suc.hyps(2) Suc.prems(1) by (subst main_loop.simps) auto
qed

lemma main_loop_Some:
  assumes "main_loop view n = Some m"
  shows "n \<le> m \<and> cx_running (vs_ctx (view m)) = 0 \<and> (\<forall>k. n \<le> k \<and> k < m \<longrightarrow> cx_running (vs_ctx (view k)) \<noteq> 0)"
proof (rule main_loop.raw_induct [OF _ assms])
  fix loop :: "(nat \<Rightarrow> vpn) \<Rightarrow> nat \<Rightarrow> nat option" and view n m
  assume IH: "\<And>view n m. loop view n = Some m \<Longrightarrow>
      n \<le> m \<and> cx_running (vs_ctx (view m)) = 0 \<and> (\<forall>k. n \<le> k \<and> k < m \<longrightarrow> cx_running (vs_ctx (view k)) \<noteq> 0)"
    and run: "(if cx_running (vs_ctx (view n)) = 0 then Some n else loop view (n + 1)) = Some m"
  show "n \<le> m \<and> cx_running (vs_ctx (view m)) = 0 \<and> (\<forall>k. n \<le> k \<and> k < m \<longrightarrow> cx_running (vs_ctx (view k)) \<noteq> 0)"
  proof (cases "cx_running (vs_ctx (view n)) = 0")
    case False
    then have "n + 1 \<le> m \<and> cx_running (vs_ctx (view m)) = 0 \<and> (\<forall>k. n + 1 \<le> k \<and> k < m \<longrightarrow> cx_running (vs_ctx (view k)) \<noteq> 0)"
      using IH [of view "n + 1" m] run by simp
    then have later: "n + 1 \<le> m" "cx_running (vs_ctx (view m)) = 0"
      "\<And>k. n + 1 \<le> k \<Longrightarrow> k < m \<Longrightarrow> cx_running (vs_ctx (view k)) \<noteq> 0"
      by blast+
    have "cx_running (vs_ctx (view k)) \<noteq> 0" if "n \<le> k" "k < m" for k
    proof (cases "k = n")
      case True
      then show ?thesis
        using False by simp
    next
      case False
      then show ?thesis
        using that by (intro later(3)) linarith+
    qed
    then show ?thesis
      using later(1,2) by simp
  qed (use run in simp)
qed

lemma run_end_runs:
  assumes "usable tgt c"
  shows "\<exists>su'. run_end E c su = Inr (if cx_running (su_ctx su) = 0 then 0 else 1, su')
    \<and> su_closed su' = su_closed su @ [cx_tun (su_ctx su)]"
proof -
  have drop: "su_ctx (drop_privileges E u su) = su_ctx su" "su_closed (drop_privileges E u su) = su_closed su" for u
    by (auto simp: drop_privileges_def log_if_def split: prod.split)
  show ?thesis
  proof (cases "se_target E = Linux \<and> cx_mode (su_ctx su) = MODE_SERVER \<and> cf_nat c \<noteq> 0")
    case True
    define su1 where "su1 = (if cstr (cf_user c) \<noteq> [] then drop_privileges E ''root'' su else su)"
    have su1: "su_ctx su1 = su_ctx su" "su_closed su1 = su_closed su"
      by (simp_all add: su1_def drop)
    obtain r n where "run_script (nat_rules (se_sys E) (cstr (cf_address c)) False) su1 = Inr (r, su1\<lparr>su_trace := su_trace su1 @
        take n (nat_off_cmds (cstr (cf_address c)))\<rparr>)"
      using nat_runs [OF assms, where on=False and sys="se_sys E" and su=su1] by auto
    then show ?thesis
      using True by (simp add: run_end_def Let_def su1_def [symmetric] log_if_def tun_close_def su1)
  next
    case False
    show ?thesis
      unfolding run_end_def if_not_P [OF False] by (simp add: log_if_def tun_close_def)
  qed
qed

section \<open>Properties\<close>

text \<open>
  C10. \<^verbatim>\<open>vpn_run\<close> returns exactly when it is asked to. In any run of the process from its start on
  in which no segment faults, whatever segments run between two tests of \<^verbatim>\<open>ctx.running\<close> and as long as the main coroutine keeps
  being resumed, its loop ends if and only if a signal other than SIGUSR1 arrives. It ends at the
  first test after that signal, and then the rest of \<^verbatim>\<open>vpn_run\<close> comes to its end whatever the
  commands return, closes the tun device that the process was started with and nothing else, and
  returns success.
\<close>

theorem vpn_run_ends:
  assumes "usable tgt c" and "initial L key c (\<sigma> 0)" and run: "runs_on tgt L key \<sigma> \<iota>"
    and resumed: "\<forall>n. \<exists>k. n \<le> \<phi> k"
  shows "(main_loop (\<sigma> \<circ> \<phi>) 0 = None \<longleftrightarrow> (\<forall>n. \<not> stops (\<iota> n)))
    \<and> (main_loop (\<sigma> \<circ> \<phi>) 0 = Some k \<longrightarrow> (\<exists>n < \<phi> k. stops (\<iota> n)) \<and> (\<forall>j < k. \<forall>n < \<phi> j. \<not> stops (\<iota> n))
        \<and> (\<exists>su'. run_end E c (su\<lparr>su_ctx := vs_ctx (\<sigma> (\<phi> k))\<rparr>) = Inr (0, su')
             \<and> su_closed su' = su_closed su @ [cx_tun (vs_ctx (\<sigma> 0))]))"
proof -
  obtain s3 where "\<sigma> 0 = s3\<lparr>vs_ctx := (vs_ctx s3)\<lparr>cx_running := 1\<rparr>\<rparr>"
    using assms(2) by (auto simp: initial_def run_start_def bind_res_eq_Inr dest!: sym [of _ "\<sigma> 0"])
  then have "cx_running (vs_ctx (\<sigma> 0)) = 1"
    by simp
  note rr = run_running [OF run this]
  have zero: "cx_running (vs_ctx ((\<sigma> \<circ> \<phi>) k)) = 0 \<longleftrightarrow> (\<exists>n < \<phi> k. stops (\<iota> n))" for k
    by (simp add: rr(1))
  have ends: "main_loop (\<sigma> \<circ> \<phi>) 0 \<noteq> None" if n: "stops (\<iota> n)" for n
  proof -
    obtain k where "Suc n \<le> \<phi> k"
      using resumed by blast
    then have "cx_running (vs_ctx ((\<sigma> \<circ> \<phi>) k)) = 0"
      using n zero Suc_le_lessD by blast
    then have "main_loop (\<sigma> \<circ> \<phi>) 0 = Some (LEAST k. cx_running (vs_ctx ((\<sigma> \<circ> \<phi>) k)) = 0)"
      by (intro main_loop_ends) (use LeastI not_less_Least in fast)+
    then show ?thesis by simp
  qed
  have some: "(\<exists>n < \<phi> k. stops (\<iota> n)) \<and> (\<forall>j < k. \<forall>n < \<phi> j. \<not> stops (\<iota> n))" if "main_loop (\<sigma> \<circ> \<phi>) 0 = Some k" for k
    using main_loop_Some [OF that] zero by auto
  moreover have "\<exists>su'. run_end E c (su\<lparr>su_ctx := vs_ctx (\<sigma> (\<phi> k))\<rparr>) = Inr (0, su') \<and> su_closed su' = su_closed su @ [cx_tun (vs_ctx (\<sigma> 0))]"
    if "main_loop (\<sigma> \<circ> \<phi>) 0 = Some k"
    using some [OF that] rr(1,2) [of "\<phi> k"] run_end_runs [OF assms(1), of E "su\<lparr>su_ctx := vs_ctx (\<sigma> (\<phi> k))\<rparr>"] by auto
  ultimately show ?thesis
    using ends by (cases "main_loop (\<sigma> \<circ> \<phi>) 0") blast+
qed

text \<open>A client that is asked for its counters, then told to stop.\<close>

theorem vpn_run_ends_witness:
  "\<exists>\<sigma> su'. main_loop (\<sigma> \<circ> (\<lambda>k. 2 * k)) 0 = Some 1
    \<and> run_end demo_env (parsed demo_file) (demo_boot\<lparr>su_ctx := vs_ctx (\<sigma> 2)\<rparr>) = Inr (0, su') \<and> su_closed su' = [cx_tun (vs_ctx (\<sigma> 0))]"
proof -
  note u = runs_as_usable(1) [OF demo_files_run(2)]
  obtain s where s: "initial demo_lib [] (parsed demo_file) s"
    using initial_exists [OF u] by blast
  define \<sigma> where "\<sigma> = (\<lambda>n :: nat. if n \<le> 1 then s else vpn_stop s)"
  define \<iota> where "\<iota> = (\<lambda>n :: nat. Signalled (if n = 1 then SIGTERM else SIGUSR1))"
  have run: "runs_on Linux demo_lib [] \<sigma> \<iota>"
    by (auto simp: runs_on_def \<sigma>_def \<iota>_def input_ok_def vpn_step_def signal_cb_def)
  have start: "initial demo_lib [] (parsed demo_file) (\<sigma> 0)"
    using s by (simp add: \<sigma>_def)
  have sched: "\<forall>n :: nat. \<exists>k. n \<le> 2 * k"
    by (metis le_add1 mult_2)
  note ends = vpn_run_ends [OF u start run sched]
  have one: "stops (\<iota> n) \<longleftrightarrow> n = 1" for n
    by (simp add: stops_def \<iota>_def)
  obtain k where k: "main_loop (\<sigma> \<circ> (\<lambda>k. 2 * k)) 0 = Some k"
    using ends [of k for k] one [of 1] by (cases "main_loop (\<sigma> \<circ> (\<lambda>k. 2 * k)) 0") blast+
  then have "1 < 2 * k" "\<forall>j < k. \<not> 1 < 2 * j"
    using ends [of k] one by auto
  then have "k = 1"
    by (cases k) force+
  then have "\<exists>su'. run_end demo_env (parsed demo_file) (demo_boot\<lparr>su_ctx := vs_ctx (\<sigma> 2)\<rparr>) = Inr (0, su')
      \<and> su_closed su' = [cx_tun (vs_ctx (\<sigma> 0))]"
    using k ends [of 1 demo_env demo_boot] by (simp add: demo_boot_def)
  then show ?thesis
    using k \<open>k = 1\<close> by blast
qed

end
