(* ===== verification/Messages.thy ===== *)
theory Messages
  imports Tunif
begin

text \<open>
  What the user is told: the help and version texts, and the message for each way in which the
  configuration can be refused, with the stream it is written to.
\<close>

text \<open>The names of a build without \<^verbatim>\<open>config.h\<close>.\<close>

definition PACKAGE :: string where "PACKAGE = ''muon''"
definition PACKAGE_BUGREPORT :: string where "PACKAGE_BUGREPORT = ''https://github.com/puxxustc/muon/issues''"
definition VERSION :: string where "VERSION = ''0.1.0''"

definition LF :: string where "LF = [CHR 0x0A]"

definition help_text :: string where
  "help_text = ''usage: '' @ PACKAGE @ LF
     @ ''  -h, --help           show this help'' @ LF
     @ ''  -c, --config <file>  config file'' @ LF
     @ ''  -d, --daemon         daemonize after initialization'' @ LF
     @ ''  --pidfile <file>     PID file'' @ LF
     @ ''  --logfile <file>     log file'' @ LF
     @ ''  -V, --version        print version and exit'' @ LF @ LF
     @ ''Bug report: <'' @ PACKAGE_BUGREPORT @ ''>.'' @ LF"

text \<open>A message with the number of the line; the source writes \<^verbatim>\<open>\'\<close> for a single quote.\<close>

definition at_line :: "nat \<Rightarrow> string \<Rightarrow> stream \<times> string" where
  "at_line n m = (Stderr, ''line '' @ dec n @ '': '' @ m @ LF)"

definition plain :: "string \<Rightarrow> stream \<times> string" where
  "plain m = (Stderr, m @ LF)"

definition quote :: string where "quote = [CHR 0x27]"

text \<open>A fault has no message.\<close>

fun told :: "conf_error \<Rightarrow> (stream \<times> string) option" where
  "told (Fault e) = None"
| "told OpenFailed = Some (plain ''failed to open config file'')"
| "told (NoEquals n) = Some (at_line n (''no '' @ quote @ ''='' @ [CHR 0x5C] @ '' found''))"
| "told (SpaceAroundEquals n) = Some (at_line n (''do not put space before/after '' @ quote @ ''='' @ quote))"
| "told (BadMode n) = Some (at_line n ''mode must be server/client'')"
| "told (TooManyServers n) = Some (at_line n ''too many server'')"
| "told (MissingPort n) = Some (at_line n ''missing port in last server config'')"
| "told (BadPortRange n) = Some (at_line n ''port range invalid'')"
| "told (MtuTooSmall n) = Some (at_line n ''mtu too small'')"
| "told (MtuTooLarge n) = Some (at_line n ''mtu too large'')"
| "told (BadRoute n) = Some (at_line n ''route must be yes/no'')"
| "told (BadNat n) = Some (at_line n ''nat must be yes/no'')"
| "told HelpShown = Some (Stdout, help_text)"
| "told VersionShown = Some (Stdout, PACKAGE @ '' '' @ VERSION @ LF)"
| "told (MissingFilename a) = Some (plain (''missing filename after '' @ quote @ a @ quote))"
| "told (InvalidOption a) = Some (plain (''invalid option: '' @ a))"
| "told NoConfigFile = Some (plain ''config file not set'')"
| "told NoPidfile = Some (plain ''pidfile not set'')"
| "told NoLogfile = Some (plain ''logfile not set'')"
| "told NoMode = Some (plain ''mode not set in config file'')"
| "told NoServer = Some (plain ''server not set in config file'')"
| "told NoKey = Some (plain ''key not set in config file'')"
| "told NoMtu = Some (plain ''mtu not set in config file'')"
| "told NoAddress = Some (plain ''address/address6 not set in config file'')"
| "told NoPeer = Some (plain ''peer address not set in config file'')"

text \<open>The exact text of the message for a line without \<open>=\<close>: the second quote is a backslash.\<close>

lemma no_equals_text: "told (NoEquals 7) = Some (Stderr, ''line 7: no '' @ [CHR 0x27, CHR ''='', CHR 0x5C] @ '' found'' @ [CHR 0x0A])"
  by code_simp

text \<open>A message tells which error it stands for, and in which line.\<close>

lemma at_line_inject [simp]: "at_line n m = at_line n' m' \<longleftrightarrow> n = n' \<and> m = m'"
proof
  assume "at_line n m = at_line n' m'"
  then have eq: "dec n @ CHR '':'' # '' '' @ m = dec n' @ CHR '':'' # '' '' @ m'"
    by (simp add: at_line_def)
  have colon: "CHR '':'' \<notin> set (dec k)" for k
    using dec_digits [of _ k] by (fastforce simp: is_digit_def)
  then have "takeWhile (\<lambda>c. c \<noteq> CHR '':'') (dec k @ CHR '':'' # x) = dec k" for k x
    by (simp add: takeWhile_append)
  then have "dec n = dec n'"
    using arg_cong [OF eq, of "takeWhile (\<lambda>c. c \<noteq> CHR '':'')"] by simp
  then show "n = n' \<and> m = m'"
    using eq from_dec by (metis append_same_eq list.inject same_append_eq)
qed simp

lemma told_inject: "told e = told e' \<Longrightarrow> told e \<noteq> None \<Longrightarrow> e = e'"
  by (cases e; cases e'; simp) (simp_all add: plain_def at_line_def LF_def quote_def help_text_def PACKAGE_def)

end
