(* ===== verification/Tests.thy ===== *)
theory Tests
  imports Encapsulate
begin

text \<open>
  tests/test_encapsulate.c: the part of the test that encapsulates and decapsulates packets of
  every length with three kinds of data in one buffer. Its two fixed datagrams are bytes that
  libsodium and lz4 made and are not modelled. A failing \<^verbatim>\<open>assert\<close> is the fault
  \<open>AssertFailed\<close>, as in the program.
\<close>

section \<open>The test\<close>

text \<open>\<open>rnd\<close> is what \<^verbatim>\<open>randombytes_uniform(256)\<close> returns for each byte.\<close>

definition test_payload :: "(nat \<Rightarrow> byte) \<Rightarrow> nat \<Rightarrow> nat \<Rightarrow> byte list" where
  "test_payload rnd n data = map (\<lambda>j.
     if data = 0 then rnd j
     else if data = 1 then ucast (of_nat j AND (0xFF :: u32))
     else ucast (of_nat n AND (0xFF :: u32))) [0..<n]"

definition check :: "bool \<Rightarrow> unit res" where
  "check b = (if b then Inr () else Inl AssertFailed)"

text \<open>One round of the loops: \<open>g\<close> is the uninitialised \<^verbatim>\<open>copy\<close>, \<open>ds\<close> the data in \<^verbatim>\<open>pbuf\<close>.\<close>

definition test_packet :: "lib \<Rightarrow> byte list \<Rightarrow> rng \<Rightarrow> int \<Rightarrow> pbuf \<Rightarrow> byte list \<Rightarrow> unit res" where
  "test_packet L key r mtu g ds =
     (let n = of_nat (length ds) :: u16 in
      bind_res (mem_write PAYLOAD_OFFSET (take (unat n) ds) (g\<lparr>ack := 0, flag := 0, len := n\<rparr>)) (\<lambda>copy.
      bind_res (encapsulate L key r 0 copy mtu) (\<lambda>(k, copy1).
      bind_res (check (k \<le> mtu + int PAYLOAD_OFFSET)) (\<lambda>_.
      bind_res (decapsulate L key 0 copy1 k) (\<lambda>(k', copy2).
      bind_res (check (0 \<le> k')) (\<lambda>_.
      bind_res (check (len copy2 = n)) (\<lambda>_.
      bind_res (mem_read PAYLOAD_OFFSET (unat (len copy2)) copy2) (\<lambda>cs.
        check (cs = take (unat (len copy2)) ds)))))))))"

fun in_turn :: "unit res list \<Rightarrow> unit res" where
  "in_turn [] = Inr ()"
| "in_turn (x # xs) = bind_res x (\<lambda>_. in_turn xs)"

definition test_packets :: "lib \<Rightarrow> byte list \<Rightarrow> (nat \<Rightarrow> nat \<Rightarrow> rng) \<Rightarrow> (nat \<Rightarrow> nat \<Rightarrow> pbuf) \<Rightarrow> (nat \<Rightarrow> nat \<Rightarrow> byte) \<Rightarrow> int \<Rightarrow> unit res" where
  "test_packets L key r g rnd mtu =
     in_turn (concat (map (\<lambda>n. map (\<lambda>data.
       test_packet L key (r n data) mtu (g n data) (test_payload (rnd n) n data)) [0..<3]) [0..<nat (mtu + 1)]))"

section \<open>It passes\<close>

lemma in_turn_pass: "(\<And>x. x \<in> set xs \<Longrightarrow> x = Inr ()) \<Longrightarrow> in_turn xs = Inr ()"
proof (induction xs)
  case (Cons x xs)
  have "x = Inr ()" "in_turn xs = Inr ()"
    by (rule Cons.prems, simp) (rule Cons.IH, rule Cons.prems, simp)
  then show ?case
    by simp
qed simp

text \<open>A buffer that is received into itself stays as it is.\<close>

lemma recv_into_self:
  assumes "wf_pbuf q" and "n \<le> 2072"
  shows "recv_into (take n (pbuf_bytes q)) q = Inr q"
proof -
  have "length (take n (pbuf_bytes q)) = n"
    using assms by simp
  then show ?thesis
    using recv_into_eq [of "take n (pbuf_bytes q)" q] assms by (simp add: pbuf_of_bytes)
qed

lemma PAYLOAD_OFFSET_int: "int PAYLOAD_OFFSET = 20"
  by (simp add: layout_defs)

lemma test_packet_passes:
  assumes lz4: "lz4_ok L" and r: "rng_ok r" and g: "wf_pbuf g" and mtu: "int (length ds) \<le> mtu" "mtu \<le> 2048"
  shows "test_packet L key r mtu g ds = Inr ()"
proof -
  let ?n = "of_nat (length ds) :: u16"
  have n: "unat ?n = length ds" "length ds \<le> 2048"
    using mtu by (simp_all add: unat_of_nat)
  define p where "p = g\<lparr>ack := 0, flag := 0, len := ?n, payload := write_at 0 ds (payload g)\<rparr>"
  have wr: "mem_write PAYLOAD_OFFSET ds (g\<lparr>ack := 0, flag := 0, len := ?n\<rparr>) = Inr p"
    using mem_write_front [of "g\<lparr>ack := 0, flag := 0, len := ?n\<rparr>" ds] g n(2) by (simp add: wf_pbuf_def p_def)
  have p: "fits p mtu" "flag p = 0" "len p = ?n" "contents p = ds" "uint (len p) = int (length ds)"
    using g n mtu by (simp_all add: p_def fits_def wf_pbuf_def contents_def write_at_def uint_nat)
  obtain k e where e: "encapsulate L key r 0 p mtu = Inr (k, e)" "wf_pbuf e" "20 \<le> k" "k \<le> 20 + max (uint (len p)) mtu"
    using encapsulate_sizes [OF r p(1)] by metis
  have k: "k \<le> 20 + mtu" "nat k \<le> 2072"
    using e(4) p(5) mtu by simp_all
  obtain q2 where q2: "decapsulate L key 0 e k = Inr (uint (len p), q2)" "wf_pbuf q2" "len q2 = len p" "contents q2 = contents p"
    using roundtrip [OF lz4 r p(1,2) e(2,1) refl] recv_into_self [OF e(2) k(2)] by auto
  have rd: "mem_read PAYLOAD_OFFSET (length ds) q2 = Inr ds"
    using mem_read_contents [OF q2(2)] q2(3,4) p(3,4) n by simp
  show ?thesis
    using k(1) q2(3) p(3) rd n(1) by (simp add: test_packet_def Let_def wr e(1) q2(1) check_def PAYLOAD_OFFSET_int)
qed

section \<open>Properties\<close>

text \<open>
  C39. The test of the repository cannot fail: whatever the random numbers, the uninitialised
  memory and the key, and for every compressor that keeps its contract, every assertion of the
  loops holds, for each MTU up to 2048 (the test uses 1452).
\<close>

theorem test_packets_pass:
  assumes "lz4_ok L" and "\<And>n data. rng_ok (r n data)" and "\<And>n data. wf_pbuf (g n data)" and "mtu \<le> 2048"
  shows "test_packets L key r g rnd mtu = Inr ()"
  unfolding test_packets_def
proof (rule in_turn_pass)
  fix x
  assume "x \<in> set (concat (map (\<lambda>n. map (\<lambda>data.
       test_packet L key (r n data) mtu (g n data) (test_payload (rnd n) n data)) [0..<3]) [0..<nat (mtu + 1)]))"
  then obtain n data where x: "x = test_packet L key (r n data) mtu (g n data) (test_payload (rnd n) n data)" "n < nat (mtu + 1)"
    by auto
  show "x = Inr ()"
    unfolding x(1) by (rule test_packet_passes [OF assms(1-3) _ assms(4)]) (use x(2) in \<open>simp add: test_payload_def\<close>)
qed

theorem test_packets_pass_witness:
  "test_packets demo_lib [1, 2] (\<lambda>_ _. demo_rng) (\<lambda>_ _. packet_of [9]) (\<lambda>n j. of_nat (n * j)) 1452 = Inr ()"
  by (rule test_packets_pass) (simp_all add: demo_lz4_ok demo_rng_ok packet_of_fields)

end
