(* ===== verification/Spec2Isabelle.thy ===== *)
theory Spec2Isabelle
  imports Settings Reader Channel Startup Counters Timed Accounts Opening Longrun Connect Lifetime Messages Tests
begin

text \<open>
  A verification development for muon, a stateless VPN that hops over UDP ports and obfuscates
  its datagrams (README.md). The program is one process per side with libmill coroutines; its
  code is src/*.c, and this library models all of it but the calls into the operating system,
  libmill, libsodium and lz4, which are parameters.

  \<^bold>\<open>The parts of the program and their theories.\<close>
  \<^item> \<^emph>\<open>Packets\<close>. Packet is the buffer \<^verbatim>\<open>pbuf_t\<close> of encapsulate.h as a record and as 2072
    bytes; Crypto is crypto.c, Compress is compress.c, Encapsulate is encapsulate.c. The
    third-party functions are the record \<open>lib\<close> of Thirdparty. Channel states what the layer
    promises its users (locale \<open>channel\<close>) and interprets it on \<open>encapsulate\<close> and
    \<open>decapsulate\<close>.
  \<^item> \<^emph>\<open>Tokens\<close>. Totp is totp.c: the port offset of a half second.
  \<^item> \<^emph>\<open>Configuration\<close>. Cstring has the C string functions that are used, Conf is conf.c and
    conf.h; Settings prints settings and reads them back, Reader is the line-wise
    specification of the reader, Messages has the texts that the user sees.
  \<^item> \<^emph>\<open>System commands\<close>. Shell is \<^verbatim>\<open>sprintf\<close> and the macro \<^verbatim>\<open>shell\<close>; Subnet has the arithmetic
    of prefixes; Utils is utils.c (\<^verbatim>\<open>ifconfig\<close>, \<^verbatim>\<open>route\<close>, \<^verbatim>\<open>nat\<close>, \<^verbatim>\<open>runas\<close>, \<^verbatim>\<open>daemonize\<close>).
  \<^item> \<^emph>\<open>Device and log\<close>. Tunif is tunif.c and log.c.
  \<^item> \<^emph>\<open>The tunnel\<close>. Vpn has the state and the coroutines of vpn.c: \<open>tun_worker\<close>,
    \<open>udp_sender\<close>, \<open>udp_worker\<close> (\<open>worker_start\<close>, \<open>worker_round\<close>), \<open>client_hop\<close>,
    \<open>heartbeat\<close>, \<open>snmp_logger\<close> (\<open>snmp_round\<close>). Process has \<^verbatim>\<open>vpn_init\<close>, \<^verbatim>\<open>vpn_run\<close> and main.c.
  \<^item> \<^emph>\<open>Tests\<close>. Tests is the loops of tests/test_encapsulate.c.

  \<^bold>\<open>How they interact.\<close> \<open>main\<close> parses the configuration, goes to the background, calls
  \<open>vpn_init\<close>, which fills the context and runs the commands, and enters \<^verbatim>\<open>vpn_run\<close>. From then on
  coroutines share the context: workers record peers and renew the time to live of a path, the
  heartbeat stores the valid tokens and lets paths expire, the sender chooses a living path. A
  coroutine is only interrupted where it waits, so the code between two waits is one function
  from the state to a new state and the list of its effects. Theory System composes these
  functions to a transition system: an input (a frame, a datagram or a timeout on a socket, a
  hop, a heartbeat, a tick of the logger, a signal) and the segment it sets off. Theory Timed
  gives the inputs the time they come at, so that a worker times out when its deadline has
  passed and not before; the steps of Accounts carry their effects.

  \<^bold>\<open>Two processes and a network.\<close> Network composes a client and a server: a step of the joint system
  is a step of one of them, and the datagrams that the two have sent are under way until they are
  received, lost or, where the network does so, repeated. Letters says what a segment puts on the
  network: datagrams that hold an encapsulated packet under the token of the path they leave on.
  The invariant of Network says that what is under way to a socket was encapsulated under the
  token of the worker that holds this socket, so that it decapsulates to the packet that was read
  from the tun device; Connect follows both sides from any reachable state to a delivery.

  \<^bold>\<open>Faults.\<close> An operation of C that has no defined result is a value: reading or writing outside
  an object, a failed \<^verbatim>\<open>assert\<close>, a division by zero, a signed overflow and the use of a closed
  socket are the constructors of \<open>fault\<close> in Prelude, and every operation that can run into one
  returns \<open>Inl\<close>. A loop whose end is not obvious (the search of \<open>udp_sender\<close>, the loops of
  \<open>route\<close>, the main loop) is a partial function with \<open>None\<close> for not returning, and when it returns is
  a theorem. No fuel is used.

  \<^bold>\<open>What the lemmas show.\<close>
  \<^item> Packet layer: encapsulating and decapsulating give the packet back, with the exact bytes on
    the wire, sizes, and the inputs that break it (Encapsulate, Channel).
  \<^item> Invariant: every segment keeps \<open>vpn_ok\<close> (Heartbeat, Invariant), so every reachable state has
    it (Safety, through the locales \<open>invariant_system\<close> and \<open>safe_system\<close> of Transition), which
    bounds the faults of a running process; a server keeps all its sockets.
  \<^item> Refinement: the server implements a table of sessions that accepted datagrams and heartbeats
    alone drive (Sessions, locale \<open>simulation\<close>: the labels of a run determine the table after
    it), and only an accepted datagram changes the peer of a server's path.
  \<^item> Behaviour: the choice of the path (Sender), the window of valid tokens (Heartbeat), delivery
    from device to device and agreement on tokens (Delivery), the rates (Counters), the counters
    as exact sums over a run (Accounts, locale \<open>audited_system\<close>).
  \<^item> Long runs (Longrun): with any other segments in between, a path on which nothing acceptable
    arrives is dead after five heartbeats, and while the living paths stay the same each of them
    carries one of the next packets from the tun device.
  \<^item> Runs: a client whose sockets could be bound in the last five seconds never fails when it
    sends (Timed); two heartbeats open a path, a repeated datagram takes it over (Opening).
  \<^item> End to end: what a client and a server joined by a network write to their devices was read
    from the other device, no more often than it was read unless the network repeats datagrams
    (Network, Connect), and from every reachable state a packet can still get through (Connect).
  \<^item> Start (Startup), with the routes for two servers, and stop: \<^verbatim>\<open>vpn_run\<close> returns exactly when a signal asks for it (Lifetime, over
    infinite runs with \<open>main_loop\<close>, which is \<open>None\<close> when the loop never ends).
  \<^item> Configuration (Conf, Settings, Reader), routes and address translation (Utils).

  \<^bold>\<open>Parameters and hypotheses.\<close> \<open>lz4_ok\<close> is the documented contract of lz4 (bounded output,
  decompression inverts compression), \<open>rng_ok\<close> that \<^verbatim>\<open>randombytes_uniform\<close> stays below its
  bound. The network of the joint system brings a datagram to the socket it is addressed to and
  may add any datagram that the receiver rejects (that foreign datagrams are rejected is a claim
  about the cipher, which is not proved), the client resolves a name to the same address every
  time and binds the ports it hops to, and the server gives the sockets of the client distinct
  addresses. Resolving names, binding sockets, \<^verbatim>\<open>system\<close>, the clock, user lookup and \<^verbatim>\<open>fork\<close> are
  arguments without hypotheses unless a theorem names one. \<open>usable\<close> is what \<^verbatim>\<open>parse_args\<close>
  guarantees, real port numbers, and an MTU of at most 2048: for 2049 to 2052, which the
  program accepts, a theorem of Encapsulate shows that padding leaves the buffer.

  \<^bold>\<open>Not modelled.\<close> The arguments of most log entries of the tunnel (an entry is its format string),
  the order in which libmill resumes coroutines that are ready (the transition system has all
  orders of its segments; but the workers that a hop or the start sets up with \<^verbatim>\<open>go\<close> are one
  segment, \<open>client_hop\<close> or \<open>run_start\<close>, while libmill may resume another ready coroutine between
  two of them; each \<open>hop_path\<close> on its own keeps the invariant, as \<open>hop_path_ok\<close> says), a wait inside \<^verbatim>\<open>ipremote\<close> while a host name is resolved (the start of a worker
  is one segment), a return of \<^verbatim>\<open>fdwait\<close> without \<^verbatim>\<open>FDW_IN\<close> (the loop of \<^verbatim>\<open>tun_worker\<close> waits again),
  memory exhaustion, the fixed datagrams of tests/test_encapsulate.c (bytes made by the real
  libsodium and lz4), the timing loop tests/perf.c, and the object layout on big-endian hosts. What
  remains of src/*.c and src/*.h without an entry in the map are licence texts, includes,
  prototypes and blank lines.
\<close>

end
